(* ===== verification/Prelude.thy ===== *)
theory Prelude
  imports Main "HOL-Library.Word"
begin

text \<open>
  Shared vocabulary of the development: the machine integer types the C++ code uses, the fault
  value that stands for a failed \<open>srsran_assert\<close>, and the generic facts on words and lists that
  the component theories use.

  The second half is the arithmetic of sequence numbers (SN).  The code compares SNs relative to
  a base, \<open>(x - base) % mod\<close> on \<open>uint32_t\<close>, with \<open>mod\<close> a power of two.  The locale
  \<open>sn_space\<close> states what the code relies on (the modulus is twice the window size, both powers of
  two) and proves the laws of that distance once; it is interpreted on the moduli of RLC UM and
  RLC AM in \<open>Rlc_Config\<close>.
\<close>

unbundle bit_operations_syntax

section \<open>Machine types\<close>

type_synonym u8 = "8 word"
type_synonym u16 = "16 word"
type_synonym u32 = "32 word"
type_synonym u64 = "64 word"
type_synonym bytes = "8 word list"

text \<open>
  A failed \<open>srsran_assert\<close> ends the program; the model returns it as a value, as it does for an
  access to a destroyed or missing object and a shift by the width of the type or more, which the
  language leaves undefined, and for a call that waits for another thread.
\<close>

datatype fault = Assertion_failed | Invalid_access | Undefined_shift | Blocked

type_synonym 'a res = "fault + 'a"

lemma ex_bool_trivial [simp]: "\<exists>b :: bool. b" "Ex Not"
  by blast+

section \<open>Words: masks, bytes and bounds\<close>

named_theorems mask_lits \<open>hexadecimal masks of the source as low-bit masks\<close>

lemma mask_lit_1 [mask_lits]: "(0x01 :: 'a::len word) = mask 1"
  by simp

lemma mask_lit_3 [mask_lits]: "(0x03 :: 'a::len word) = mask 2"
  by (simp add: mask_eq_exp_minus_1)

lemma mask_lit_7 [mask_lits]: "(0x07 :: 'a::len word) = mask 3"
  by (simp add: mask_eq_exp_minus_1)

lemma mask_lit_f [mask_lits]: "(0x0f :: 'a::len word) = mask 4"
  by (simp add: mask_eq_exp_minus_1)

lemma mask_lit_3f [mask_lits]: "(0x3f :: 'a::len word) = mask 6"
  by (simp add: mask_eq_exp_minus_1)

lemma mask_lit_7f [mask_lits]: "(0x7f :: 'a::len word) = mask 7"
  by (simp add: mask_eq_exp_minus_1)

lemma mask_lit_ff [mask_lits]: "(0xff :: 'a::len word) = mask 8"
  by (simp add: mask_eq_exp_minus_1)

lemma uint_pow2:
  assumes "n < LENGTH('a::len)"
  shows "uint (2 ^ n :: 'a word) = 2 ^ n"
proof -
  have "(2 ^ n :: 'a word) = word_of_int (2 ^ n)" by simp
  then have "uint (2 ^ n :: 'a word) = 2 ^ n mod 2 ^ LENGTH('a)"
    by (simp only: uint_word_of_int)
  with assms show ?thesis by (simp add: power_strict_increasing)
qed

lemma unat_pow2: "n < LENGTH('a::len) \<Longrightarrow> unat (2 ^ n :: 'a word) = 2 ^ n"
  by (simp add: unat_eq_nat_uint uint_pow2 nat_power_eq)

lemma bit_less_exp:
  fixes x :: "'a::len word"
  assumes "x < 2 ^ n" and "bit x m"
  shows "m < n"
proof (rule ccontr)
  assume nm: "\<not> m < n"
  from assms(2) have "m < LENGTH('a)"
    by (rule bit_imp_le_length)
  with nm have "uint (2 ^ n :: 'a word) = 2 ^ n"
    by (simp add: uint_pow2)
  with assms(1) have "uint x < 2 ^ n"
    by (simp add: word_less_def)
  then have "take_bit n (uint x) = uint x"
    by (simp add: take_bit_int_eq_self)
  then have "bit (uint x) m \<longleftrightarrow> m < n \<and> bit (uint x) m"
    by (metis bit_take_bit_iff)
  moreover from assms(2) \<open>m < LENGTH('a)\<close> have "bit (uint x) m"
    by (simp add: bit_uint_iff)
  ultimately show False using nm by simp
qed

lemma unat_ucast_mod: "unat (ucast (x :: 'a::len word) :: 'b::len word) = unat x mod 2 ^ LENGTH('b)"
  by (simp add: unsigned_ucast_eq take_bit_eq_mod)

lemma unat_ucast_up [simp]:
  "LENGTH('a::len) \<le> LENGTH('b::len) \<Longrightarrow> unat (ucast (x :: 'a word) :: 'b word) = unat x"
proof -
  assume "LENGTH('a) \<le> LENGTH('b)"
  then have "(2 :: nat) ^ LENGTH('a) \<le> 2 ^ LENGTH('b)" by simp
  with unsigned_less [of x, where 'a = nat] have "unat x < 2 ^ LENGTH('b)" by linarith
  then show ?thesis by (simp add: unat_ucast_mod)
qed

lemma unat_of_nat_u32: "n < 2 ^ 32 \<Longrightarrow> unat (of_nat n :: u32) = n"
  by (simp add: unat_of_nat)

lemma unat_add_fits: "unat x + unat y < 2 ^ 32 \<Longrightarrow> unat (x + y :: u32) = unat x + unat y"
  by (simp add: unat_word_ariths)

lemma u16_of_bytes [simp]:
  "push_bit 8 (ucast (ucast (drop_bit 8 x) :: u8)) OR ucast (ucast x :: u8) = (x :: u16)"
  by (rule bit_word_eqI) (auto simp: bit_simps)

section \<open>Sequence-number arithmetic\<close>

definition sn_off :: "u32 \<Rightarrow> u32 \<Rightarrow> u32 \<Rightarrow> nat" where
  "sn_off md b x = unat ((x - b) mod md)"

text \<open>
  \<open>sn_off md b x\<close> is the number the code computes as \<open>(x - b) % md\<close>, read as a natural number.
\<close>

lemma int_sn_off_pow:
  assumes "k < 32" and "md = 2 ^ k"
  shows "int (sn_off md b x) = (uint x - uint b) mod 2 ^ k"
proof -
  from assms have md: "uint md = 2 ^ k"
    by (simp add: uint_pow2)
  have "uint ((x - b) mod md) = ((uint x - uint b) mod 2 ^ 32) mod 2 ^ k"
    by (simp add: uint_mod md uint_word_ariths)
  also have "\<dots> = (uint x - uint b) mod 2 ^ k"
    using assms(1) by (simp only: mod_mod_cancel [OF le_imp_power_dvd [OF less_imp_le]])
  finally show ?thesis
    by (simp add: sn_off_def unat_eq_nat_uint)
qed

text \<open>The SNs between the lower edge of a window and an SN.\<close>

definition sns_below :: "u32 \<Rightarrow> u32 \<Rightarrow> u32 \<Rightarrow> u32 set" where
  "sns_below md b n = {sn. sn < md \<and> sn_off md b sn < sn_off md b n}"

text \<open>The number read by the code fits the modulus, and equal numbers read equal.\<close>

locale sn_space =
  fixes md W :: u32
  assumes md_W: "\<exists>k. k < 31 \<and> md = 2 ^ Suc k \<and> W = 2 ^ k"
begin

lemma md_double: "unat md = 2 * unat W"
proof -
  from md_W obtain k where k: "k < 31" "md = 2 ^ Suc k" "W = 2 ^ k" by blast
  then have "unat (2 ^ Suc k :: u32) = 2 ^ Suc k" "unat (2 ^ k :: u32) = 2 ^ k"
    by (auto simp: unat_pow2 simp del: power_Suc)
  then show ?thesis
    unfolding k by simp
qed

lemma W_pos: "0 < unat W"
proof -
  from md_W obtain k where "k < 31" "W = 2 ^ k" by blast
  then show ?thesis by (simp add: unat_pow2)
qed

lemma md_pos: "0 < unat md"
  using md_double W_pos by simp

lemma int_off: "int (sn_off md b x) = (uint x - uint b) mod int (unat md)"
proof -
  from md_W obtain k where k: "k < 31" "md = 2 ^ Suc k" by blast
  then have "unat md = 2 ^ Suc k"
    using unat_pow2 [of "Suc k", where 'a = 32] by simp
  with int_sn_off_pow [of "Suc k" md b x] k show ?thesis by simp
qed

lemma off_less: "sn_off md b x < unat md"
  using int_off [of b x] md_pos by (metis of_nat_0_less_iff of_nat_less_iff pos_mod_bound)

lemma off_self [simp]: "sn_off md b b = 0"
  using int_off [of b b] by simp

lemma md_dvd: "int (unat md) dvd 2 ^ 32"
proof -
  from md_W obtain k where k: "k < 31" "md = 2 ^ Suc k" by blast
  then have "unat md = 2 ^ Suc k"
    using unat_pow2 [of "Suc k", where 'a = 32] by simp
  moreover from k(1) have "(2 :: int) ^ Suc k dvd 2 ^ 32"
    by (intro le_imp_power_dvd) simp
  ultimately show ?thesis
    by (simp only: of_nat_power of_nat_numeral)
qed

lemma off_mod: "sn_off md b (x mod md) = sn_off md b x"
proof -
  have "int (sn_off md b (x mod md)) = (uint x mod int (unat md) - uint b) mod int (unat md)"
    by (simp add: int_off uint_mod)
  also have "\<dots> = int (sn_off md b x)"
    by (simp add: int_off mod_diff_left_eq)
  finally show ?thesis by simp
qed

lemma off_add: "sn_off md b (x + y) = (sn_off md b x + unat y) mod unat md"
proof -
  let ?M = "int (unat md)"
  have "int (sn_off md b (x + y)) = ((uint x + uint y) mod 2 ^ 32 - uint b) mod ?M"
    by (simp only: int_off uint_word_ariths len_of_numeral_defs) simp
  also have "\<dots> = ((uint x + uint y) mod 2 ^ 32 mod ?M - uint b) mod ?M"
    by (simp only: mod_diff_left_eq)
  also have "\<dots> = ((uint x + uint y) mod ?M - uint b) mod ?M"
    by (simp only: mod_mod_cancel [OF md_dvd])
  also have "\<dots> = ((uint x - uint b) + uint y) mod ?M"
    by (simp only: mod_diff_left_eq) (simp add: algebra_simps)
  also have "\<dots> = (int (sn_off md b x) + int (unat y)) mod ?M"
    by (simp only: int_off mod_add_left_eq uint_nat)
  finally show ?thesis
    by (metis of_nat_add of_nat_eq_iff of_nat_mod)
qed

lemma off_succ: "sn_off md b ((x + 1) mod md) = Suc (sn_off md b x) mod unat md"
  by (simp add: off_mod off_add)

lemma off_succ_less:
  "Suc (sn_off md b x) < unat md \<Longrightarrow> sn_off md b ((x + 1) mod md) = Suc (sn_off md b x)"
  by (simp add: off_succ)

lemma off_inj:
  assumes "x < md" "y < md" "sn_off md b x = sn_off md b y"
  shows "x = y"
proof -
  from assms(3) have "(uint x - uint b) mod int (unat md) = (uint y - uint b) mod int (unat md)"
    by (metis int_off)
  then have "uint x mod int (unat md) = uint y mod int (unat md)"
    by (metis diff_add_cancel mod_add_cong)
  moreover have "uint x < int (unat md)" "uint y < int (unat md)"
    using assms(1,2) by (simp_all add: word_less_def)
  ultimately have "uint x = uint y" by simp
  then show ?thesis by (simp add: word_uint_eqI)
qed

lemma off_zero_iff: "x < md \<Longrightarrow> b < md \<Longrightarrow> sn_off md b x = 0 \<longleftrightarrow> x = b"
  using off_inj [of x b b] by auto

lemma off_rebase:
  "sn_off md c x =
    (if sn_off md b c \<le> sn_off md b x then sn_off md b x - sn_off md b c
     else sn_off md b x + unat md - sn_off md b c)"
proof -
  let ?M = "int (unat md)"
  have "int (sn_off md c x) = ((uint x - uint b) - (uint c - uint b)) mod ?M"
    by (simp add: int_off)
  also have "\<dots> = (int (sn_off md b x) - int (sn_off md b c)) mod ?M"
    by (simp add: int_off mod_diff_eq)
  finally have eq: "int (sn_off md c x) = (int (sn_off md b x) - int (sn_off md b c)) mod ?M" .
  show ?thesis
  proof (cases "sn_off md b c \<le> sn_off md b x")
    case True
    then have "(int (sn_off md b x) - int (sn_off md b c)) mod ?M =
        int (sn_off md b x) - int (sn_off md b c)"
      using off_less [of b x] by (intro mod_pos_pos_trivial) linarith+
    with eq True show ?thesis by simp
  next
    case False
    then have "(int (sn_off md b x) - int (sn_off md b c)) mod ?M =
        (int (sn_off md b x) - int (sn_off md b c) + ?M) mod ?M"
      by simp
    also have "\<dots> = int (sn_off md b x) - int (sn_off md b c) + ?M"
      using False off_less [of b c] by (intro mod_pos_pos_trivial) linarith+
    finally have "int (sn_off md c x) = int (sn_off md b x) - int (sn_off md b c) + ?M"
      by (simp only: eq)
    then have "sn_off md c x = sn_off md b x + unat md - sn_off md b c"
      using False off_less [of b c] by linarith
    with False show ?thesis by simp
  qed
qed

lemma mod_add_mod: "(x mod md + y) mod md = (x + y) mod md"
proof -
  have "sn_off md 0 (x mod md + y) = sn_off md 0 (x + y)"
    by (simp add: off_add off_mod)
  then show ?thesis by (simp add: sn_off_def word_unat_eq_iff)
qed

lemma less_md_iff: "(x mod md :: u32) < md"
  using md_pos by (simp add: word_less_nat_alt unat_mod)

text \<open>Distances from the lower edge of a window of size \<open>W\<close> below \<open>h\<close>.\<close>

lemma W_less_md: "unat W < unat md"
  using md_double W_pos by simp

lemma off_plus_W: "sn_off md h (h + W) = unat W"
  using W_less_md by (simp add: off_add)

lemma off_window_top: "sn_off md (h + W) h = unat W"
  using off_rebase [of "h + W" h h] W_pos by (simp add: off_plus_W md_double)

lemma off_window_bottom: "sn_off md (h + W) (h - W) = 0"
proof -
  have "sn_off md h (h - W) = unat W"
    using off_rebase [of h "h - W" "h - W"] W_pos off_plus_W [of "h - W"] by (simp add: md_double)
  then show ?thesis
    using off_rebase [of "h + W" "h - W" h] by (simp add: off_plus_W)
qed

lemma off_window_last: "sn_off md ((sn + 1) mod md + W) sn = unat W - 1"
proof -
  let ?b = "(sn + 1) mod md + W"
  have "Suc (sn_off md ?b sn) mod unat md = unat W"
    using off_succ [of ?b sn] off_window_top [of "(sn + 1) mod md"] by simp
  moreover have "Suc (sn_off md ?b sn) \<le> unat md"
    using off_less [of ?b sn] by simp
  ultimately show ?thesis
    using W_pos by (cases "Suc (sn_off md ?b sn) = unat md") auto
qed

lemma below_self [simp]: "sns_below md b b = {}"
  by (simp add: sns_below_def)

lemma off_eq_iff: "x < md \<Longrightarrow> y < md \<Longrightarrow> sn_off md b x = sn_off md b y \<longleftrightarrow> x = y"
  using off_inj by blast

lemma below_succ:
  "n < md \<Longrightarrow> Suc (sn_off md b n) < unat md \<Longrightarrow> sns_below md b ((n + 1) mod md) = insert n (sns_below md b n)"
  by (auto simp: sns_below_def off_succ_less less_Suc_eq off_eq_iff)

lemma off_advance:
  assumes "b < md" "sn < md" "sn \<noteq> b"
  shows "sn_off md ((b + 1) mod md) sn = sn_off md b sn - 1" "0 < sn_off md b sn"
proof -
  show pos: "0 < sn_off md b sn" using assms off_zero_iff [of sn b] by simp
  have "sn_off md b ((b + 1) mod md) = 1"
    using md_double W_pos by (simp add: off_succ)
  with pos show "sn_off md ((b + 1) mod md) sn = sn_off md b sn - 1"
    using off_rebase [of "(b + 1) mod md" sn b] by simp
qed

lemma below_advance:
  assumes "b < md" "n < md" "n \<noteq> b"
  shows "sns_below md ((b + 1) mod md) n = sns_below md b n - {b}"
proof (rule set_eqI)
  fix sn
  have "sn_off md ((b + 1) mod md) b = unat md - 1"
    using off_rebase [of "(b + 1) mod md" b b] off_succ [of b b] md_double W_pos by simp
  moreover have "sn_off md ((b + 1) mod md) n < unat md - 1"
    using off_advance [OF assms] off_less [of b n] by simp
  ultimately show "sn \<in> sns_below md ((b + 1) mod md) n \<longleftrightarrow> sn \<in> sns_below md b n - {b}"
    using off_advance [OF assms(1), of sn] off_advance [OF assms] by (cases "sn = b") (auto simp: sns_below_def)
qed

lemma card_below: "card (sns_below md b n) = sn_off md b n"
proof -
  have "sn_off md b ` sns_below md b n = {..<sn_off md b n}"
  proof (intro equalityI subsetI)
    fix k
    assume k: "k \<in> {..<sn_off md b n}"
    then have "k < unat md" using off_less [of b n] by simp
    moreover from this have "unat (of_nat k :: u32) = k"
      using unsigned_less [of md, where 'a = nat] by (intro unat_of_nat_u32) (simp del: unsigned_less)
    ultimately have "sn_off md b ((b + of_nat k) mod md) = k"
      by (simp add: off_mod off_add)
    with k less_md_iff [of "b + of_nat k"] show "k \<in> sn_off md b ` sns_below md b n"
      by (intro image_eqI [of _ _ "(b + of_nat k) mod md"]) (auto simp: sns_below_def)
  qed (auto simp: sns_below_def)
  moreover have "inj_on (sn_off md b) (sns_below md b n)"
    by (rule inj_onI) (auto simp: sns_below_def intro: off_inj)
  ultimately show ?thesis by (metis card_image card_lessThan)
qed

lemma mod_base_less: "(x - b) mod md < (y - c) mod md \<longleftrightarrow> sn_off md b x < sn_off md c y"
  by (simp add: sn_off_def word_less_nat_alt)

lemma mod_base_le: "(x - b) mod md \<le> (y - c) mod md \<longleftrightarrow> sn_off md b x \<le> sn_off md c y"
  by (simp add: sn_off_def word_le_nat_alt)

lemma mod_base_eq: "(x - b) mod md = (y - c) mod md \<longleftrightarrow> sn_off md b x = sn_off md c y"
  by (simp add: sn_off_def word_unat_eq_iff)

end

end
