(* ===== verification/Ring_Buffer.thy ===== *)
theory Ring_Buffer
  imports Prelude
begin

text \<open>
  The ring buffer of \<open>include/srsran/adt/ring_buffer.h\<close> (\<open>ring_buffer_storage\<close> over a vector and
  \<open>ring_buffer_impl\<close>): a read position and an element count over a vector of slots, with the wrap
  around computed either by \<open>%\<close> or, when the size is a power of two, by a bitwise and.  A destroyed
  slot is \<open>None\<close>.  The template parameter \<open>ForcePower2Size\<close> is the argument \<open>p2\<close>.  The rounding
  of the size to a power of two, done in floating point, is not modelled: the size of the vector
  is the size it was created with.

  The locale \<open>bounded_fifo\<close> states what the clients use of such a buffer, a bounded first-in
  first-out queue; it is interpreted on the operations below.
\<close>

section \<open>Storage\<close>

record 'a ring_buffer =
  rb_rpos :: u32
  rb_count :: u32
  rb_data :: "'a option list"

definition rb_make :: "nat \<Rightarrow> 'a ring_buffer" where
  "rb_make sz = \<lparr>rb_rpos = 0, rb_count = 0, rb_data = replicate sz None\<rparr>"

definition rb_max_size :: "'a ring_buffer \<Rightarrow> nat" where
  "rb_max_size b = length (rb_data b)"

definition rb_advance_pos :: "bool \<Rightarrow> 'a ring_buffer \<Rightarrow> u32 \<Rightarrow> u32 \<Rightarrow> u32" where
  "rb_advance_pos p2 b pos n =
    (if p2 then of_nat (unat (pos + n) AND (rb_max_size b - 1))
     else of_nat (unat (pos + n) mod rb_max_size b))"

definition rb_set_size :: "'a ring_buffer \<Rightarrow> nat \<Rightarrow> 'a ring_buffer res" where
  "rb_set_size b sz =
    (if rb_count b = 0 \<or> sz = rb_max_size b
     then Inr (b\<lparr>rb_data := take sz (rb_data b) @ replicate (sz - length (rb_data b)) None\<rparr>)
     else Inl Assertion_failed)"

text \<open>Access to the slot at a position of the storage.\<close>

definition rb_get :: "'a ring_buffer \<Rightarrow> u32 \<Rightarrow> 'a res" where
  "rb_get b pos =
    (if unat pos < rb_max_size b
     then (case rb_data b ! unat pos of Some x \<Rightarrow> Inr x | None \<Rightarrow> Inl Invalid_access)
     else Inl Invalid_access)"

section \<open>Operations\<close>

definition rb_size :: "'a ring_buffer \<Rightarrow> u32" where
  "rb_size b = rb_count b"

definition rb_empty :: "'a ring_buffer \<Rightarrow> bool" where
  "rb_empty b \<longleftrightarrow> rb_count b = 0"

definition rb_full :: "'a ring_buffer \<Rightarrow> bool" where
  "rb_full b \<longleftrightarrow> unat (rb_size b) = rb_max_size b"

definition rb_get_wpos :: "bool \<Rightarrow> 'a ring_buffer \<Rightarrow> u32" where
  "rb_get_wpos p2 b = rb_advance_pos p2 b (rb_rpos b) (rb_count b)"

definition rb_push :: "bool \<Rightarrow> 'a \<Rightarrow> 'a ring_buffer \<Rightarrow> 'a ring_buffer res" where
  "rb_push p2 x b =
    (if rb_full b then Inl Assertion_failed
     else Inr (b\<lparr>rb_data := (rb_data b)[unat (rb_get_wpos p2 b) := Some x],
                 rb_count := rb_count b + 1\<rparr>))"

definition rb_try_push :: "bool \<Rightarrow> 'a \<Rightarrow> 'a ring_buffer \<Rightarrow> (bool \<times> 'a ring_buffer) res" where
  "rb_try_push p2 x b =
    (if rb_full b then Inr (False, b)
     else case rb_push p2 x b of Inl e \<Rightarrow> Inl e | Inr b' \<Rightarrow> Inr (True, b'))"

fun rb_try_push_range :: "bool \<Rightarrow> 'a list \<Rightarrow> 'a ring_buffer \<Rightarrow> (nat \<times> 'a ring_buffer) res" where
  "rb_try_push_range p2 [] b = Inr (0, b)"
| "rb_try_push_range p2 (x # xs) b =
    (case rb_try_push p2 x b of
       Inl e \<Rightarrow> Inl e
     | Inr (ok, b') \<Rightarrow>
         if \<not> ok then Inr (0, b')
         else (case rb_try_push_range p2 xs b' of
                 Inl e \<Rightarrow> Inl e
               | Inr (n, b'') \<Rightarrow> Inr (Suc n, b'')))"

definition rb_pop :: "bool \<Rightarrow> 'a ring_buffer \<Rightarrow> 'a ring_buffer res" where
  "rb_pop p2 b =
    (if rb_empty b then Inl Assertion_failed
     else Inr (b\<lparr>rb_data := (rb_data b)[unat (rb_rpos b) := None],
                 rb_rpos := rb_advance_pos p2 b (rb_rpos b) 1,
                 rb_count := rb_count b - 1\<rparr>))"

definition rb_top :: "'a ring_buffer \<Rightarrow> 'a res" where
  "rb_top b = (if rb_empty b then Inl Assertion_failed else rb_get b (rb_rpos b))"

text \<open>The target range of \<open>pop_into\<close> has \<open>n\<close> places; the result is what was moved into it.\<close>

fun rb_pop_into :: "bool \<Rightarrow> nat \<Rightarrow> 'a ring_buffer \<Rightarrow> ('a list \<times> 'a ring_buffer) res" where
  "rb_pop_into p2 0 b = Inr ([], b)"
| "rb_pop_into p2 (Suc n) b =
    (if rb_empty b then Inr ([], b)
     else case rb_get b (rb_rpos b) of
            Inl e \<Rightarrow> Inl e
          | Inr x \<Rightarrow>
              (case rb_pop p2 b of
                 Inl e \<Rightarrow> Inl e
               | Inr b' \<Rightarrow>
                   (case rb_pop_into p2 n b' of
                      Inl e \<Rightarrow> Inl e
                    | Inr (xs, b'') \<Rightarrow> Inr (x # xs, b''))))"

definition rb_clear :: "bool \<Rightarrow> 'a ring_buffer \<Rightarrow> 'a ring_buffer" where
  "rb_clear p2 b =
    b\<lparr>rb_data := fold (\<lambda>i d. d[unat (rb_advance_pos p2 b (rb_rpos b) (of_nat i)) := None])
        [0..<unat (rb_count b)] (rb_data b),
      rb_rpos := 0, rb_count := 0\<rparr>"

definition rb_index :: "bool \<Rightarrow> 'a ring_buffer \<Rightarrow> u32 \<Rightarrow> 'a res" where
  "rb_index p2 b i =
    (if i < rb_size b then rb_get b (rb_advance_pos p2 b (rb_rpos b) i)
     else Inl Assertion_failed)"

text \<open>
  \<open>apply_first\<close> calls the predicate on the elements in turn until it answers true.  The predicate
  may change the element and, through what it captures, other state \<open>s\<close>.  The first argument is
  the list of the iterator positions left.
\<close>

fun rb_apply_first_from ::
  "nat list \<Rightarrow> bool \<Rightarrow> ('s \<Rightarrow> 'a \<Rightarrow> bool \<times> 's \<times> 'a) \<Rightarrow> 's \<Rightarrow> 'a ring_buffer \<Rightarrow>
    (bool \<times> 's \<times> 'a ring_buffer) res" where
  "rb_apply_first_from [] p2 f s b = Inr (False, s, b)"
| "rb_apply_first_from (i # is) p2 f s b =
    (case rb_index p2 b (of_nat i) of
       Inl e \<Rightarrow> Inl e
     | Inr x \<Rightarrow>
         (case f s x of (found, s', x') \<Rightarrow>
            let b' = b\<lparr>rb_data :=
                  (rb_data b)[unat (rb_advance_pos p2 b (rb_rpos b) (of_nat i)) := Some x']\<rparr>
            in if found then Inr (True, s', b') else rb_apply_first_from is p2 f s' b'))"

definition rb_apply_first ::
  "bool \<Rightarrow> ('s \<Rightarrow> 'a \<Rightarrow> bool \<times> 's \<times> 'a) \<Rightarrow> 's \<Rightarrow> 'a ring_buffer \<Rightarrow>
    (bool \<times> 's \<times> 'a ring_buffer) res" where
  "rb_apply_first p2 f s b = rb_apply_first_from [0..<unat (rb_count b)] p2 f s b"

section \<open>Invariant and contents\<close>

definition rb_slot :: "'a ring_buffer \<Rightarrow> nat \<Rightarrow> nat" where
  "rb_slot b i = (unat (rb_rpos b) + i) mod rb_max_size b"

definition rb_inv :: "bool \<Rightarrow> 'a ring_buffer \<Rightarrow> bool" where
  "rb_inv p2 b \<longleftrightarrow>
    0 < rb_max_size b \<and> rb_max_size b \<le> 2 ^ 31 \<and> (p2 \<longrightarrow> (\<exists>k. rb_max_size b = 2 ^ k)) \<and>
    unat (rb_rpos b) < rb_max_size b \<and> unat (rb_count b) \<le> rb_max_size b \<and>
    (\<forall>i < unat (rb_count b). rb_data b ! rb_slot b i \<noteq> None)"

definition rb_list :: "'a ring_buffer \<Rightarrow> 'a list" where
  "rb_list b = map (\<lambda>i. the (rb_data b ! rb_slot b i)) [0..<unat (rb_count b)]"

lemma length_rb_list [simp]: "length (rb_list b) = unat (rb_count b)"
  by (simp add: rb_list_def)

lemma nth_rb_list: "i < unat (rb_count b) \<Longrightarrow> rb_list b ! i = the (rb_data b ! rb_slot b i)"
  by (simp add: rb_list_def)

lemma wrap_inj:
  fixes N :: nat
  assumes "r < N" "i < N" "j < N" "(r + i) mod N = (r + j) mod N"
  shows "i = j"
proof -
  have w: "(r + k) mod N = (if r + k < N then r + k else r + k - N)" if "k < N" for k
    using that assms(1) by (simp add: mod_if)
  from assms(4) show ?thesis
    using assms(1-3) by (simp add: w split: if_splits)
qed

lemma rb_slot_less: "rb_inv p2 b \<Longrightarrow> rb_slot b i < rb_max_size b"
  by (simp add: rb_slot_def rb_inv_def)

lemma rb_slot_inj:
  "rb_inv p2 b \<Longrightarrow> i < rb_max_size b \<Longrightarrow> j < rb_max_size b \<Longrightarrow> rb_slot b i = rb_slot b j \<longleftrightarrow> i = j"
  unfolding rb_slot_def rb_inv_def by (metis wrap_inj)

lemma and_pow2_minus_1: "n AND (2 ^ k - Suc 0) = n mod (2 ^ k :: nat)"
  by (simp only: take_bit_eq_mod [symmetric] take_bit_eq_mask mask_eq_exp_minus_1 One_nat_def)

text \<open>Both ways of wrapping around compute the slot number.\<close>

lemma rb_advance_slot:
  assumes inv: "rb_inv p2 b" and n: "unat n \<le> rb_max_size b"
  shows "unat (rb_advance_pos p2 b (rb_rpos b) n) = rb_slot b (unat n)"
proof -
  have small: "unat (rb_rpos b) + unat n < 2 ^ 32"
    using inv n by (simp add: rb_inv_def)
  then have sum: "unat (rb_rpos b + n) = unat (rb_rpos b) + unat n"
    by (simp add: unat_word_ariths)
  have "rb_slot b (unat n) < 2 ^ 32"
    using rb_slot_less [OF inv, of "unat n"] inv by (simp add: rb_inv_def)
  then have "unat (of_nat (rb_slot b (unat n)) :: u32) = rb_slot b (unat n)"
    by (simp add: unat_of_nat)
  moreover have "rb_advance_pos p2 b (rb_rpos b) n = of_nat (rb_slot b (unat n))"
    using inv by (auto simp: rb_advance_pos_def rb_slot_def sum rb_inv_def and_pow2_minus_1)
  ultimately show ?thesis by simp
qed

lemma rb_get_slot:
  assumes "rb_inv p2 b" "i < unat (rb_count b)" "unat pos = rb_slot b i"
  shows "rb_get b pos = Inr (rb_list b ! i)"
  using assms rb_slot_less [OF assms(1), of i]
  by (auto simp: rb_get_def nth_rb_list rb_inv_def split: option.split)

lemma rb_empty_iff [simp]: "rb_empty b \<longleftrightarrow> rb_list b = []"
  by (simp add: rb_empty_def rb_list_def word_unat_eq_iff)

lemma rb_full_iff: "rb_full b \<longleftrightarrow> length (rb_list b) = rb_max_size b"
  by (simp add: rb_full_def rb_size_def)

lemma rb_size_unat: "unat (rb_size b) = length (rb_list b)"
  by (simp add: rb_size_def)

lemma rb_rpos_slot: "rb_inv p2 b \<Longrightarrow> unat (rb_rpos b) = rb_slot b 0"
  by (simp add: rb_slot_def rb_inv_def)

lemma rb_make_inv:
  "0 < sz \<Longrightarrow> sz \<le> 2 ^ 31 \<Longrightarrow> (p2 \<longrightarrow> (\<exists>k. sz = 2 ^ k)) \<Longrightarrow> rb_inv p2 (rb_make sz)"
  by (simp add: rb_inv_def rb_make_def rb_max_size_def)

lemma rb_make_list [simp]: "rb_list (rb_make sz) = []"
  by (simp add: rb_list_def rb_make_def)

lemma rb_make_size [simp]: "rb_max_size (rb_make sz) = sz"
  by (simp add: rb_make_def rb_max_size_def)

section \<open>What the operations do\<close>

lemma rb_push_ok:
  assumes inv: "rb_inv p2 b" and room: "length (rb_list b) < rb_max_size b"
  shows "\<exists>b'. rb_push p2 x b = Inr b' \<and> rb_inv p2 b' \<and> rb_list b' = rb_list b @ [x] \<and>
    rb_max_size b' = rb_max_size b"
proof -
  let ?n = "unat (rb_count b)"
  let ?b = "b\<lparr>rb_data := (rb_data b)[rb_slot b ?n := Some x], rb_count := rb_count b + 1\<rparr>"
  have w: "unat (rb_get_wpos p2 b) = rb_slot b ?n"
    using rb_advance_slot [OF inv, of "rb_count b"] inv by (simp add: rb_get_wpos_def rb_inv_def)
  have c: "unat (rb_count b + 1) = Suc ?n"
    using room inv by (simp add: unat_word_ariths rb_inv_def)
  have sz: "rb_max_size ?b = rb_max_size b" and sl: "rb_slot ?b i = rb_slot b i" for i
    by (simp_all add: rb_max_size_def rb_slot_def)
  have d: "(rb_data b)[rb_slot b ?n := Some x] ! rb_slot b i = (if i = ?n then Some x else rb_data b ! rb_slot b i)"
    if "i \<le> ?n" for i
    using that room inv rb_slot_less [OF inv, of i] rb_slot_inj [OF inv, of i ?n]
    by (auto simp: nth_list_update rb_max_size_def)
  have "rb_inv p2 ?b"
    using inv room by (auto simp: rb_inv_def sz sl c d less_Suc_eq)
  moreover have "rb_list ?b = rb_list b @ [x]"
    by (rule nth_equalityI) (auto simp: c nth_rb_list nth_append sl d less_Suc_eq)
  ultimately show ?thesis
    using room by (auto simp: rb_push_def rb_full_iff w sz)
qed

lemma rb_pop_ok:
  assumes inv: "rb_inv p2 b" and ne: "rb_list b \<noteq> []"
  shows "\<exists>b'. rb_pop p2 b = Inr b' \<and> rb_inv p2 b' \<and> rb_list b' = tl (rb_list b) \<and>
    rb_max_size b' = rb_max_size b"
proof -
  let ?n = "unat (rb_count b)"
  let ?b = "b\<lparr>rb_data := (rb_data b)[unat (rb_rpos b) := None],
                 rb_rpos := rb_advance_pos p2 b (rb_rpos b) 1, rb_count := rb_count b - 1\<rparr>"
  have n: "0 < ?n"
    using ne by (metis length_greater_0_conv length_rb_list)
  then have c: "unat (rb_count b - 1) = ?n - 1"
    by (simp add: unat_sub word_le_nat_alt)
  have sz: "rb_max_size ?b = rb_max_size b"
    by (simp add: rb_max_size_def)
  have r: "unat (rb_advance_pos p2 b (rb_rpos b) 1) = rb_slot b 1"
    using rb_advance_slot [OF inv, of 1] inv by (simp add: rb_inv_def)
  have sl: "rb_slot ?b i = rb_slot b (Suc i)" for i
    unfolding rb_slot_def sz by (simp add: r rb_slot_def mod_add_left_eq)
  have d: "(rb_data b)[unat (rb_rpos b) := None] ! rb_slot b (Suc i) = rb_data b ! rb_slot b (Suc i)" if "i < ?n - 1" for i
  proof -
    have "Suc i < rb_max_size b" "0 < rb_max_size b"
      using that inv by (auto simp: rb_inv_def)
    then show ?thesis
      using rb_slot_inj [OF inv, of 0 "Suc i"] by (simp add: rb_rpos_slot [OF inv])
  qed
  have "rb_inv p2 ?b"
    using inv n rb_slot_less [OF inv, of 1]
    unfolding rb_inv_def sz sl by (simp add: c r d) linarith
  moreover have "rb_list ?b = tl (rb_list b)"
    by (rule nth_equalityI) (auto simp: c nth_rb_list nth_tl sl d)
  ultimately show ?thesis
    using ne by (auto simp: rb_pop_def sz)
qed

lemma rb_top_ok: "rb_inv p2 b \<Longrightarrow> rb_list b \<noteq> [] \<Longrightarrow> rb_top b = Inr (hd (rb_list b))"
  using rb_get_slot [of p2 b 0 "rb_rpos b"] rb_rpos_slot [of p2 b]
  by (metis hd_conv_nth length_greater_0_conv length_rb_list rb_empty_iff rb_top_def)

lemma rb_index_ok:
  assumes inv: "rb_inv p2 b" and i: "unat i < length (rb_list b)"
  shows "rb_index p2 b i = Inr (rb_list b ! unat i)"
proof -
  have "unat (rb_advance_pos p2 b (rb_rpos b) i) = rb_slot b (unat i)"
    using i inv by (intro rb_advance_slot) (auto simp: rb_inv_def)
  with i show ?thesis
    using rb_get_slot [OF inv, of "unat i"] by (simp add: rb_index_def rb_size_def word_less_nat_alt)
qed

lemma rb_set_slot:
  fixes b :: "'a ring_buffer" and x :: 'a
  assumes inv: "rb_inv p2 b" and i: "i < unat (rb_count b)"
  defines "b' \<equiv> b\<lparr>rb_data := (rb_data b)[rb_slot b i := Some x]\<rparr>"
  shows "rb_inv p2 b'" and "rb_list b' = (rb_list b)[i := x]"
    and "rb_max_size b' = rb_max_size b" and "rb_count b' = rb_count b"
proof -
  show sz: "rb_max_size b' = rb_max_size b" and c: "rb_count b' = rb_count b"
    by (simp_all add: rb_max_size_def b'_def)
  have sl: "rb_slot b' j = rb_slot b j" for j
    by (simp add: rb_slot_def sz) (simp add: b'_def)
  have d: "rb_data b' ! rb_slot b j = (if j = i then Some x else rb_data b ! rb_slot b j)"
    if "j < unat (rb_count b)" for j
  proof -
    have "j < rb_max_size b" "i < rb_max_size b"
      using that i inv by (auto simp: rb_inv_def)
    then show ?thesis
      using rb_slot_inj [OF inv, of i j] rb_slot_less [OF inv, of i]
      by (simp add: b'_def rb_max_size_def)
  qed
  show "rb_inv p2 b'"
    using inv by (auto simp: rb_inv_def sz sl c d) (simp_all add: b'_def)
  show "rb_list b' = (rb_list b)[i := x]"
    by (rule nth_equalityI) (auto simp: c nth_rb_list sl d nth_list_update)
qed

text \<open>\<open>apply_first\<close> on the list of the elements.\<close>

fun list_apply_first :: "('s \<Rightarrow> 'a \<Rightarrow> bool \<times> 's \<times> 'a) \<Rightarrow> 's \<Rightarrow> 'a list \<Rightarrow> bool \<times> 's \<times> 'a list" where
  "list_apply_first f s [] = (False, s, [])"
| "list_apply_first f s (x # xs) =
    (case f s x of (found, s', x') \<Rightarrow>
       if found then (True, s', x' # xs)
       else (case list_apply_first f s' xs of (r, s'', ys) \<Rightarrow> (r, s'', x' # ys)))"

lemma rb_apply_first_from_ok:
  assumes "rb_inv p2 b" "is = [i..<unat (rb_count b)]" "i \<le> unat (rb_count b)"
    "list_apply_first f s (drop i (rb_list b)) = (r, s', ys)"
  shows "\<exists>b'. rb_apply_first_from is p2 f s b = Inr (r, s', b') \<and> rb_inv p2 b' \<and>
    rb_list b' = take i (rb_list b) @ ys \<and> rb_max_size b' = rb_max_size b"
  using assms
proof (induction "is" arbitrary: b i s ys)
  case Nil
  then have "i = unat (rb_count b)"
    by (metis le_neq_implies_less list.distinct(1) upt_conv_Cons)
  with Nil show ?case by auto
next
  case (Cons j is')
  let ?c = "unat (rb_count b)"
  have "[i..<?c] = j # is'" by (rule Cons.prems(2) [symmetric])
  then have ij: "i < ?c" "j = i" "is' = [Suc i..<?c]"
    by (auto simp: upt_eq_Cons_conv)
  have i32: "unat (of_nat i :: u32) = i"
    using ij(1) unsigned_less [of "rb_count b", where 'a = nat] by (simp add: unat_of_nat)
  obtain found t x' where f: "f s (rb_list b ! i) = (found, t, x')"
    by (metis prod_cases3)
  let ?b = "b\<lparr>rb_data := (rb_data b)[rb_slot b i := Some x']\<rparr>"
  note set = rb_set_slot [OF Cons.prems(1) ij(1), of x']
  have "unat (rb_advance_pos p2 b (rb_rpos b) (of_nat i)) = rb_slot b i"
    using rb_advance_slot [OF Cons.prems(1), of "of_nat i"] Cons.prems(1) ij(1)
    by (simp add: i32 rb_inv_def)
  then have step: "rb_apply_first_from (j # is') p2 f s b =
      (if found then Inr (True, t, ?b) else rb_apply_first_from is' p2 f t ?b)"
    using ij rb_index_ok [OF Cons.prems(1), of "of_nat i"] by (simp add: i32 f)
  have dr: "drop i (rb_list b) = rb_list b ! i # drop (Suc i) (rb_list b)"
    using ij(1) by (simp add: Cons_nth_drop_Suc)
  have up: "(rb_list b)[i := x'] = take i (rb_list b) @ x' # drop (Suc i) (rb_list b)"
    using ij(1) by (simp add: upd_conv_take_nth_drop)
  show ?case
  proof (cases found)
    case True
    with Cons.prems(4) set step show ?thesis by (auto simp: dr f up)
  next
    case False
    obtain r1 s1 ys1 where l: "list_apply_first f t (drop (Suc i) (rb_list b)) = (r1, s1, ys1)"
      by (metis prod_cases3)
    with False Cons.prems(4) have eq: "r1 = r" "s1 = s'" "ys = x' # ys1"
      by (auto simp: dr f)
    have "drop (Suc i) (rb_list ?b) = drop (Suc i) (rb_list b)"
      by (simp add: set(2))
    with Cons.IH [OF set(1), of "Suc i" t ys1] l eq ij
    obtain b' where "rb_apply_first_from is' p2 f t ?b = Inr (r, s', b')" "rb_inv p2 b'"
      "rb_list b' = take (Suc i) (rb_list ?b) @ ys1" "rb_max_size b' = rb_max_size ?b"
      by (auto simp: set(4))
    moreover have "take (Suc i) (rb_list ?b) = take i (rb_list b) @ [x']"
      using ij(1) by (simp add: set(2) up take_Suc_conv_app_nth nth_append)
    ultimately show ?thesis
      using False step eq set(3) by auto
  qed
qed

lemma rb_apply_first_ok:
  assumes "rb_inv p2 b" "list_apply_first f s (rb_list b) = (r, s', ys)"
  shows "\<exists>b'. rb_apply_first p2 f s b = Inr (r, s', b') \<and> rb_inv p2 b' \<and> rb_list b' = ys \<and>
    rb_max_size b' = rb_max_size b"
  using rb_apply_first_from_ok [OF assms(1) refl, of 0 f s r s' ys] assms(2)
  by (simp add: rb_apply_first_def)

section \<open>The queue the buffer implements\<close>

locale bounded_fifo =
  fixes inv :: "'q \<Rightarrow> bool" and contents :: "'q \<Rightarrow> 'a list" and cap :: "'q \<Rightarrow> nat"
    and push :: "'a \<Rightarrow> 'q \<Rightarrow> 'q res" and pop :: "'q \<Rightarrow> 'q res" and top :: "'q \<Rightarrow> 'a res"
  assumes push_law: "inv q \<Longrightarrow> length (contents q) < cap q \<Longrightarrow>
      \<exists>q'. push x q = Inr q' \<and> inv q' \<and> contents q' = contents q @ [x] \<and> cap q' = cap q"
    and pop_law: "inv q \<Longrightarrow> contents q \<noteq> [] \<Longrightarrow>
      \<exists>q'. pop q = Inr q' \<and> inv q' \<and> contents q' = tl (contents q) \<and> cap q' = cap q"
    and top_law: "inv q \<Longrightarrow> contents q \<noteq> [] \<Longrightarrow> top q = Inr (hd (contents q))"
begin

lemma push_elim:
  assumes "inv q" "length (contents q) < cap q"
  obtains q' where "push x q = Inr q'" "inv q'" "contents q' = contents q @ [x]" "cap q' = cap q"
  using push_law [OF assms] by blast

lemma pop_elim:
  assumes "inv q" "contents q = x # xs"
  obtains q' where "top q = Inr x" "pop q = Inr q'" "inv q'" "contents q' = xs" "cap q' = cap q"
  using pop_law [of q] top_law [of q] assms by auto

text \<open>An element pushed into an empty queue is the one that is popped next.\<close>

lemma push_pop:
  assumes "inv q" "contents q = []" "0 < cap q"
  shows "\<exists>q' q''. push x q = Inr q' \<and> top q' = Inr x \<and> pop q' = Inr q'' \<and> inv q'' \<and>
    contents q'' = []"
proof -
  obtain q' where q': "push x q = Inr q'" "inv q'" "contents q' = [x]"
    using push_elim [of q x] assms by auto
  moreover obtain q'' where "top q' = Inr x" "pop q' = Inr q''" "inv q''" "contents q'' = []"
    using pop_elim [OF q'(2,3)] by metis
  ultimately show ?thesis by blast
qed

end

interpretation rb: bounded_fifo "rb_inv p2" rb_list rb_max_size "rb_push p2" "rb_pop p2" rb_top
  for p2
  by unfold_locales (auto intro: rb_push_ok rb_pop_ok rb_top_ok)

lemma rb_try_push_range_ok:
  assumes "rb_inv p2 b"
  shows "\<exists>b'. rb_try_push_range p2 xs b =
      Inr (min (length xs) (rb_max_size b - length (rb_list b)), b') \<and> rb_inv p2 b' \<and>
    rb_list b' = rb_list b @ take (rb_max_size b - length (rb_list b)) xs \<and>
    rb_max_size b' = rb_max_size b"
  using assms
proof (induction xs arbitrary: b)
  case Nil
  then show ?case by simp
next
  case (Cons x xs)
  show ?case
  proof (cases "length (rb_list b) < rb_max_size b")
    case True
    then obtain b' where b': "rb_push p2 x b = Inr b'" "rb_inv p2 b'"
      "rb_list b' = rb_list b @ [x]" "rb_max_size b' = rb_max_size b"
      using rb.push_elim [OF Cons.prems, of x] by blast
    from Cons.IH [OF b'(2)] True b' show ?thesis
      by (auto simp: rb_try_push_def rb_full_iff take_Cons' min_def simp del: length_rb_list)
  next
    case False
    with Cons.prems have "length (rb_list b) = rb_max_size b" by (simp add: rb_inv_def)
    with Cons.prems show ?thesis by (simp add: rb_try_push_def rb_full_iff)
  qed
qed

lemma rb_pop_into_ok:
  assumes "rb_inv p2 b"
  shows "\<exists>b'. rb_pop_into p2 n b = Inr (take n (rb_list b), b') \<and> rb_inv p2 b' \<and>
    rb_list b' = drop n (rb_list b) \<and> rb_max_size b' = rb_max_size b"
  using assms
proof (induction n arbitrary: b)
  case 0
  then show ?case by simp
next
  case (Suc n)
  show ?case
  proof (cases "rb_list b")
    case Nil
    with Suc.prems show ?thesis by simp
  next
    case (Cons x xs)
    then obtain b' where b': "rb_top b = Inr x" "rb_pop p2 b = Inr b'" "rb_inv p2 b'"
      "rb_list b' = xs" "rb_max_size b' = rb_max_size b"
      using rb.pop_elim [OF Suc.prems] by blast
    with Suc.IH [OF b'(3)] Cons show ?thesis
      by (auto simp: rb_top_def)
  qed
qed

lemma rb_clear_ok:
  assumes "rb_inv p2 b"
  shows "rb_inv p2 (rb_clear p2 b) \<and> rb_list (rb_clear p2 b) = [] \<and>
    rb_max_size (rb_clear p2 b) = rb_max_size b"
proof -
  have "length (fold (\<lambda>i d. d[g i := None]) is d) = length d"
    for g and "is" :: "nat list" and d :: "'a option list"
    by (induction "is" arbitrary: d) simp_all
  then have sz: "rb_max_size (rb_clear p2 b) = rb_max_size b"
    by (simp add: rb_clear_def rb_max_size_def)
  have r: "rb_rpos (rb_clear p2 b) = 0" "rb_count (rb_clear p2 b) = 0"
    by (simp_all add: rb_clear_def)
  show ?thesis
    using assms unfolding rb_inv_def sz r rb_list_def by simp
qed

end
