(* ===== verification/Blocking_Queue.thy ===== *)
theory Blocking_Queue
  imports Ring_Buffer
begin

text \<open>
  \<open>base_blocking_queue\<close> of \<open>include/srsran/adt/blocking_queue.h\<close>: a ring buffer, an active flag, and
  the callbacks called on every pushed and popped element.  Every operation holds the mutex, so it
  is one step.  The callbacks update state of the owner of the queue, the field \<open>bq_ctx\<close>.  A call
  that would wait on a condition variable is the fault \<open>Blocked\<close>; the wait itself and the count of
  the waiting threads are not modelled.  The queues use ring buffers of the power-of-two kind.
\<close>

section \<open>State and operations\<close>

record ('a, 'c) blocking_queue =
  bq_active :: bool
  bq_ring :: "'a ring_buffer"
  bq_ctx :: 'c

datatype bq_result = Bq_failed | Bq_success | Bq_timeout

definition bq_make :: "nat \<Rightarrow> 'c \<Rightarrow> ('a, 'c) blocking_queue" where
  "bq_make sz ctx = \<lparr>bq_active = True, bq_ring = rb_make sz, bq_ctx = ctx\<rparr>"

definition bq_stop :: "('a, 'c) blocking_queue \<Rightarrow> ('a, 'c) blocking_queue" where
  "bq_stop q =
    (if bq_active q then q\<lparr>bq_active := False, bq_ring := rb_clear True (bq_ring q)\<rparr> else q)"

definition bq_wait_push_possible :: "bool \<Rightarrow> ('a, 'c) blocking_queue \<Rightarrow> bool res" where
  "bq_wait_push_possible blocking q =
    (if blocking then (if bq_active q \<and> rb_full (bq_ring q) then Inl Blocked else Inr (bq_active q))
     else Inr (bq_active q \<and> \<not> rb_full (bq_ring q)))"

definition bq_wait_pop_possible :: "bool \<Rightarrow> ('a, 'c) blocking_queue \<Rightarrow> bool res" where
  "bq_wait_pop_possible blocking q =
    (if blocking \<and> bq_active q \<and> rb_empty (bq_ring q) then Inl Blocked
     else Inr (bq_active q \<and> \<not> rb_empty (bq_ring q)))"

definition bq_push ::
  "('a \<Rightarrow> 'c \<Rightarrow> 'c) \<Rightarrow> bool \<Rightarrow> 'a \<Rightarrow> ('a, 'c) blocking_queue \<Rightarrow>
    (bool \<times> ('a, 'c) blocking_queue) res" where
  "bq_push push_func blocking t q =
    (case bq_wait_push_possible blocking q of
       Inl e \<Rightarrow> Inl e
     | Inr possible \<Rightarrow>
         (if possible
          then (let q = q\<lparr>bq_ctx := push_func t (bq_ctx q)\<rparr> in
                case rb_push True t (bq_ring q) of
                  Inl e \<Rightarrow> Inl e
                | Inr r \<Rightarrow> Inr (True, q\<lparr>bq_ring := r\<rparr>))
          else Inr (False, q)))"

text \<open>
  Pushing a range without blocking.  Each round pushes as many elements as there is room for; the
  callback runs on them afterwards.
\<close>

function bq_try_push_range ::
  "('a \<Rightarrow> 'c \<Rightarrow> 'c) \<Rightarrow> 'a list \<Rightarrow> ('a, 'c) blocking_queue \<Rightarrow>
    (nat \<times> ('a, 'c) blocking_queue) res" where
  "bq_try_push_range push_func ts q =
    (if ts = [] then Inr (0, q)
     else if bq_wait_push_possible False q \<noteq> Inr True then Inr (0, q)
     else (case rb_try_push_range True ts (bq_ring q) of
             Inl e \<Rightarrow> Inl e
           | Inr (n, r) \<Rightarrow>
               if n = 0 then Inr (0, q\<lparr>bq_ring := r\<rparr>)
               else (case bq_try_push_range push_func (drop n ts)
                            (q\<lparr>bq_ring := r, bq_ctx := fold push_func (take n ts) (bq_ctx q)\<rparr>) of
                       Inl e \<Rightarrow> Inl e
                     | Inr (m, q') \<Rightarrow> Inr (n + m, q'))))"
  by pat_completeness auto
termination
  by (relation "measure (\<lambda>(_, ts, _). length ts)") auto

definition bq_pop ::
  "('a \<Rightarrow> 'c \<Rightarrow> 'c) \<Rightarrow> bool \<Rightarrow> ('a, 'c) blocking_queue \<Rightarrow>
    (bq_result \<times> 'a option \<times> ('a, 'c) blocking_queue) res" where
  "bq_pop pop_func blocking q =
    (case bq_wait_pop_possible blocking q of
       Inl e \<Rightarrow> Inl e
     | Inr possible \<Rightarrow>
         (if possible
          then (case rb_top (bq_ring q) of
                  Inl e \<Rightarrow> Inl e
                | Inr obj \<Rightarrow>
                    (case rb_pop True (bq_ring q) of
                       Inl e \<Rightarrow> Inl e
                     | Inr r \<Rightarrow>
                         Inr (Bq_success, Some obj,
                              q\<lparr>bq_ring := r, bq_ctx := pop_func obj (bq_ctx q)\<rparr>)))
          else Inr (if bq_active q then Bq_timeout else Bq_failed, None, q)))"

text \<open>
  \<open>pop_and_discard_until\<close>: the callback runs on every element taken off, also on the one returned.
\<close>

lemma rb_pop_count: "rb_pop p2 b = Inr b' \<Longrightarrow> unat (rb_count b') < unat (rb_count b)"
  by (auto simp: rb_pop_def rb_empty_def unat_minus_one unat_gt_0 split: if_splits
      simp del: rb_empty_iff)

function bq_pop_and_discard_until ::
  "('a \<Rightarrow> 'c \<Rightarrow> 'c) \<Rightarrow> ('a \<Rightarrow> bool) \<Rightarrow> ('a, 'c) blocking_queue \<Rightarrow>
    ('a option \<times> ('a, 'c) blocking_queue) res" where
  "bq_pop_and_discard_until pop_func cond q =
    (if bq_wait_pop_possible False q \<noteq> Inr True then Inr (None, q)
     else (case rb_top (bq_ring q) of
             Inl e \<Rightarrow> Inl e
           | Inr t \<Rightarrow>
               (case rb_pop True (bq_ring q) of
                  Inl e \<Rightarrow> Inl e
                | Inr r \<Rightarrow>
                    (let q' = q\<lparr>bq_ring := r, bq_ctx := pop_func t (bq_ctx q)\<rparr> in
                     if cond t then Inr (Some t, q')
                     else bq_pop_and_discard_until pop_func cond q'))))"
  by pat_completeness auto
termination
  by (relation "measure (\<lambda>(_, _, q). unat (rb_count (bq_ring q)))") (auto dest: rb_pop_count)

definition bq_size :: "('a, 'c) blocking_queue \<Rightarrow> u32" where
  "bq_size q = rb_size (bq_ring q)"

definition bq_empty :: "('a, 'c) blocking_queue \<Rightarrow> bool" where
  "bq_empty q = rb_empty (bq_ring q)"

definition bq_full :: "('a, 'c) blocking_queue \<Rightarrow> bool" where
  "bq_full q = rb_full (bq_ring q)"

definition bq_is_stopped :: "('a, 'c) blocking_queue \<Rightarrow> bool" where
  "bq_is_stopped q = (\<not> bq_active q)"

text \<open>\<open>try_call_on_front\<close> with a callable that reads the element; the result is what it read.\<close>

definition bq_try_call_on_front :: "('a \<Rightarrow> 'r) \<Rightarrow> ('a, 'c) blocking_queue \<Rightarrow> 'r option res" where
  "bq_try_call_on_front f q =
    (if \<not> rb_empty (bq_ring q)
     then (case rb_top (bq_ring q) of Inl e \<Rightarrow> Inl e | Inr t \<Rightarrow> Inr (Some (f t)))
     else Inr None)"

text \<open>The callable of \<open>apply_first\<close> may change the element and the context of the callbacks.\<close>

definition bq_apply_first ::
  "('c \<Rightarrow> 'a \<Rightarrow> bool \<times> 'c \<times> 'a) \<Rightarrow> ('a, 'c) blocking_queue \<Rightarrow>
    (bool \<times> ('a, 'c) blocking_queue) res" where
  "bq_apply_first func q =
    (case rb_apply_first True func (bq_ctx q) (bq_ring q) of
       Inl e \<Rightarrow> Inl e
     | Inr (r, ctx, ring) \<Rightarrow> Inr (r, q\<lparr>bq_ring := ring, bq_ctx := ctx\<rparr>))"

declare bq_try_push_range.simps [simp del] bq_pop_and_discard_until.simps [simp del]

section \<open>What the operations do\<close>

definition bq_inv :: "('a, 'c) blocking_queue \<Rightarrow> bool" where
  "bq_inv q \<longleftrightarrow> rb_inv True (bq_ring q)"

definition bq_list :: "('a, 'c) blocking_queue \<Rightarrow> 'a list" where
  "bq_list q = rb_list (bq_ring q)"

definition bq_cap :: "('a, 'c) blocking_queue \<Rightarrow> nat" where
  "bq_cap q = rb_max_size (bq_ring q)"

lemmas bq_abs_defs = bq_inv_def bq_list_def bq_cap_def

lemma bq_size_list: "unat (bq_size q) = length (bq_list q)"
  by (simp add: bq_size_def bq_list_def rb_size_def)

lemma bq_list_le_cap: "bq_inv q \<Longrightarrow> length (bq_list q) \<le> bq_cap q"
  by (simp add: bq_abs_defs rb_inv_def)

lemma bq_push_ok:
  assumes "bq_inv q" "bq_active q" "length (bq_list q) < bq_cap q"
  shows "\<exists>q'. bq_push pf blocking t q = Inr (True, q') \<and> bq_inv q' \<and> bq_active q' \<and>
    bq_list q' = bq_list q @ [t] \<and> bq_cap q' = bq_cap q \<and> bq_ctx q' = pf t (bq_ctx q)"
proof -
  obtain r where "rb_push True t (bq_ring q) = Inr r" "rb_inv True r"
    "rb_list r = rb_list (bq_ring q) @ [t]" "rb_max_size r = rb_max_size (bq_ring q)"
    using assms rb.push_elim [of True "bq_ring q" t] by (auto simp: bq_abs_defs)
  with assms show ?thesis
    by (auto simp: bq_push_def bq_wait_push_possible_def rb_full_iff bq_abs_defs Let_def)
qed

lemma bq_push_full:
  assumes "length (bq_list q) = bq_cap q"
  shows "bq_push pf False t q = Inr (False, q)"
    and "bq_active q \<Longrightarrow> bq_push pf True t q = Inl Blocked"
  using assms by (simp_all add: bq_push_def bq_wait_push_possible_def rb_full_iff bq_abs_defs)

lemma bq_try_push_range_ok:
  assumes "bq_inv q" "bq_active q"
  shows "\<exists>q'. bq_try_push_range pf ts q =
      Inr (min (length ts) (bq_cap q - length (bq_list q)), q') \<and> bq_inv q' \<and>
    bq_list q' = bq_list q @ take (bq_cap q - length (bq_list q)) ts \<and>
    bq_ctx q' = fold pf (take (bq_cap q - length (bq_list q)) ts) (bq_ctx q)"
proof -
  let ?free = "bq_cap q - length (bq_list q)"
  obtain r where r: "rb_try_push_range True ts (bq_ring q) = Inr (min (length ts) ?free, r)"
    "rb_inv True r" "rb_list r = bq_list q @ take ?free ts" "rb_max_size r = bq_cap q"
    using rb_try_push_range_ok [of True "bq_ring q" ts] assms(1) by (auto simp: bq_abs_defs)
  let ?q = "q\<lparr>bq_ring := r, bq_ctx := fold pf (take (min (length ts) ?free) ts) (bq_ctx q)\<rparr>"
  have le: "length (bq_list q) \<le> bq_cap q"
    by (rule bq_list_le_cap [OF assms(1)])
  have stop: "bq_try_push_range pf (drop (min (length ts) ?free) ts) ?q = Inr (0, ?q)"
    using r(3,4) le
    by (subst bq_try_push_range.simps)
      (auto simp: bq_wait_push_possible_def rb_full_iff min_def simp del: length_rb_list)
  have take: "take (min (length ts) ?free) ts = take ?free ts"
    by (simp add: min_def)
  show ?thesis
  proof (cases "ts = [] \<or> ?free = 0")
    case True
    with assms le show ?thesis
      by (subst bq_try_push_range.simps)
        (auto simp: bq_wait_push_possible_def rb_full_iff bq_abs_defs)
  next
    case False
    with le have "bq_wait_push_possible False q = Inr True"
      using assms(2) by (auto simp: bq_wait_push_possible_def rb_full_iff bq_abs_defs)
    moreover define n where "n = min (length ts) ?free"
    moreover from False have "n \<noteq> 0" by (simp add: n_def)
    ultimately have "bq_try_push_range pf ts q = Inr (n, ?q)"
      using False r(1) stop by (subst bq_try_push_range.simps) (simp flip: n_def)
    with r take show ?thesis
      by (simp add: bq_abs_defs n_def)
  qed
qed

lemma bq_pop_ok:
  assumes "bq_inv q" "bq_active q" "bq_list q = x # xs"
  shows "\<exists>q'. bq_pop pf blocking q = Inr (Bq_success, Some x, q') \<and> bq_inv q' \<and>
    bq_list q' = xs \<and> bq_cap q' = bq_cap q \<and> bq_ctx q' = pf x (bq_ctx q)"
proof -
  obtain r where "rb_top (bq_ring q) = Inr x" "rb_pop True (bq_ring q) = Inr r" "rb_inv True r"
    "rb_list r = xs" "rb_max_size r = rb_max_size (bq_ring q)"
    using assms rb.pop_elim [of True "bq_ring q" x xs] by (auto simp: bq_abs_defs)
  with assms show ?thesis
    by (auto simp: bq_pop_def bq_wait_pop_possible_def bq_abs_defs)
qed

lemma bq_discard_until_ok:
  assumes "bq_inv q" "bq_active q"
  shows "\<exists>q'. bq_pop_and_discard_until pf cond q =
      Inr (case dropWhile (\<lambda>x. \<not> cond x) (bq_list q) of [] \<Rightarrow> None | y # _ \<Rightarrow> Some y, q') \<and>
    bq_inv q' \<and> bq_active q' \<and> bq_cap q' = bq_cap q \<and>
    bq_list q' = tl (dropWhile (\<lambda>x. \<not> cond x) (bq_list q)) \<and>
    bq_ctx q' = fold pf (takeWhile (\<lambda>x. \<not> cond x) (bq_list q) @
      take 1 (dropWhile (\<lambda>x. \<not> cond x) (bq_list q))) (bq_ctx q)"
  using assms
proof (induction "bq_list q" arbitrary: q)
  case Nil
  then show ?case
    by (subst bq_pop_and_discard_until.simps) (auto simp: bq_wait_pop_possible_def bq_abs_defs)
next
  case (Cons x xs)
  then obtain r where r: "rb_top (bq_ring q) = Inr x" "rb_pop True (bq_ring q) = Inr r"
    "rb_inv True r" "rb_list r = xs" "rb_max_size r = rb_max_size (bq_ring q)"
    using rb.pop_elim [of True "bq_ring q" x xs] by (auto simp: bq_abs_defs)
  let ?q = "q\<lparr>bq_ring := r, bq_ctx := pf x (bq_ctx q)\<rparr>"
  have pos: "bq_wait_pop_possible False q = Inr True"
    using Cons.prems(2) Cons.hyps(2) by (auto simp: bq_wait_pop_possible_def bq_list_def)
  then have step: "bq_pop_and_discard_until pf cond q =
      (if cond x then Inr (Some x, ?q) else bq_pop_and_discard_until pf cond ?q)"
    using r(1,2) by (subst bq_pop_and_discard_until.simps) simp
  have q: "xs = bq_list ?q" "bq_inv ?q" "bq_active ?q" "bq_cap ?q = bq_cap q"
    using r Cons.prems by (simp_all add: bq_abs_defs)
  show ?case
  proof (cases "cond x")
    case True
    with step q show ?thesis
      by (auto simp flip: Cons.hyps(2))
  next
    case False
    from Cons.hyps(1) [OF q(1-3)] False step q(1,4) show ?thesis
      by (auto simp flip: Cons.hyps(2))
  qed
qed

lemma bq_apply_first_ok:
  assumes "bq_inv q" "list_apply_first f (bq_ctx q) (bq_list q) = (r, c, ys)"
  shows "\<exists>q'. bq_apply_first f q = Inr (r, q') \<and> bq_inv q' \<and> bq_active q' = bq_active q \<and>
    bq_list q' = ys \<and> bq_cap q' = bq_cap q \<and> bq_ctx q' = c"
  using rb_apply_first_ok [of True "bq_ring q" f "bq_ctx q" r c ys] assms
  by (auto simp: bq_apply_first_def bq_abs_defs)

lemma bq_stop_ok: "bq_inv q \<Longrightarrow> bq_active q \<Longrightarrow> bq_inv (bq_stop q) \<and> bq_list (bq_stop q) = []"
  using rb_clear_ok [of True "bq_ring q"] by (simp add: bq_stop_def bq_abs_defs)

lemma bq_front_ok:
  "bq_inv q \<Longrightarrow> bq_try_call_on_front f q =
    Inr (case bq_list q of [] \<Rightarrow> None | x # _ \<Rightarrow> Some (f x))"
  using rb.top_law [of True "bq_ring q"]
  by (auto simp: bq_try_call_on_front_def bq_abs_defs split: list.split)

end
