(* ===== verification/Rlc_Sdu_Queue.thy ===== *)
theory Rlc_Sdu_Queue
  imports Blocking_Queue
begin

text \<open>
  The queue of RLC SDUs between the upper layer and a transmitting entity
  (\<open>lib/rlc/rlc_sdu_queue.h\<close>, \<open>rlc_sdu\<close> of \<open>include/srsran/rlc/rlc_tx.h\<close>): a blocking queue whose
  callbacks keep the number of unread bytes and SDUs.  A discarded SDU stays in the queue with an
  empty buffer and is skipped by the reader.

  The locale \<open>sdu_fifo\<close> is what the entities rely on, in terms of the SDUs not discarded; it is
  interpreted on the queue at the end.
\<close>

section \<open>State and operations\<close>

record rlc_sdu =
  sdu_buf :: bytes
  sdu_pdcp_sn :: "u32 option"

record sdu_counters =
  unread_bytes :: u32
  n_sdus :: u32

record rlc_sdu_queue =
  q_capacity :: u16
  q_queue :: "(rlc_sdu, sdu_counters) blocking_queue"

text \<open>The size of the ring is the capacity rounded up; it is an argument here.\<close>

definition rlc_sdu_queue_make :: "u16 \<Rightarrow> nat \<Rightarrow> rlc_sdu_queue" where
  "rlc_sdu_queue_make capacity ring_size =
    \<lparr>q_capacity = capacity, q_queue = bq_make ring_size \<lparr>unread_bytes = 0, n_sdus = 0\<rparr>\<rparr>"

definition push_callback :: "rlc_sdu \<Rightarrow> sdu_counters \<Rightarrow> sdu_counters" where
  "push_callback sdu c =
    c\<lparr>unread_bytes := unread_bytes c + of_nat (length (sdu_buf sdu)), n_sdus := n_sdus c + 1\<rparr>"

definition pop_callback :: "rlc_sdu \<Rightarrow> sdu_counters \<Rightarrow> sdu_counters" where
  "pop_callback sdu c =
    (if sdu_buf sdu = [] then c
     else c\<lparr>unread_bytes := unread_bytes c - min (of_nat (length (sdu_buf sdu))) (unread_bytes c),
            n_sdus := word_of_int (max 0 (sint (n_sdus c) - 1))\<rparr>)"

definition sdu_queue_write :: "rlc_sdu \<Rightarrow> rlc_sdu_queue \<Rightarrow> (bool \<times> rlc_sdu_queue) res" where
  "sdu_queue_write sdu q =
    (if unat (bq_size (q_queue q)) \<ge> unat (q_capacity q) then Inr (False, q)
     else (case bq_push push_callback True sdu (q_queue q) of
             Inl e \<Rightarrow> Inl e
           | Inr (_, bq) \<Rightarrow> Inr (True, q\<lparr>q_queue := bq\<rparr>)))"

definition sdu_queue_read :: "rlc_sdu_queue \<Rightarrow> (rlc_sdu option \<times> rlc_sdu_queue) res" where
  "sdu_queue_read q =
    (case bq_pop_and_discard_until pop_callback (\<lambda>elem. sdu_buf elem \<noteq> []) (q_queue q) of
       Inl e \<Rightarrow> Inl e
     | Inr (popped_elem, bq) \<Rightarrow> Inr (popped_elem, q\<lparr>q_queue := bq\<rparr>))"

definition size_sdus :: "rlc_sdu_queue \<Rightarrow> u32" where
  "size_sdus q = n_sdus (bq_ctx (q_queue q))"

definition size_bytes :: "rlc_sdu_queue \<Rightarrow> u32" where
  "size_bytes q = unread_bytes (bq_ctx (q_queue q))"

definition front_size_bytes :: "rlc_sdu_queue \<Rightarrow> u32 option res" where
  "front_size_bytes q = bq_try_call_on_front (\<lambda>sdu. of_nat (length (sdu_buf sdu))) (q_queue q)"

definition sdu_queue_is_empty :: "rlc_sdu_queue \<Rightarrow> bool" where
  "sdu_queue_is_empty q = bq_empty (q_queue q)"

definition sdu_queue_is_full :: "rlc_sdu_queue \<Rightarrow> bool" where
  "sdu_queue_is_full q \<longleftrightarrow> unat (bq_size (q_queue q)) \<ge> unat (q_capacity q)"

definition discard_one :: "u32 \<Rightarrow> sdu_counters \<Rightarrow> rlc_sdu \<Rightarrow> bool \<times> sdu_counters \<times> rlc_sdu" where
  "discard_one pdcp_sn c sdu =
    (if sdu_buf sdu \<noteq> [] \<and> sdu_pdcp_sn sdu = Some pdcp_sn
     then (True, pop_callback sdu c, sdu\<lparr>sdu_buf := []\<rparr>)
     else (False, c, sdu))"

definition sdu_queue_discard :: "u32 \<Rightarrow> rlc_sdu_queue \<Rightarrow> (bool \<times> rlc_sdu_queue) res" where
  "sdu_queue_discard pdcp_sn q =
    (case bq_apply_first (discard_one pdcp_sn) (q_queue q) of
       Inl e \<Rightarrow> Inl e
     | Inr (discarded, bq) \<Rightarrow> Inr (discarded, q\<lparr>q_queue := bq\<rparr>))"

section \<open>Abstract contents and invariant\<close>

abbreviation sdu_len :: "rlc_sdu \<Rightarrow> nat" where
  "sdu_len sdu \<equiv> length (sdu_buf sdu)"

definition sdus_bytes :: "rlc_sdu list \<Rightarrow> nat" where
  "sdus_bytes xs = sum_list (map sdu_len xs)"

definition live_sdus :: "rlc_sdu list \<Rightarrow> rlc_sdu list" where
  "live_sdus xs = filter (\<lambda>s. sdu_buf s \<noteq> []) xs"

definition queue_sdus :: "rlc_sdu_queue \<Rightarrow> rlc_sdu list" where
  "queue_sdus q = live_sdus (bq_list (q_queue q))"

text \<open>The counters agree with a list of SDUs, none longer than 65535 bytes.\<close>

definition counters_ok :: "rlc_sdu list \<Rightarrow> sdu_counters \<Rightarrow> bool" where
  "counters_ok xs c \<longleftrightarrow>
    length xs \<le> 65535 \<and> (\<forall>s \<in> set xs. sdu_len s \<le> 65535) \<and>
    unread_bytes c = of_nat (sdus_bytes xs) \<and> n_sdus c = of_nat (length (live_sdus xs))"

definition sdu_queue_inv :: "rlc_sdu_queue \<Rightarrow> bool" where
  "sdu_queue_inv q \<longleftrightarrow>
    bq_inv (q_queue q) \<and> bq_active (q_queue q) \<and> unat (q_capacity q) \<le> bq_cap (q_queue q) \<and>
    length (bq_list (q_queue q)) \<le> unat (q_capacity q) \<and>
    counters_ok (bq_list (q_queue q)) (bq_ctx (q_queue q))"

lemma sdus_bytes_simps [simp]:
  "sdus_bytes [] = 0" "sdus_bytes (x # xs) = sdu_len x + sdus_bytes xs"
  "sdus_bytes (xs @ ys) = sdus_bytes xs + sdus_bytes ys"
  by (simp_all add: sdus_bytes_def)

lemma live_sdus_simps [simp]:
  "live_sdus [] = []" "live_sdus (xs @ ys) = live_sdus xs @ live_sdus ys"
  "live_sdus (x # xs) = (if sdu_buf x = [] then live_sdus xs else x # live_sdus xs)"
  by (simp_all add: live_sdus_def)

lemma live_sdus_bytes: "sdus_bytes (live_sdus xs) = sdus_bytes xs"
  by (induction xs) auto

lemma live_sdus_length: "length (live_sdus xs) \<le> length xs"
  by (simp add: live_sdus_def)

lemma sdus_bytes_bound:
  "\<forall>s \<in> set xs. sdu_len s \<le> 65535 \<Longrightarrow> sdus_bytes xs \<le> 65535 * length xs"
  by (induction xs) auto

lemma counters_bound: "counters_ok xs c \<Longrightarrow> sdus_bytes xs < 2 ^ 32"
  using sdus_bytes_bound [of xs] by (auto simp: counters_ok_def)

lemma counters_push:
  "counters_ok xs c \<Longrightarrow> length xs < 65535 \<Longrightarrow> sdu_buf s \<noteq> [] \<Longrightarrow> sdu_len s \<le> 65535 \<Longrightarrow>
    counters_ok (xs @ [s]) (push_callback s c)"
  by (auto simp: counters_ok_def push_callback_def)

lemma min_of_nat_u32: "a \<le> b \<Longrightarrow> b < 2 ^ 32 \<Longrightarrow> min (of_nat a) (of_nat b) = (of_nat a :: u32)"
  by (simp add: min_def word_le_nat_alt unat_of_nat)

lemma sint_of_nat_u32: "n < 2 ^ 31 \<Longrightarrow> sint (of_nat n :: u32) = int n"
  by (simp add: signed_of_nat signed_take_bit_int_eq_self)

text \<open>Taking one SDU out of the middle of the list, or clearing it there, is the same for the counters.\<close>

lemma counters_pop:
  assumes "counters_ok (xs @ s # ys) c"
  shows "counters_ok (xs @ ys) (pop_callback s c)"
proof (cases "sdu_buf s = []")
  case True
  with assms show ?thesis by (auto simp: counters_ok_def pop_callback_def)
next
  case False
  let ?n = "length (live_sdus (xs @ ys))"
  have n: "?n < 65535"
    using assms live_sdus_length [of "xs @ ys"] by (auto simp: counters_ok_def)
  have b: "sdus_bytes (xs @ s # ys) < 2 ^ 32"
    by (rule counters_bound [OF assms])
  then have "min (of_nat (sdu_len s)) (of_nat (sdus_bytes (xs @ s # ys))) = (of_nat (sdu_len s) :: u32)"
    by (intro min_of_nat_u32) auto
  moreover have "sint (of_nat (Suc ?n) :: u32) = int (Suc ?n)"
    using n by (intro sint_of_nat_u32) simp
  ultimately show ?thesis
    using assms False by (auto simp: counters_ok_def pop_callback_def)
qed

lemma counters_fold_pop:
  "counters_ok (xs @ ys) c \<Longrightarrow> counters_ok ys (fold pop_callback xs c)"
proof (induction xs arbitrary: c)
  case (Cons x xs)
  then show ?case using counters_pop [of "[]" x "xs @ ys" c] by simp
qed simp

section \<open>Laws\<close>

fun remove_pdcp_sn :: "u32 \<Rightarrow> rlc_sdu list \<Rightarrow> rlc_sdu list" where
  "remove_pdcp_sn sn [] = []"
| "remove_pdcp_sn sn (x # xs) =
    (if sdu_pdcp_sn x = Some sn then xs else x # remove_pdcp_sn sn xs)"

lemma sdu_write_law:
  assumes inv: "sdu_queue_inv q" and sdu: "sdu_buf sdu \<noteq> []" "sdu_len sdu \<le> 65535"
  shows "\<exists>ok q'. sdu_queue_write sdu q = Inr (ok, q') \<and> sdu_queue_inv q' \<and>
    ok = (\<not> sdu_queue_is_full q) \<and>
    queue_sdus q' = (if ok then queue_sdus q @ [sdu] else queue_sdus q)"
proof (cases "sdu_queue_is_full q")
  case True
  with inv show ?thesis by (auto simp: sdu_queue_write_def sdu_queue_is_full_def)
next
  case False
  then have room: "length (bq_list (q_queue q)) < unat (q_capacity q)"
    by (simp add: sdu_queue_is_full_def bq_size_list)
  have c16: "unat (q_capacity q) \<le> 65535"
    using unsigned_less [of "q_capacity q", where 'a = nat] by simp
  obtain bq where bq: "bq_push push_callback True sdu (q_queue q) = Inr (True, bq)" "bq_inv bq"
    "bq_active bq" "bq_list bq = bq_list (q_queue q) @ [sdu]" "bq_cap bq = bq_cap (q_queue q)"
    "bq_ctx bq = push_callback sdu (bq_ctx (q_queue q))"
    using bq_push_ok [of "q_queue q" push_callback True sdu] inv room
    by (auto simp: sdu_queue_inv_def)
  have "counters_ok (bq_list bq) (bq_ctx bq)"
    using inv room c16 sdu unfolding bq by (intro counters_push) (auto simp: sdu_queue_inv_def)
  with False bq inv room sdu show ?thesis
    by (auto simp: sdu_queue_write_def sdu_queue_is_full_def sdu_queue_inv_def queue_sdus_def)
qed

lemma takeWhile_hd_tl:
  "(takeWhile P l @ take 1 (dropWhile P l)) @ tl (dropWhile P l) = l"
  by (induction l) auto

lemma live_dropWhile:
  "live_sdus (dropWhile (\<lambda>x. \<not> sdu_buf x \<noteq> []) xs) = live_sdus xs"
  by (induction xs) auto

lemma dropWhile_live_head:
  "dropWhile (\<lambda>x. \<not> sdu_buf x \<noteq> []) xs = y # ys \<Longrightarrow> sdu_buf y \<noteq> []"
  by (induction xs) (auto split: if_splits)

lemma sdu_read_law:
  assumes inv: "sdu_queue_inv q"
  shows "\<exists>q'. sdu_queue_read q = Inr (case queue_sdus q of [] \<Rightarrow> None | s # _ \<Rightarrow> Some s, q') \<and>
    sdu_queue_inv q' \<and> queue_sdus q' = tl (queue_sdus q)"
proof -
  let ?c = "\<lambda>s. sdu_buf s \<noteq> []" and ?l = "bq_list (q_queue q)"
  let ?d = "dropWhile (\<lambda>x. \<not> ?c x) ?l"
  obtain bq where bq: "bq_pop_and_discard_until pop_callback ?c (q_queue q) =
      Inr (case ?d of [] \<Rightarrow> None | y # _ \<Rightarrow> Some y, bq)"
    "bq_inv bq" "bq_active bq" "bq_cap bq = bq_cap (q_queue q)" "bq_list bq = tl ?d"
    "bq_ctx bq = fold pop_callback (takeWhile (\<lambda>x. \<not> ?c x) ?l @ take 1 ?d) (bq_ctx (q_queue q))"
    using bq_discard_until_ok [of "q_queue q" pop_callback ?c] inv
    unfolding sdu_queue_inv_def by blast
  have split: "(takeWhile (\<lambda>x. \<not> ?c x) ?l @ take 1 ?d) @ tl ?d = ?l"
    by (rule takeWhile_hd_tl)
  then have "counters_ok (tl ?d) (bq_ctx bq)"
    unfolding bq(6) using inv by (intro counters_fold_pop) (simp add: sdu_queue_inv_def)
  moreover have "length (tl ?d) \<le> length ?l"
    using arg_cong [OF split, of length] by simp
  ultimately have "sdu_queue_inv (q\<lparr>q_queue := bq\<rparr>)"
    using inv bq by (auto simp: sdu_queue_inv_def)
  moreover have live: "queue_sdus q = live_sdus ?d"
    unfolding queue_sdus_def by (rule live_dropWhile [symmetric])
  have "queue_sdus (q\<lparr>q_queue := bq\<rparr>) = tl (queue_sdus q) \<and>
    (case queue_sdus q of [] \<Rightarrow> None | s # _ \<Rightarrow> Some s) = (case ?d of [] \<Rightarrow> None | y # _ \<Rightarrow> Some y)"
  proof (cases ?d)
    case Nil
    have "bq_list bq = []" "queue_sdus q = []"
      using bq(5) live unfolding Nil by simp_all
    then show ?thesis unfolding Nil by (simp add: queue_sdus_def)
  next
    case (Cons y ys)
    have "bq_list bq = ys" "queue_sdus q = y # live_sdus ys"
      using bq(5) live dropWhile_live_head [OF Cons] unfolding Cons by simp_all
    then show ?thesis unfolding Cons by (simp add: queue_sdus_def)
  qed
  ultimately show ?thesis
    using bq(1) by (simp add: sdu_queue_read_def)
qed

lemma list_apply_discard:
  assumes "counters_ok (zs @ xs) c" "list_apply_first (discard_one sn) c xs = (r, c', ys)"
  shows "counters_ok (zs @ ys) c' \<and> length ys = length xs \<and>
    live_sdus ys = remove_pdcp_sn sn (live_sdus xs) \<and>
    (r \<longleftrightarrow> (\<exists>s \<in> set (live_sdus xs). sdu_pdcp_sn s = Some sn))"
  using assms
proof (induction xs arbitrary: zs r c' ys)
  case Nil
  then show ?case by simp
next
  case (Cons x xs)
  show ?case
  proof (cases "sdu_buf x \<noteq> [] \<and> sdu_pdcp_sn x = Some sn")
    case True
    with Cons.prems(2) have e: "r" "c' = pop_callback x c" "ys = x\<lparr>sdu_buf := []\<rparr> # xs"
      by (auto simp: discard_one_def)
    have "counters_ok (zs @ xs) (pop_callback x c)"
      by (rule counters_pop [OF Cons.prems(1)])
    moreover have "length (zs @ x # xs) \<le> 65535"
      using Cons.prems(1) by (simp add: counters_ok_def)
    ultimately have "counters_ok (zs @ x\<lparr>sdu_buf := []\<rparr> # xs) (pop_callback x c)"
      by (auto simp: counters_ok_def)
    with True e show ?thesis by auto
  next
    case False
    then have f: "discard_one sn c x = (False, c, x)" by (auto simp: discard_one_def)
    obtain r1 c1 ys1 where l: "list_apply_first (discard_one sn) c xs = (r1, c1, ys1)"
      by (metis prod_cases3)
    with Cons.prems(2) f have e: "r = r1" "c' = c1" "ys = x # ys1" by auto
    have "counters_ok ((zs @ [x]) @ xs) c" using Cons.prems(1) by simp
    from Cons.IH [OF this l] False e show ?thesis by auto
  qed
qed

lemma sdu_discard_law:
  assumes inv: "sdu_queue_inv q"
  shows "\<exists>q'. sdu_queue_discard sn q =
      Inr (\<exists>s \<in> set (queue_sdus q). sdu_pdcp_sn s = Some sn, q') \<and> sdu_queue_inv q' \<and>
    queue_sdus q' = remove_pdcp_sn sn (queue_sdus q)"
proof -
  let ?l = "bq_list (q_queue q)" and ?c = "bq_ctx (q_queue q)"
  obtain r c ys where l: "list_apply_first (discard_one sn) ?c ?l = (r, c, ys)"
    by (metis prod_cases3)
  have "counters_ok ([] @ ?l) ?c" using inv by (simp add: sdu_queue_inv_def)
  note ok = list_apply_discard [OF this l]
  from bq_apply_first_ok [OF _ l] inv obtain bq where
    "bq_apply_first (discard_one sn) (q_queue q) = Inr (r, bq)" "bq_inv bq"
    "bq_active bq = bq_active (q_queue q)" "bq_list bq = ys" "bq_cap bq = bq_cap (q_queue q)"
    "bq_ctx bq = c"
    by (auto simp: sdu_queue_inv_def)
  with ok inv show ?thesis
    by (auto simp: sdu_queue_discard_def sdu_queue_inv_def queue_sdus_def)
qed

lemma sdu_front_law:
  assumes inv: "sdu_queue_inv q"
  shows "\<exists>r. front_size_bytes q = Inr r \<and> (r = None \<longrightarrow> queue_sdus q = []) \<and>
    (\<forall>n. r = Some n \<longrightarrow> n \<noteq> 0 \<longrightarrow>
      (\<exists>s. queue_sdus q \<noteq> [] \<and> s = hd (queue_sdus q) \<and> unat n = sdu_len s))"
proof -
  have f: "front_size_bytes q = Inr (case bq_list (q_queue q) of [] \<Rightarrow> None
      | x # _ \<Rightarrow> Some (of_nat (sdu_len x)))"
    unfolding front_size_bytes_def using inv by (intro bq_front_ok) (simp add: sdu_queue_inv_def)
  show ?thesis
  proof (cases "bq_list (q_queue q)")
    case Nil
    with f show ?thesis by (simp add: queue_sdus_def)
  next
    case (Cons x xs)
    with inv have "sdu_len x \<le> 65535" by (simp add: sdu_queue_inv_def counters_ok_def)
    then have "unat (of_nat (sdu_len x) :: u32) = sdu_len x" by (simp add: unat_of_nat)
    with f Cons show ?thesis by (auto simp: queue_sdus_def)
  qed
qed

lemma sdu_sizes_law:
  "sdu_queue_inv q \<Longrightarrow>
    unat (size_bytes q) = sdus_bytes (queue_sdus q) \<and>
    unat (size_sdus q) = length (queue_sdus q) \<and> length (queue_sdus q) \<le> 65535"
proof -
  assume inv: "sdu_queue_inv q"
  let ?l = "bq_list (q_queue q)"
  have c: "counters_ok ?l (bq_ctx (q_queue q))"
    using inv by (simp add: sdu_queue_inv_def)
  then have "length (live_sdus ?l) \<le> 65535"
    using live_sdus_length [of ?l] by (simp add: counters_ok_def)
  with c counters_bound [OF c] show ?thesis
    by (simp add: size_bytes_def size_sdus_def queue_sdus_def counters_ok_def live_sdus_bytes unat_of_nat)
qed

lemma sdu_members_law:
  "sdu_queue_inv q \<Longrightarrow> s \<in> set (queue_sdus q) \<Longrightarrow> sdu_buf s \<noteq> [] \<and> sdu_len s \<le> 65535"
  by (auto simp: queue_sdus_def live_sdus_def sdu_queue_inv_def counters_ok_def)

section \<open>What the transmitting entities use\<close>

locale sdu_fifo =
  fixes inv :: "'q \<Rightarrow> bool" and sdus :: "'q \<Rightarrow> rlc_sdu list" and full :: "'q \<Rightarrow> bool"
    and wr :: "rlc_sdu \<Rightarrow> 'q \<Rightarrow> (bool \<times> 'q) res"
    and rd :: "'q \<Rightarrow> (rlc_sdu option \<times> 'q) res"
    and discard :: "u32 \<Rightarrow> 'q \<Rightarrow> (bool \<times> 'q) res"
    and bytes_q sdus_q :: "'q \<Rightarrow> u32"
  assumes write_law: "inv q \<Longrightarrow> sdu_buf sdu \<noteq> [] \<Longrightarrow> sdu_len sdu \<le> 65535 \<Longrightarrow>
      \<exists>ok q'. wr sdu q = Inr (ok, q') \<and> inv q' \<and> ok = (\<not> full q) \<and>
        sdus q' = (if ok then sdus q @ [sdu] else sdus q)"
    and read_law: "inv q \<Longrightarrow>
      \<exists>q'. rd q = Inr (case sdus q of [] \<Rightarrow> None | s # _ \<Rightarrow> Some s, q') \<and> inv q' \<and>
        sdus q' = tl (sdus q)"
    and discard_law: "inv q \<Longrightarrow>
      \<exists>q'. discard sn q = Inr (\<exists>s \<in> set (sdus q). sdu_pdcp_sn s = Some sn, q') \<and> inv q' \<and>
        sdus q' = remove_pdcp_sn sn (sdus q)"
    and sizes_law: "inv q \<Longrightarrow> unat (bytes_q q) = sdus_bytes (sdus q) \<and>
        unat (sdus_q q) = length (sdus q) \<and> length (sdus q) \<le> 65535"
    and members_law: "inv q \<Longrightarrow> s \<in> set (sdus q) \<Longrightarrow> sdu_buf s \<noteq> [] \<and> sdu_len s \<le> 65535"
begin

lemma read_empty:
  assumes "inv q" "sdus q = []"
  obtains q' where "rd q = Inr (None, q')" "inv q'" "sdus q' = []"
  using read_law [OF assms(1)] assms(2) by auto

lemma read_next:
  assumes "inv q" "sdus q = s # ss"
  obtains q' where "rd q = Inr (Some s, q')" "inv q'" "sdus q' = ss"
    "sdu_buf s \<noteq> []" "sdu_len s \<le> 65535"
  using read_law [OF assms(1)] members_law [OF assms(1), of s] assms(2) by auto

text \<open>The counters vanish together, exactly when no SDU is left.\<close>

lemma sizes_zero:
  assumes "inv q"
  shows "bytes_q q = 0 \<longleftrightarrow> sdus q = []" and "sdus_q q = 0 \<longleftrightarrow> sdus q = []"
proof -
  have "sdus_bytes ss = 0 \<Longrightarrow> ss = []" if "\<forall>s \<in> set ss. sdu_buf s \<noteq> []" for ss
    using that by (cases ss) auto
  moreover have "\<forall>s \<in> set (sdus q). sdu_buf s \<noteq> []"
    using members_law [OF assms] by blast
  ultimately have "sdus_bytes (sdus q) = 0 \<longleftrightarrow> sdus q = []" by auto
  then show "bytes_q q = 0 \<longleftrightarrow> sdus q = []" "sdus_q q = 0 \<longleftrightarrow> sdus q = []"
    using sizes_law [OF assms] by (auto simp: unat_eq_zero [symmetric] simp del: unat_eq_zero)
qed

end

interpretation sq: sdu_fifo sdu_queue_inv queue_sdus sdu_queue_is_full sdu_queue_write
  sdu_queue_read sdu_queue_discard size_bytes size_sdus
  by unfold_locales
    (rule sdu_write_law sdu_read_law sdu_discard_law sdu_sizes_law sdu_members_law; assumption)+

lemma sdu_queue_make_inv:
  assumes "unat capacity \<le> 2 ^ k" "k \<le> 31"
  shows "sdu_queue_inv (rlc_sdu_queue_make capacity (2 ^ k)) \<and>
    queue_sdus (rlc_sdu_queue_make capacity (2 ^ k)) = []"
proof -
  have "(2 :: nat) ^ k \<le> 2 ^ 31" using assms(2) by (intro power_increasing) auto
  then show ?thesis
    using assms(1) rb_make_inv [of "2 ^ k" True]
    by (auto simp: sdu_queue_inv_def rlc_sdu_queue_make_def bq_make_def bq_abs_defs
        counters_ok_def queue_sdus_def)
qed

text \<open>A queue from which nothing was discarded: its front is the next SDU read.\<close>

definition nothing_discarded :: "rlc_sdu_queue \<Rightarrow> bool" where
  "nothing_discarded q \<longleftrightarrow> (\<forall>s \<in> set (bq_list (q_queue q)). sdu_buf s \<noteq> [])"

lemma write_keeps_undiscarded:
  assumes inv: "sdu_queue_inv q" "nothing_discarded q" and sdu: "sdu_buf sdu \<noteq> []"
    and w: "sdu_queue_write sdu q = Inr (ok, q')"
  shows "nothing_discarded q'"
proof (cases "sdu_queue_is_full q")
  case True
  with w inv(2) show ?thesis by (auto simp: sdu_queue_write_def sdu_queue_is_full_def)
next
  case False
  then have "length (bq_list (q_queue q)) < bq_cap (q_queue q)"
    using inv(1) by (auto simp: sdu_queue_is_full_def bq_size_list sdu_queue_inv_def)
  with bq_push_ok [of "q_queue q" push_callback True sdu] inv(1) obtain bq where
    "bq_push push_callback True sdu (q_queue q) = Inr (True, bq)"
    "bq_list bq = bq_list (q_queue q) @ [sdu]"
    by (auto simp: sdu_queue_inv_def)
  with False w inv(2) sdu show ?thesis
    by (auto simp: sdu_queue_write_def sdu_queue_is_full_def nothing_discarded_def)
qed

lemma read_keeps_undiscarded:
  assumes inv: "sdu_queue_inv q" "nothing_discarded q" and r: "sdu_queue_read q = Inr (x, q')"
  shows "nothing_discarded q'"
proof -
  let ?c = "\<lambda>s. sdu_buf s \<noteq> []"
  obtain bq y where bq: "bq_pop_and_discard_until pop_callback ?c (q_queue q) = Inr (y, bq)"
    and "bq_list bq = tl (dropWhile (\<lambda>x. \<not> ?c x) (bq_list (q_queue q)))"
    using bq_discard_until_ok [of "q_queue q" pop_callback ?c] inv(1)
    unfolding sdu_queue_inv_def by blast
  moreover have "s \<in> set (tl (dropWhile P l)) \<Longrightarrow> s \<in> set l" for s P and l :: "rlc_sdu list"
    by (metis list.set_sel(2) set_dropWhileD tl_Nil)
  ultimately have "s \<in> set (bq_list bq) \<Longrightarrow> s \<in> set (bq_list (q_queue q))" for s
    by simp
  with r bq inv(2) show ?thesis
    by (auto simp: sdu_queue_read_def nothing_discarded_def)
qed

lemma undiscarded_front:
  assumes "sdu_queue_inv q" "nothing_discarded q"
  shows "front_size_bytes q =
      Inr (case queue_sdus q of [] \<Rightarrow> None | s # _ \<Rightarrow> Some (of_nat (sdu_len s)))"
    and "sdu_queue_is_empty q \<longleftrightarrow> queue_sdus q = []"
proof -
  have "queue_sdus q = bq_list (q_queue q)"
    using assms(2) by (simp add: queue_sdus_def live_sdus_def nothing_discarded_def filter_id_conv)
  then show "front_size_bytes q =
      Inr (case queue_sdus q of [] \<Rightarrow> None | s # _ \<Rightarrow> Some (of_nat (sdu_len s)))"
    and "sdu_queue_is_empty q \<longleftrightarrow> queue_sdus q = []"
    using bq_front_ok [of "q_queue q" "\<lambda>sdu. of_nat (sdu_len sdu)"] assms(1)
    by (simp_all add: front_size_bytes_def sdu_queue_is_empty_def bq_empty_def bq_list_def
        sdu_queue_inv_def)
qed

section \<open>Sequences of calls\<close>

datatype sdu_queue_op = Sq_write rlc_sdu | Sq_read | Sq_discard u32

datatype sdu_queue_out = Out_written bool | Out_read "rlc_sdu option" | Out_discarded bool

fun sdu_queue_step :: "sdu_queue_op \<Rightarrow> rlc_sdu_queue \<Rightarrow> (sdu_queue_out \<times> rlc_sdu_queue) res" where
  "sdu_queue_step (Sq_write sdu) q = map_sum id (map_prod Out_written id) (sdu_queue_write sdu q)"
| "sdu_queue_step Sq_read q = map_sum id (map_prod Out_read id) (sdu_queue_read q)"
| "sdu_queue_step (Sq_discard sn) q = map_sum id (map_prod Out_discarded id) (sdu_queue_discard sn q)"

fun sdu_queue_run ::
  "sdu_queue_op list \<Rightarrow> rlc_sdu_queue \<Rightarrow> (sdu_queue_out list \<times> rlc_sdu_queue) res" where
  "sdu_queue_run [] q = Inr ([], q)"
| "sdu_queue_run (c # cs) q =
    (case sdu_queue_step c q of
       Inl e \<Rightarrow> Inl e
     | Inr (out, q') \<Rightarrow>
         (case sdu_queue_run cs q' of Inl e \<Rightarrow> Inl e | Inr (outs, q'') \<Rightarrow> Inr (out # outs, q'')))"

text \<open>The same calls with the same answers on a plain list of SDUs; \<open>None\<close> is a wrong answer.\<close>

fun fifo_step :: "sdu_queue_op \<Rightarrow> sdu_queue_out \<Rightarrow> rlc_sdu list \<Rightarrow> rlc_sdu list option" where
  "fifo_step (Sq_write sdu) (Out_written ok) ss = Some (if ok then ss @ [sdu] else ss)"
| "fifo_step Sq_read (Out_read r) ss =
    (if r = (case ss of [] \<Rightarrow> None | s # _ \<Rightarrow> Some s) then Some (tl ss) else None)"
| "fifo_step (Sq_discard sn) (Out_discarded d) ss =
    (if d = list_ex (\<lambda>s. sdu_pdcp_sn s = Some sn) ss then Some (remove_pdcp_sn sn ss) else None)"
| "fifo_step _ _ _ = None"

fun fifo_run :: "sdu_queue_op list \<Rightarrow> sdu_queue_out list \<Rightarrow> rlc_sdu list \<Rightarrow> rlc_sdu list option" where
  "fifo_run [] [] ss = Some ss"
| "fifo_run (c # cs) (out # outs) ss =
    (case fifo_step c out ss of None \<Rightarrow> None | Some ss' \<Rightarrow> fifo_run cs outs ss')"
| "fifo_run _ _ _ = None"

fun sdu_op_ok :: "sdu_queue_op \<Rightarrow> bool" where
  "sdu_op_ok (Sq_write sdu) = (sdu_buf sdu \<noteq> [] \<and> sdu_len sdu \<le> 65535)"
| "sdu_op_ok _ = True"

lemma sdu_queue_step_refines:
  assumes "sdu_queue_inv q" "sdu_op_ok c"
  shows "\<exists>out q'. sdu_queue_step c q = Inr (out, q') \<and> sdu_queue_inv q' \<and>
    fifo_step c out (queue_sdus q) = Some (queue_sdus q')"
proof (cases c)
  case (Sq_write sdu)
  with assms sq.write_law [of q sdu] show ?thesis by force
next
  case Sq_read
  with assms sq.read_law [of q] show ?thesis by force
next
  case (Sq_discard sn)
  with assms sq.discard_law [of q sn] show ?thesis by (force simp: list_ex_iff)
qed

lemma sdu_queue_run_refines:
  "sdu_queue_inv q \<Longrightarrow> list_all sdu_op_ok cs \<Longrightarrow>
    \<exists>outs q'. sdu_queue_run cs q = Inr (outs, q') \<and> sdu_queue_inv q' \<and>
      fifo_run cs outs (queue_sdus q) = Some (queue_sdus q')"
proof (induction cs arbitrary: q)
  case (Cons c cs)
  then obtain out q1 where "sdu_queue_step c q = Inr (out, q1)" "sdu_queue_inv q1"
    "fifo_step c out (queue_sdus q) = Some (queue_sdus q1)"
    using sdu_queue_step_refines [of q c] by auto
  with Cons.IH [of q1] Cons.prems show ?case by force
qed simp

section \<open>Properties\<close>




end
