(* ===== verification/Rlc_Interfaces.thy ===== *)
theory Rlc_Interfaces
  imports Rlc_Sdu_Queue
begin

text \<open>
  The notifications an RLC entity sends to its neighbours (\<open>include/srsran/rlc/rlc_tx.h\<close> and
  \<open>rlc_rx.h\<close>) as values, and the deferral of buffer state updates to the cell executor, which all
  transmitting entities share: a flag that an update is pending and the updates waiting in the
  executor's queue.
\<close>

datatype rlc_tx_event =
    On_transmitted_sdu u32
  | On_delivered_sdu u32
  | On_protocol_failure
  | On_max_retx
  | On_buffer_state_update u32

datatype rlc_rx_event = On_new_sdu bytes

text \<open>Buffer states above this size (\<open>include/srsran/ran/pdsch/pdsch_constants.h\<close>) are not reported twice.\<close>

definition MAX_DL_PDU_LENGTH :: u32 where
  "MAX_DL_PDU_LENGTH = 32768"

record buffer_state_task =
  pending_buffer_state :: bool
  deferred_updates :: nat

definition buffer_state_task_init :: buffer_state_task where
  "buffer_state_task_init = \<lparr>pending_buffer_state = False, deferred_updates = 0\<rparr>"

text \<open>
  \<open>handle_changed_buffer_state\<close>: test and set the flag, and defer the update when it was not set.
  The argument says whether the executor accepts the task.
\<close>

definition handle_changed_buffer_state :: "bool \<Rightarrow> buffer_state_task \<Rightarrow> buffer_state_task" where
  "handle_changed_buffer_state defer_ok t =
    (if \<not> pending_buffer_state t
     then t\<lparr>pending_buffer_state := True,
            deferred_updates := deferred_updates t + (if defer_ok then 1 else 0)\<rparr>
     else t)"

text \<open>The first step of the deferred task clears the flag.\<close>

definition begin_update :: "buffer_state_task \<Rightarrow> buffer_state_task" where
  "begin_update t = t\<lparr>pending_buffer_state := False, deferred_updates := deferred_updates t - 1\<rparr>"

definition task_inv :: "buffer_state_task \<Rightarrow> bool" where
  "task_inv t \<longleftrightarrow> deferred_updates t = (if pending_buffer_state t then 1 else 0)"

lemma task_inv_init: "task_inv buffer_state_task_init"
  by (simp add: task_inv_def buffer_state_task_init_def)

lemma task_inv_change: "task_inv t \<Longrightarrow> task_inv (handle_changed_buffer_state True t)"
  by (simp add: task_inv_def handle_changed_buffer_state_def)

lemma task_inv_update: "task_inv t \<Longrightarrow> task_inv (begin_update t)"
  by (auto simp: task_inv_def begin_update_def)

section \<open>Sequences of changes and updates\<close>

datatype task_step = Changed bool | Run_update

text \<open>A run counts the updates that are executed; an update runs only when one is queued.\<close>

fun task_run :: "task_step list \<Rightarrow> buffer_state_task \<Rightarrow> nat \<times> buffer_state_task" where
  "task_run [] t = (0, t)"
| "task_run (Changed ok # ss) t = task_run ss (handle_changed_buffer_state ok t)"
| "task_run (Run_update # ss) t =
    (if deferred_updates t = 0 then task_run ss t
     else (case task_run ss (begin_update t) of (n, t') \<Rightarrow> (Suc n, t')))"

lemma task_run_inv:
  "task_inv t \<Longrightarrow> Changed False \<notin> set ss \<Longrightarrow> task_inv (snd (task_run ss t))"
proof (induction ss t rule: task_run.induct)
  case (2 ok ss t)
  then show ?case by (cases ok) (auto intro: task_inv_change)
next
  case (3 ss t)
  then show ?case by (auto dest: task_inv_update split: prod.splits)
qed simp

lemma task_run_stuck:
  "pending_buffer_state t \<Longrightarrow> deferred_updates t = 0 \<Longrightarrow> fst (task_run ss t) = 0"
  by (induction ss t rule: task_run.induct) (auto simp: handle_changed_buffer_state_def)

section \<open>Properties\<close>




end
