(* ===== verification/Rlc_Tm.thy ===== *)
theory Rlc_Tm
  imports Rlc_Interfaces
begin

text \<open>
  The transparent mode entities (\<open>lib/rlc/rlc_tx_tm_entity.cpp\<close>, \<open>rlc_rx_tm_entity.cpp\<close>).  Metrics
  and logging are not modelled.  The sanity check of \<open>pull_pdu\<close> is modelled as an assertion.  The
  lemmas show that SDUs pass unchanged and in order.
\<close>

section \<open>Transmitter\<close>

record rlc_tx_tm_entity =
  tm_sdu_queue :: rlc_sdu_queue
  tm_task :: buffer_state_task

definition rlc_tx_tm_entity_init :: "u16 \<Rightarrow> nat \<Rightarrow> rlc_tx_tm_entity" where
  "rlc_tx_tm_entity_init capacity ring_size =
    \<lparr>tm_sdu_queue = rlc_sdu_queue_make capacity ring_size, tm_task = buffer_state_task_init\<rparr>"

text \<open>The answer says whether the SDU was queued; the code only logs it.\<close>

definition tm_handle_sdu ::
  "bool \<Rightarrow> rlc_sdu \<Rightarrow> rlc_tx_tm_entity \<Rightarrow> (bool \<times> rlc_tx_tm_entity) res" where
  "tm_handle_sdu defer_ok sdu e =
    (case sdu_queue_write sdu (tm_sdu_queue e) of
       Inl f \<Rightarrow> Inl f
     | Inr (ok, q) \<Rightarrow>
         if ok then Inr (True, e\<lparr>tm_sdu_queue := q,
                                tm_task := handle_changed_buffer_state defer_ok (tm_task e)\<rparr>)
         else Inr (False, e\<lparr>tm_sdu_queue := q\<rparr>))"

definition tm_discard_sdu :: "u32 \<Rightarrow> rlc_tx_tm_entity \<Rightarrow> rlc_tx_tm_entity" where
  "tm_discard_sdu pdcp_sn e = e"

text \<open>An empty list of bytes is the empty chain the code returns when it has nothing to send.\<close>

definition tm_pull_pdu :: "u32 \<Rightarrow> rlc_tx_tm_entity \<Rightarrow> (bytes \<times> rlc_tx_tm_entity) res" where
  "tm_pull_pdu grant_len e =
    (if sdu_queue_is_empty (tm_sdu_queue e) then Inr ([], e)
     else (case front_size_bytes (tm_sdu_queue e) of
             Inl f \<Rightarrow> Inl f
           | Inr None \<Rightarrow> Inr ([], e)
           | Inr (Some front_len) \<Rightarrow>
               if front_len > grant_len then Inr ([], e)
               else (case sdu_queue_read (tm_sdu_queue e) of
                       Inl f \<Rightarrow> Inl f
                     | Inr (None, q) \<Rightarrow> Inr ([], e\<lparr>tm_sdu_queue := q\<rparr>)
                     | Inr (Some sdu, q) \<Rightarrow>
                         if length (sdu_buf sdu) = unat front_len
                         then Inr (sdu_buf sdu, e\<lparr>tm_sdu_queue := q\<rparr>)
                         else Inl Assertion_failed)))"

definition tm_get_buffer_state :: "rlc_tx_tm_entity \<Rightarrow> u32" where
  "tm_get_buffer_state e = size_bytes (tm_sdu_queue e)"

definition tm_update_mac_buffer_state :: "rlc_tx_tm_entity \<Rightarrow> rlc_tx_event list \<times> rlc_tx_tm_entity" where
  "tm_update_mac_buffer_state e =
    (let e = e\<lparr>tm_task := begin_update (tm_task e)\<rparr> in
     ([On_buffer_state_update (tm_get_buffer_state e)], e))"

section \<open>Receiver\<close>

definition tm_handle_pdu :: "bytes \<Rightarrow> rlc_rx_event list" where
  "tm_handle_pdu buf = [On_new_sdu buf]"

section \<open>Invariant\<close>

definition tm_inv :: "rlc_tx_tm_entity \<Rightarrow> bool" where
  "tm_inv e \<longleftrightarrow> sdu_queue_inv (tm_sdu_queue e) \<and> nothing_discarded (tm_sdu_queue e)"

abbreviation tm_sdus :: "rlc_tx_tm_entity \<Rightarrow> rlc_sdu list" where
  "tm_sdus e \<equiv> queue_sdus (tm_sdu_queue e)"

lemma tm_init_inv:
  "unat capacity \<le> 2 ^ k \<Longrightarrow> k \<le> 31 \<Longrightarrow>
    tm_inv (rlc_tx_tm_entity_init capacity (2 ^ k)) \<and>
    tm_sdus (rlc_tx_tm_entity_init capacity (2 ^ k)) = []"
  using sdu_queue_make_inv [of capacity k]
  by (simp add: tm_inv_def rlc_tx_tm_entity_init_def nothing_discarded_def rlc_sdu_queue_make_def
      bq_make_def bq_list_def)

lemma tm_handle_sdu_ok:
  assumes "tm_inv e" "sdu_buf sdu \<noteq> []" "sdu_len sdu \<le> 65535"
  shows "\<exists>ok e'. tm_handle_sdu d sdu e = Inr (ok, e') \<and> tm_inv e' \<and>
    tm_sdus e' = (if ok then tm_sdus e @ [sdu] else tm_sdus e)"
  using sq.write_law [of "tm_sdu_queue e" sdu]
    write_keeps_undiscarded [of "tm_sdu_queue e" sdu] assms
  by (force simp: tm_handle_sdu_def tm_inv_def)

lemma tm_pull_pdu_ok:
  assumes inv: "tm_inv e"
  shows "\<exists>e'. tm_inv e' \<and>
    (case tm_sdus e of
       [] \<Rightarrow> tm_pull_pdu grant e = Inr ([], e') \<and> tm_sdus e' = []
     | s # ss \<Rightarrow>
         if sdu_len s \<le> unat grant
         then tm_pull_pdu grant e = Inr (sdu_buf s, e') \<and> tm_sdus e' = ss
         else tm_pull_pdu grant e = Inr ([], e') \<and> tm_sdus e' = s # ss)"
proof (cases "tm_sdus e")
  case Nil
  with inv undiscarded_front [of "tm_sdu_queue e"] show ?thesis
    by (auto simp: tm_pull_pdu_def tm_inv_def)
next
  case (Cons s ss)
  obtain q where q: "sdu_queue_read (tm_sdu_queue e) = Inr (Some s, q)" "sdu_queue_inv q"
    "queue_sdus q = ss" "sdu_len s \<le> 65535"
    using sq.read_next [of "tm_sdu_queue e" s ss] inv Cons by (auto simp: tm_inv_def)
  have "unat (of_nat (sdu_len s) :: u32) = sdu_len s"
    using q(4) by (simp add: unat_of_nat)
  with Cons inv q undiscarded_front [of "tm_sdu_queue e"]
    read_keeps_undiscarded [of "tm_sdu_queue e" "Some s" q]
  show ?thesis
    by (intro exI [of _ "if sdu_len s \<le> unat grant then e\<lparr>tm_sdu_queue := q\<rparr> else e"])
      (simp add: tm_pull_pdu_def tm_inv_def word_less_nat_alt)
qed

section \<open>Transfer\<close>

text \<open>A run of SDUs from the upper layer and grants from the lower layer; every PDU pulled is handed
  to the receiver at the other end.  The result is the SDUs accepted and what the receiver reported.\<close>

datatype tm_call = Tm_sdu rlc_sdu | Tm_grant u32 | Tm_discard u32

fun tm_run ::
  "tm_call list \<Rightarrow> rlc_tx_tm_entity \<Rightarrow> (bytes list \<times> rlc_rx_event list \<times> rlc_tx_tm_entity) res" where
  "tm_run [] e = Inr ([], [], e)"
| "tm_run (Tm_sdu sdu # cs) e =
    (case tm_handle_sdu True sdu e of
       Inl f \<Rightarrow> Inl f
     | Inr (ok, e') \<Rightarrow>
         (case tm_run cs e' of
            Inl f \<Rightarrow> Inl f
          | Inr (acc, evs, e'') \<Rightarrow> Inr (if ok then sdu_buf sdu # acc else acc, evs, e'')))"
| "tm_run (Tm_grant g # cs) e =
    (case tm_pull_pdu g e of
       Inl f \<Rightarrow> Inl f
     | Inr (pdu, e') \<Rightarrow>
         (case tm_run cs e' of
            Inl f \<Rightarrow> Inl f
          | Inr (acc, evs, e'') \<Rightarrow>
              Inr (acc, (if pdu = [] then [] else tm_handle_pdu pdu) @ evs, e'')))"
| "tm_run (Tm_discard sn # cs) e = tm_run cs (tm_discard_sdu sn e)"

fun tm_call_ok :: "tm_call \<Rightarrow> bool" where
  "tm_call_ok (Tm_sdu sdu) = (sdu_buf sdu \<noteq> [] \<and> sdu_len sdu \<le> 65535)"
| "tm_call_ok _ = True"

lemma tm_run_ok:
  "tm_inv e \<Longrightarrow> list_all tm_call_ok cs \<Longrightarrow>
    \<exists>acc evs e'. tm_run cs e = Inr (acc, evs, e') \<and>
      map On_new_sdu (map sdu_buf (tm_sdus e) @ acc) = evs @ map On_new_sdu (map sdu_buf (tm_sdus e'))"
proof (induction cs e rule: tm_run.induct)
  case (2 sdu cs e)
  obtain ok e' where e': "tm_handle_sdu True sdu e = Inr (ok, e')" "tm_inv e'"
    "tm_sdus e' = (if ok then tm_sdus e @ [sdu] else tm_sdus e)"
    using tm_handle_sdu_ok [of e sdu True] "2.prems" by auto
  from "2.IH" [OF e'(1) refl e'(2)] "2.prems"(2) e' show ?case by (auto split: if_splits)
next
  case (3 g cs e)
  obtain e' where e': "tm_inv e'"
    "case tm_sdus e of
       [] \<Rightarrow> tm_pull_pdu g e = Inr ([], e') \<and> tm_sdus e' = []
     | s # ss \<Rightarrow>
         if sdu_len s \<le> unat g
         then tm_pull_pdu g e = Inr (sdu_buf s, e') \<and> tm_sdus e' = ss
         else tm_pull_pdu g e = Inr ([], e') \<and> tm_sdus e' = s # ss"
    using tm_pull_pdu_ok [OF "3.prems"(1)] by blast
  then obtain pdu where p: "tm_pull_pdu g e = Inr (pdu, e')"
    by (auto split: list.splits if_splits)
  from "3.IH" [OF p refl e'(1)] "3.prems" e'(2) p
    sq.members_law [of "tm_sdu_queue e" "hd (tm_sdus e)"]
  show ?case by (force simp: tm_inv_def tm_handle_pdu_def split: list.splits if_splits)
next
  case (4 sn cs e)
  then show ?case by (simp add: tm_discard_sdu_def)
qed simp

section \<open>Properties\<close>



end
