(* ===== verification/Rlc_Config.thy ===== *)
theory Rlc_Config
  imports Prelude
begin

text \<open>
  Configuration types and field encodings of the RLC layer
  (\<open>include/srsran/rlc/rlc_config.h\<close>): the modes, the SN field lengths of UM and AM, the
  segmentation info and data/control fields with their numbers, the modulus and window size that
  a field length gives, and the configuration structs.  The locale \<open>sn_space\<close> is interpreted on
  the moduli of both SN types.
\<close>

section \<open>Enumerations\<close>

datatype rlc_mode = Tm | Um_bidir | Um_unidir_ul | Um_unidir_dl | Am

definition rlc_mode_from_string :: "string \<Rightarrow> rlc_mode option" where
  "rlc_mode_from_string str =
    (if str = ''am'' then Some Am
     else if str = ''um-bidir'' then Some Um_bidir
     else if str = ''um-unidir-ul'' then Some Um_unidir_ul
     else if str = ''um-unidir-dl'' then Some Um_unidir_dl
     else if str = ''tm'' then Some Tm
     else None)"

datatype rlc_um_sn_size = Um_size6bits | Um_size12bits

fun um_to_number :: "rlc_um_sn_size \<Rightarrow> u16" where
  "um_to_number Um_size6bits = 6"
| "um_to_number Um_size12bits = 12"

definition um_from_number :: "u16 \<Rightarrow> rlc_um_sn_size option" where
  "um_from_number num =
    (if num = 6 then Some Um_size6bits
     else if num = 12 then Some Um_size12bits
     else None)"

datatype rlc_am_sn_size = Am_size12bits | Am_size18bits

fun am_to_number :: "rlc_am_sn_size \<Rightarrow> u16" where
  "am_to_number Am_size12bits = 12"
| "am_to_number Am_size18bits = 18"

definition am_from_number :: "u16 \<Rightarrow> rlc_am_sn_size option" where
  "am_from_number num =
    (if num = 12 then Some Am_size12bits
     else if num = 18 then Some Am_size18bits
     else None)"

definition cardinality :: "u16 \<Rightarrow> u32 res" where
  "cardinality sn_size =
    (if sn_size < 32 then Inr (push_bit (unat sn_size) 1) else Inl Assertion_failed)"

definition window_size :: "u16 \<Rightarrow> u32 res" where
  "window_size sn_size = cardinality (sn_size - 1)"

datatype rlc_dc_field = Dc_control | Dc_data

fun dc_to_number :: "rlc_dc_field \<Rightarrow> u8" where
  "dc_to_number Dc_control = 0"
| "dc_to_number Dc_data = 1"

text \<open>The C++ cast of a one-bit value to the enumeration.\<close>

definition dc_of_number :: "u8 \<Rightarrow> rlc_dc_field" where
  "dc_of_number n = (if n = 0 then Dc_control else Dc_data)"

datatype rlc_si_field = Full_sdu | First_segment | Last_segment | Middle_segment

fun si_to_number :: "rlc_si_field \<Rightarrow> u8" where
  "si_to_number Full_sdu = 0"
| "si_to_number First_segment = 1"
| "si_to_number Last_segment = 2"
| "si_to_number Middle_segment = 3"

text \<open>The C++ cast of a two-bit value to the enumeration.\<close>

definition si_of_number :: "u8 \<Rightarrow> rlc_si_field" where
  "si_of_number n =
    (if n = 0 then Full_sdu else if n = 1 then First_segment
     else if n = 2 then Last_segment else Middle_segment)"

section \<open>Configuration structs\<close>

record rlc_rx_am_config =
  rxam_sn_field_length :: rlc_am_sn_size
  rxam_t_reassembly :: int
  rxam_t_status_prohibit :: int

record rlc_tx_am_config =
  txam_sn_field_length :: rlc_am_sn_size
  txam_t_poll_retx :: int
  txam_max_retx_thresh :: u32
  txam_poll_pdu :: int
  txam_poll_byte :: int

record rlc_rx_um_config =
  rxum_sn_field_length :: rlc_um_sn_size
  rxum_t_reassembly :: int

record rlc_tx_um_config =
  txum_sn_field_length :: rlc_um_sn_size

section \<open>Facts\<close>

lemma si_of_to_number [simp]: "si_of_number (si_to_number si) = si"
  by (cases si) (simp_all add: si_of_number_def)

lemma dc_of_to_number [simp]: "dc_of_number (dc_to_number dc) = dc"
  by (cases dc) (simp_all add: dc_of_number_def)

lemma si_to_number_less: "si_to_number si < 4"
  by (cases si) simp_all

lemma dc_to_number_less: "dc_to_number dc < 2"
  by (cases dc) simp_all

lemma um_from_to_number: "um_from_number (um_to_number s) = Some s"
  by (cases s) (simp_all add: um_from_number_def)

lemma am_from_to_number: "am_from_number (am_to_number s) = Some s"
  by (cases s) (simp_all add: am_from_number_def)

lemma cardinality_nums [simp]:
  "cardinality 6 = Inr 64" "cardinality 12 = Inr 4096" "cardinality 18 = Inr 262144"
  "window_size 6 = Inr 32" "window_size 12 = Inr 2048" "window_size 18 = Inr 131072"
  by (simp_all add: cardinality_def window_size_def push_bit_eq_mult)

abbreviation um_mod :: "rlc_um_sn_size \<Rightarrow> u32" where
  "um_mod s \<equiv> projr (cardinality (um_to_number s))"

abbreviation um_window :: "rlc_um_sn_size \<Rightarrow> u32" where
  "um_window s \<equiv> projr (window_size (um_to_number s))"

abbreviation am_mod :: "rlc_am_sn_size \<Rightarrow> u32" where
  "am_mod s \<equiv> projr (cardinality (am_to_number s))"

abbreviation am_window :: "rlc_am_sn_size \<Rightarrow> u32" where
  "am_window s \<equiv> projr (window_size (am_to_number s))"

lemma um_sn_space: "sn_space (um_mod s) (um_window s)"
proof (cases s)
  case Um_size6bits
  then show ?thesis by unfold_locales (auto intro: exI [of _ 5])
next
  case Um_size12bits
  then show ?thesis by unfold_locales (auto intro: exI [of _ 11])
qed

lemma am_sn_space: "sn_space (am_mod s) (am_window s)"
proof (cases s)
  case Am_size12bits
  then show ?thesis by unfold_locales (auto intro: exI [of _ 11])
next
  case Am_size18bits
  then show ?thesis by unfold_locales (auto intro: exI [of _ 17])
qed

interpretation um: sn_space "um_mod s" "um_window s" for s
  by (rule um_sn_space)

interpretation am: sn_space "am_mod s" "am_window s" for s
  by (rule am_sn_space)

end
