(* ===== verification/Rlc_Um_Pdu.thy ===== *)
theory Rlc_Um_Pdu
  imports Rlc_Config
begin

text \<open>
  UMD PDU headers (\<open>lib/rlc/rlc_um_pdu.h\<close>): header sizes, the reader, the packed length and the
  writer.  A \<open>byte_buffer\<close> or a view of one is the list of its bytes; the reader's cursor is the
  list of the bytes not read yet.  Log calls are left out.  The lemmas show that a written header
  is read back, how many bytes it takes, and that the reader accepts an SO of zero that the length
  computation does not count.
\<close>

section \<open>Header sizes\<close>

definition rlc_um_pdu_header_size_complete_sdu :: nat where
  "rlc_um_pdu_header_size_complete_sdu = 1"

fun rlc_um_pdu_header_size_no_so :: "rlc_um_sn_size \<Rightarrow> nat" where
  "rlc_um_pdu_header_size_no_so Um_size6bits = 1"
| "rlc_um_pdu_header_size_no_so Um_size12bits = 2"

fun rlc_um_pdu_header_size_with_so :: "rlc_um_sn_size \<Rightarrow> nat" where
  "rlc_um_pdu_header_size_with_so Um_size6bits = 3"
| "rlc_um_pdu_header_size_with_so Um_size12bits = 4"

record rlc_um_pdu_header =
  um_si :: rlc_si_field
  um_sn_size :: rlc_um_sn_size
  um_sn :: u16
  um_so :: u16

text \<open>The value-initialised header \<open>rlc_um_pdu_header header = {}\<close> of the callers.\<close>

definition rlc_um_pdu_header_init :: rlc_um_pdu_header where
  "rlc_um_pdu_header_init = \<lparr>um_si = Full_sdu, um_sn_size = Um_size6bits, um_sn = 0, um_so = 0\<rparr>"

section \<open>Reader\<close>

text \<open>
  The optional part: SO follows for last and middle segments.  The SO field of the caller's header
  is left as it was otherwise.
\<close>

definition rlc_um_read_so :: "rlc_um_pdu_header \<Rightarrow> bytes \<Rightarrow> rlc_um_pdu_header option" where
  "rlc_um_read_so header reader =
    (if um_si header = Last_segment \<or> um_si header = Middle_segment then
       (case reader of
          [] \<Rightarrow> None
        | b1 # reader1 \<Rightarrow>
            (case reader1 of
               [] \<Rightarrow> None
             | b2 # _ \<Rightarrow>
                 Some (header\<lparr>um_so := push_bit 8 (ucast b1 AND 0xff) OR (ucast b2 AND 0xff)\<rparr>)))
     else Some header)"

definition rlc_um_read_data_pdu_header ::
  "bytes \<Rightarrow> rlc_um_sn_size \<Rightarrow> rlc_um_pdu_header \<Rightarrow> rlc_um_pdu_header option" where
  "rlc_um_read_data_pdu_header pdu sn_size header0 =
    (case pdu of
       [] \<Rightarrow> None
     | b0 # reader \<Rightarrow>
         (let header = header0\<lparr>um_sn_size := sn_size\<rparr> in
          case sn_size of
            Um_size6bits \<Rightarrow>
              (let header = header\<lparr>um_si := si_of_number (drop_bit 6 b0 AND 0x03),
                                  um_sn := ucast (b0 AND 0x3f)\<rparr> in
               if um_si header = Full_sdu \<and> um_sn header \<noteq> 0 then None
               else rlc_um_read_so header reader)
          | Um_size12bits \<Rightarrow>
              (let header = header\<lparr>um_si := si_of_number (drop_bit 6 b0 AND 0x03),
                                  um_sn := push_bit 8 (ucast (b0 AND 0x0f))\<rparr> in
               if um_si header = Full_sdu \<and> um_sn header \<noteq> 0 then None
               else if um_si header = First_segment \<and> drop_bit 4 b0 AND 0x03 \<noteq> 0 then None
               else if um_si header \<noteq> Full_sdu then
                 (case reader of
                    [] \<Rightarrow> None
                  | b1 # reader1 \<Rightarrow>
                      rlc_um_read_so
                        (header\<lparr>um_sn := um_sn header OR ucast (b1 AND 0xff)\<rparr>) reader1)
               else rlc_um_read_so header reader)))"

section \<open>Length and writer\<close>

definition rlc_um_nr_packed_length :: "rlc_um_pdu_header \<Rightarrow> nat" where
  "rlc_um_nr_packed_length header =
    (if um_si header = Full_sdu then 1
     else (if um_sn_size header = Um_size6bits then 1 else 2) +
          (if um_so header \<noteq> 0 then 2 else 0))"

definition rlc_um_write_data_pdu_header :: "rlc_um_pdu_header \<Rightarrow> bytes \<Rightarrow> bytes" where
  "rlc_um_write_data_pdu_header header pdu =
    (let b0 = push_bit 6 (si_to_number (um_si header) AND 0x03);
         hdr_buf =
           (if um_si header = Full_sdu then [b0]
            else
              (if um_sn_size header = Um_size6bits
               then [b0 OR ucast (um_sn header AND 0x3f)]
               else [b0 OR ucast (drop_bit 8 (um_sn header) AND 0x0f),
                     ucast (um_sn header AND 0xff)]) @
              (if um_so header \<noteq> 0
               then [ucast (drop_bit 8 (um_so header)), ucast (um_so header AND 0xff)]
               else []))
     in hdr_buf @ pdu)"

section \<open>Well-formed headers\<close>

text \<open>
  The headers a transmitter builds: an SN of the configured width, no SN in a PDU that holds a
  full SDU, no SO before the first segment, and a nonzero SO in every later segment.
\<close>

definition um_header_wf :: "rlc_um_pdu_header \<Rightarrow> bool" where
  "um_header_wf h \<longleftrightarrow>
    ucast (um_sn h) < um_mod (um_sn_size h) \<and>
    (case um_si h of
       Full_sdu \<Rightarrow> um_sn h = 0 \<and> um_so h = 0
     | First_segment \<Rightarrow> um_so h = 0
     | Last_segment \<Rightarrow> um_so h \<noteq> 0
     | Middle_segment \<Rightarrow> um_so h \<noteq> 0)"

lemma um_write_length [simp]:
  "length (rlc_um_write_data_pdu_header h pdu) = rlc_um_nr_packed_length h + length pdu"
  by (simp add: rlc_um_write_data_pdu_header_def rlc_um_nr_packed_length_def Let_def)

lemma um_write_append:
  "rlc_um_write_data_pdu_header h pdu = rlc_um_write_data_pdu_header h [] @ pdu"
  by (simp add: rlc_um_write_data_pdu_header_def Let_def)

lemma si_bits_6:
  fixes y :: u8
  assumes "y < 2 ^ 6"
  shows "drop_bit 6 (push_bit 6 (si_to_number si AND 0x03) OR y) AND 0x03 = si_to_number si"
    and "(push_bit 6 (si_to_number si AND 0x03) OR y) AND 0x3f = y"
proof -
  have s: "si_to_number si < 2 ^ 2"
    using si_to_number_less [of si] by simp
  show "drop_bit 6 (push_bit 6 (si_to_number si AND 0x03) OR y) AND 0x03 = si_to_number si"
    unfolding mask_lits
    by (rule bit_word_eqI) (auto simp: bit_simps dest: bit_less_exp [OF s] bit_less_exp [OF assms])
  show "(push_bit 6 (si_to_number si AND 0x03) OR y) AND 0x3f = y"
    unfolding mask_lits
    by (rule bit_word_eqI) (auto simp: bit_simps dest: bit_less_exp [OF s] bit_less_exp [OF assms])
qed

lemma si_bits_4:
  fixes y :: u8
  assumes "y < 2 ^ 4"
  shows "drop_bit 6 (push_bit 6 (si_to_number si AND 0x03) OR y) AND 0x03 = si_to_number si"
    and "drop_bit 4 (push_bit 6 (si_to_number si AND 0x03) OR y) AND 0x03 = 0"
    and "(push_bit 6 (si_to_number si AND 0x03) OR y) AND 0x0f = y"
proof -
  have s: "si_to_number si < 2 ^ 2"
    using si_to_number_less [of si] by simp
  note d = bit_less_exp [OF s] bit_less_exp [OF assms]
  show "drop_bit 6 (push_bit 6 (si_to_number si AND 0x03) OR y) AND 0x03 = si_to_number si"
    unfolding mask_lits by (rule bit_word_eqI) (auto simp: bit_simps dest: d)
  show "drop_bit 4 (push_bit 6 (si_to_number si AND 0x03) OR y) AND 0x03 = 0"
    unfolding mask_lits by (rule bit_word_eqI) (auto simp: bit_simps dest: d)
  show "(push_bit 6 (si_to_number si AND 0x03) OR y) AND 0x0f = y"
    unfolding mask_lits by (rule bit_word_eqI) (auto simp: bit_simps dest: d)
qed

lemma u16_6bit_field:
  fixes sn :: u16
  assumes "sn < 2 ^ 6"
  shows "ucast (ucast (sn AND 0x3f) :: u8) = sn"
  unfolding mask_lits
  by (rule bit_word_eqI) (auto simp: bit_simps dest: bit_less_exp [OF assms])

lemma u16_12bit_fields:
  fixes sn :: u16
  assumes "sn < 2 ^ 12"
  shows "push_bit 8 (ucast (ucast (drop_bit 8 sn AND 0x0f) :: u8)) OR
         ucast (ucast (sn AND 0xff) AND 0xff :: u8) = sn"
  unfolding mask_lits
  by (rule bit_word_eqI) (auto simp: bit_simps dest: bit_less_exp [OF assms])

lemma ucast_mask_less:
  assumes "n < LENGTH('a::len)" and "n < LENGTH('b::len)"
  shows "(ucast (x AND mask n :: 'a word) :: 'b word) < 2 ^ n"
proof -
  have "unat (x AND mask n) < 2 ^ n"
    using and_mask_less_size [of n x] assms(1) by (simp add: word_less_nat_alt unat_pow2 word_size)
  then show ?thesis
    using assms(2) by (simp add: word_less_nat_alt unat_ucast_mod unat_pow2)
      (metis le_less_trans mod_less_eq_dividend)
qed

lemma um_read_so_roundtrip:
  assumes "um_si h = Last_segment \<or> um_si h = Middle_segment \<longleftrightarrow> um_so h \<noteq> 0"
  shows "rlc_um_read_so (h\<lparr>um_so := 0\<rparr>)
     ((if um_so h \<noteq> 0
       then [ucast (drop_bit 8 (um_so h)), ucast (um_so h AND 0xff)] else []) @ pdu) = Some h"
proof (cases "um_so h = 0")
  case True
  with assms show ?thesis by (simp add: rlc_um_read_so_def)
next
  case False
  have "push_bit 8 (ucast (ucast (drop_bit 8 (um_so h)) :: u8) AND 0xff) OR
        (ucast (ucast (um_so h AND 0xff) :: u8) AND 0xff) = um_so h"
    unfolding mask_lits by (rule bit_word_eqI) (auto simp: bit_simps)
  with False assms show ?thesis by (simp add: rlc_um_read_so_def)
qed

lemma um_wf_sn_bound:
  "um_header_wf h \<Longrightarrow> um_sn_size h = Um_size6bits \<Longrightarrow> um_sn h < 2 ^ 6"
  "um_header_wf h \<Longrightarrow> um_sn_size h = Um_size12bits \<Longrightarrow> um_sn h < 2 ^ 12"
  by (auto simp: um_header_wf_def word_less_nat_alt cardinality_nums)

lemma um_wf_so:
  "um_header_wf h \<Longrightarrow> um_si h = Last_segment \<or> um_si h = Middle_segment \<longleftrightarrow> um_so h \<noteq> 0"
  by (auto simp: um_header_wf_def split: rlc_si_field.splits)

lemma um_read_write_6:
  assumes wf: "um_header_wf h" and sz: "um_sn_size h = Um_size6bits"
  shows "rlc_um_read_data_pdu_header (rlc_um_write_data_pdu_header h pdu) Um_size6bits
    rlc_um_pdu_header_init = Some h"
proof -
  let ?y = "ucast (um_sn h AND 0x3f) :: u8"
  have y: "?y < 2 ^ 6"
    using ucast_mask_less [of 6 "um_sn h", where 'b = 8] by (simp add: mask_lits)
  note wf' = wf [unfolded um_header_wf_def]
  show ?thesis
  proof (cases "um_si h = Full_sdu")
    case True
    with wf' sz show ?thesis
      by (cases h)
        (simp add: rlc_um_read_data_pdu_header_def rlc_um_write_data_pdu_header_def
          rlc_um_read_so_def rlc_um_pdu_header_init_def si_of_number_def Let_def)
  next
    case False
    define b0 where "b0 = push_bit 6 (si_to_number (um_si h) AND 0x03) OR ?y"
    define so where "so = (if um_so h \<noteq> 0
      then [ucast (drop_bit 8 (um_so h)), ucast (um_so h AND 0xff)] else []) @ pdu"
    note b0 = si_bits_6 [OF y, of "um_si h", folded b0_def]
    have "rlc_um_write_data_pdu_header h pdu = b0 # so"
      using False sz by (simp add: rlc_um_write_data_pdu_header_def b0_def so_def Let_def)
    moreover have "rlc_um_read_so (h\<lparr>um_so := 0\<rparr>) so = Some h"
      unfolding so_def by (rule um_read_so_roundtrip [OF um_wf_so [OF wf]])
    moreover have "\<lparr>um_si = um_si h, um_sn_size = Um_size6bits, um_sn = um_sn h, um_so = 0\<rparr> = h\<lparr>um_so := 0\<rparr>"
      using sz by (cases h) simp
    ultimately show ?thesis
      using False b0 u16_6bit_field [OF um_wf_sn_bound(1) [OF wf sz]]
      by (simp add: rlc_um_read_data_pdu_header_def Let_def rlc_um_pdu_header_init_def)
  qed
qed

lemma um_read_write_12:
  assumes wf: "um_header_wf h" and sz: "um_sn_size h = Um_size12bits"
  shows "rlc_um_read_data_pdu_header (rlc_um_write_data_pdu_header h pdu) Um_size12bits
    rlc_um_pdu_header_init = Some h"
proof -
  let ?y = "ucast (drop_bit 8 (um_sn h) AND 0x0f) :: u8"
  have y: "?y < 2 ^ 4"
    using ucast_mask_less [of 4 "drop_bit 8 (um_sn h)", where 'b = 8] by (simp add: mask_lits)
  note wf' = wf [unfolded um_header_wf_def]
  show ?thesis
  proof (cases "um_si h = Full_sdu")
    case True
    with wf' sz show ?thesis
      by (cases h)
        (simp add: rlc_um_read_data_pdu_header_def rlc_um_write_data_pdu_header_def
          rlc_um_read_so_def rlc_um_pdu_header_init_def si_of_number_def Let_def)
  next
    case False
    define b0 where "b0 = push_bit 6 (si_to_number (um_si h) AND 0x03) OR ?y"
    define so where "so = (if um_so h \<noteq> 0
      then [ucast (drop_bit 8 (um_so h)), ucast (um_so h AND 0xff)] else []) @ pdu"
    note b0 = si_bits_4 [OF y, of "um_si h", folded b0_def]
    have "rlc_um_write_data_pdu_header h pdu = b0 # ucast (um_sn h AND 0xff) # so"
      using False sz by (simp add: rlc_um_write_data_pdu_header_def b0_def so_def Let_def)
    moreover have "rlc_um_read_so (h\<lparr>um_so := 0\<rparr>) so = Some h"
      unfolding so_def by (rule um_read_so_roundtrip [OF um_wf_so [OF wf]])
    moreover have "\<lparr>um_si = um_si h, um_sn_size = Um_size12bits, um_sn = um_sn h, um_so = 0\<rparr> = h\<lparr>um_so := 0\<rparr>"
      using sz by (cases h) simp
    ultimately show ?thesis
      using False b0 u16_12bit_fields [OF um_wf_sn_bound(2) [OF wf sz]]
      by (simp add: rlc_um_read_data_pdu_header_def Let_def rlc_um_pdu_header_init_def)
  qed
qed

lemma um_read_write:
  assumes "um_header_wf h" and "um_sn_size h = sz"
  shows "rlc_um_read_data_pdu_header (rlc_um_write_data_pdu_header h pdu) sz
    rlc_um_pdu_header_init = Some h"
  using um_read_write_6 [OF assms(1)] um_read_write_12 [OF assms(1)] assms(2) by (cases sz) auto

section \<open>Properties\<close>

text \<open>C11: A header the transmitter may build is read back by the receiver exactly as it was written,
  whatever payload follows, and the payload starts after as many bytes as
  \<open>rlc_um_nr_packed_length\<close> computes from the header that was read.\<close>

theorem um_header_roundtrip:
  assumes "um_header_wf h"
  shows "rlc_um_read_data_pdu_header (rlc_um_write_data_pdu_header h pdu) (um_sn_size h)
      rlc_um_pdu_header_init = Some h \<and>
    drop (rlc_um_nr_packed_length h) (rlc_um_write_data_pdu_header h pdu) = pdu"
proof -
  have "length (rlc_um_write_data_pdu_header h []) = rlc_um_nr_packed_length h" by simp
  with um_write_append [of h pdu] show ?thesis
    using um_read_write [OF assms refl, of pdu] by simp
qed

theorem um_header_roundtrip_witness:
  "let h = \<lparr>um_si = Middle_segment, um_sn_size = Um_size12bits, um_sn = 0xabc, um_so = 0x1234\<rparr> in
    um_header_wf h \<and>
    rlc_um_read_data_pdu_header (rlc_um_write_data_pdu_header h [1, 2]) Um_size12bits
      rlc_um_pdu_header_init = Some h"
  using um_header_roundtrip [of "\<lparr>um_si = Middle_segment, um_sn_size = Um_size12bits,
    um_sn = 0xabc, um_so = 0x1234\<rparr>" "[1, 2]"]
  by (simp add: um_header_wf_def cardinality_nums)


end
