(* ===== verification/Rlc_Am_Pdu.thy ===== *)
theory Rlc_Am_Pdu
  imports Rlc_Um_Pdu
begin

text \<open>
  AMD PDU headers (\<open>lib/rlc/rlc_am_pdu.h\<close>): constants, header sizes, the reader and the writer.
  Byte buffers are lists of bytes, as in \<open>Rlc_Um_Pdu\<close>, whose lemmas on bit fields are used.  The
  lemmas show that a header is read back as it was written and that \<open>get_packed_size\<close> is the number of
  bytes written, for the headers whose SO is nonzero exactly in last and middle segments.
\<close>

section \<open>Constants and sizes\<close>

definition INVALID_RLC_SN :: u32 where
  "INVALID_RLC_SN = 0xffffffff"

definition RETX_COUNT_NOT_STARTED :: u32 where
  "RETX_COUNT_NOT_STARTED = 0xffffffff"

definition rlc_am_pdu_header_so_size :: nat where
  "rlc_am_pdu_header_so_size = 2"

fun rlc_am_pdu_header_min_size :: "rlc_am_sn_size \<Rightarrow> nat" where
  "rlc_am_pdu_header_min_size Am_size12bits = 2"
| "rlc_am_pdu_header_min_size Am_size18bits = 3"

definition rlc_am_pdu_header_max_size :: "rlc_am_sn_size \<Rightarrow> nat" where
  "rlc_am_pdu_header_max_size sn_size = rlc_am_pdu_header_min_size sn_size + rlc_am_pdu_header_so_size"

record rlc_am_pdu_header =
  am_dc :: rlc_dc_field
  am_p :: u8
  am_si :: rlc_si_field
  am_sn_size :: rlc_am_sn_size
  am_sn :: u32
  am_so :: u16

definition rlc_am_pdu_header_init :: rlc_am_pdu_header where
  "rlc_am_pdu_header_init =
    \<lparr>am_dc = Dc_control, am_p = 0, am_si = Full_sdu, am_sn_size = Am_size12bits, am_sn = 0, am_so = 0\<rparr>"

definition am_get_packed_size :: "rlc_am_pdu_header \<Rightarrow> nat" where
  "am_get_packed_size h =
    (if am_si h = Last_segment \<or> am_si h = Middle_segment
     then rlc_am_pdu_header_max_size (am_sn_size h) else rlc_am_pdu_header_min_size (am_sn_size h))"

section \<open>Reader\<close>

definition rlc_am_read_so :: "rlc_am_pdu_header \<Rightarrow> bytes \<Rightarrow> rlc_am_pdu_header option" where
  "rlc_am_read_so header reader =
    (if am_si header = Last_segment \<or> am_si header = Middle_segment then
       (case reader of
          [] \<Rightarrow> None
        | b1 # reader1 \<Rightarrow>
            (case reader1 of
               [] \<Rightarrow> None
             | b2 # _ \<Rightarrow>
                 Some (header\<lparr>am_so := push_bit 8 (ucast b1 AND 0xff) OR (ucast b2 AND 0xff)\<rparr>)))
     else Some header)"

definition rlc_am_read_data_pdu_header ::
  "bytes \<Rightarrow> rlc_am_sn_size \<Rightarrow> rlc_am_pdu_header \<Rightarrow> rlc_am_pdu_header option" where
  "rlc_am_read_data_pdu_header pdu sn_size header0 =
    (if length pdu \<le> rlc_am_pdu_header_min_size sn_size then None
     else (case pdu of
       [] \<Rightarrow> None
     | b0 # reader \<Rightarrow>
         (let header = header0\<lparr>am_sn_size := sn_size, am_dc := dc_of_number (drop_bit 7 b0 AND 0x01),
                               am_p := drop_bit 6 b0 AND 0x01,
                               am_si := si_of_number (drop_bit 4 b0 AND 0x03)\<rparr> in
          case sn_size of
            Am_size12bits \<Rightarrow>
              (case reader of
                 [] \<Rightarrow> None
               | b1 # reader1 \<Rightarrow>
                   rlc_am_read_so (header\<lparr>am_sn := push_bit 8 (ucast (b0 AND 0x0f)) OR (ucast b1 AND 0xff)\<rparr>)
                     reader1)
          | Am_size18bits \<Rightarrow>
              if b0 AND 0x0c \<noteq> 0 then None
              else (case reader of
                 [] \<Rightarrow> None
               | b1 # reader1 \<Rightarrow>
                   (case reader1 of
                      [] \<Rightarrow> None
                    | b2 # reader2 \<Rightarrow>
                        rlc_am_read_so
                          (header\<lparr>am_sn := push_bit 16 (ucast (b0 AND 0x03)) OR
                             push_bit 8 (ucast b1 AND 0xff) OR (ucast b2 AND 0xff)\<rparr>) reader2)))))"

section \<open>Writer\<close>

definition rlc_am_write_data_pdu_header :: "rlc_am_pdu_header \<Rightarrow> bytes \<Rightarrow> bytes" where
  "rlc_am_write_data_pdu_header header pdu =
    (let b0 = push_bit 7 (dc_to_number (am_dc header) AND 0x01) OR push_bit 6 (am_p header AND 0x01) OR
              push_bit 4 (si_to_number (am_si header) AND 0x03);
         sn_buf =
           (if am_sn_size header = Am_size12bits
            then [b0 OR ucast (drop_bit 8 (am_sn header) AND 0x0f), ucast (am_sn header AND 0xff)]
            else [b0 OR ucast (drop_bit 16 (am_sn header) AND 0x03), ucast (drop_bit 8 (am_sn header)),
                  ucast (am_sn header AND 0xff)]);
         so_buf =
           (if am_so header \<noteq> 0 then [ucast (drop_bit 8 (am_so header)), ucast (am_so header AND 0xff)]
            else [])
     in sn_buf @ so_buf @ pdu)"

section \<open>Well-formed headers\<close>

definition am_header_wf :: "rlc_am_pdu_header \<Rightarrow> bool" where
  "am_header_wf h \<longleftrightarrow>
    am_sn h < am_mod (am_sn_size h) \<and> am_p h < 2 \<and>
    (am_so h \<noteq> 0 \<longleftrightarrow> am_si h = Last_segment \<or> am_si h = Middle_segment)"

lemma am_write_append:
  "rlc_am_write_data_pdu_header h pdu = rlc_am_write_data_pdu_header h [] @ pdu"
  by (simp add: rlc_am_write_data_pdu_header_def Let_def)

lemma am_write_length:
  "length (rlc_am_write_data_pdu_header h pdu) =
    rlc_am_pdu_header_min_size (am_sn_size h) + (if am_so h = 0 then 0 else 2) + length pdu"
  by (cases "am_sn_size h") (simp_all add: rlc_am_write_data_pdu_header_def Let_def)

lemma am_wf_packed_size:
  "am_header_wf h \<Longrightarrow> length (rlc_am_write_data_pdu_header h pdu) = am_get_packed_size h + length pdu"
  by (auto simp: am_write_length am_get_packed_size_def am_header_wf_def rlc_am_pdu_header_max_size_def
      rlc_am_pdu_header_so_size_def)

lemma am_read_so_roundtrip:
  assumes "am_so h \<noteq> 0 \<longleftrightarrow> am_si h = Last_segment \<or> am_si h = Middle_segment"
  shows "rlc_am_read_so (h\<lparr>am_so := 0\<rparr>)
     ((if am_so h \<noteq> 0
       then [ucast (drop_bit 8 (am_so h)), ucast (am_so h AND 0xff)] else []) @ pdu) = Some h"
proof (cases "am_so h = 0")
  case True
  with assms show ?thesis by (simp add: rlc_am_read_so_def)
next
  case False
  have "push_bit 8 (ucast (ucast (drop_bit 8 (am_so h)) :: u8) AND 0xff) OR
        (ucast (ucast (am_so h AND 0xff) :: u8) AND 0xff) = am_so h"
    unfolding mask_lits by (rule bit_word_eqI) (auto simp: bit_simps)
  with False assms show ?thesis by (simp add: rlc_am_read_so_def)
qed

text \<open>The fields of the first byte.\<close>

definition am_byte0 :: "rlc_am_pdu_header \<Rightarrow> u8 \<Rightarrow> u8" where
  "am_byte0 h y =
    push_bit 7 (dc_to_number (am_dc h) AND 0x01) OR push_bit 6 (am_p h AND 0x01) OR
    push_bit 4 (si_to_number (am_si h) AND 0x03) OR y"

lemma am_byte0_fields:
  assumes y: "y < 2 ^ 4" and p: "am_p h < 2"
  shows "drop_bit 7 (am_byte0 h y) AND 0x01 = dc_to_number (am_dc h)"
    "drop_bit 6 (am_byte0 h y) AND 0x01 = am_p h"
    "drop_bit 4 (am_byte0 h y) AND 0x03 = si_to_number (am_si h)"
    "am_byte0 h y AND 0x0f = y"
proof -
  have d: "dc_to_number (am_dc h) < 2 ^ 1" using dc_to_number_less [of "am_dc h"] by simp
  have s: "si_to_number (am_si h) < 2 ^ 2" using si_to_number_less [of "am_si h"] by simp
  have p': "am_p h < 2 ^ 1" using p by simp
  note b = bit_less_exp [OF d] bit_less_exp [OF s] bit_less_exp [OF p'] bit_less_exp [OF y]
  show "drop_bit 7 (am_byte0 h y) AND 0x01 = dc_to_number (am_dc h)"
    unfolding am_byte0_def mask_lits by (rule bit_word_eqI) (auto simp: bit_simps dest: b)
  show "drop_bit 6 (am_byte0 h y) AND 0x01 = am_p h"
    unfolding am_byte0_def mask_lits by (rule bit_word_eqI) (auto simp: bit_simps dest: b)
  show "drop_bit 4 (am_byte0 h y) AND 0x03 = si_to_number (am_si h)"
    unfolding am_byte0_def mask_lits by (rule bit_word_eqI) (auto simp: bit_simps dest: b)
  show "am_byte0 h y AND 0x0f = y"
    unfolding am_byte0_def mask_lits by (rule bit_word_eqI) (auto simp: bit_simps dest: b)
qed

lemma am_byte0_reserved:
  assumes y: "y < 2 ^ 2"
  shows "am_byte0 h y AND 0x0c = 0"
proof -
  have c: "(0x0c :: u8) = push_bit 2 (mask 2)" by (simp add: mask_eq_exp_minus_1)
  show ?thesis
    unfolding am_byte0_def mask_lits c
    by (rule bit_word_eqI) (auto simp: bit_simps dest: bit_less_exp [OF y])
qed

lemma am_byte0_low2:
  assumes y: "y < 2 ^ 2"
  shows "am_byte0 h y AND 0x03 = y"
  unfolding am_byte0_def mask_lits
  by (rule bit_word_eqI) (auto simp: bit_simps dest: bit_less_exp [OF y])

lemma am_sn_12bit:
  fixes sn :: u32
  assumes "sn < 2 ^ 12"
  shows "push_bit 8 (ucast (ucast (drop_bit 8 sn AND 0x0f) :: u8)) OR
         (ucast (ucast (sn AND 0xff) :: u8) AND 0xff) = sn"
  unfolding mask_lits
  by (rule bit_word_eqI) (auto simp: bit_simps dest: bit_less_exp [OF assms])

lemma am_sn_18bit:
  fixes sn :: u32
  assumes "sn < 2 ^ 18"
  shows "push_bit 16 (ucast (ucast (drop_bit 16 sn AND 0x03) :: u8)) OR
         push_bit 8 (ucast (ucast (drop_bit 8 sn) :: u8) AND 0xff) OR
         (ucast (ucast (sn AND 0xff) :: u8) AND 0xff) = sn" (is "?l = _")
proof (rule bit_word_eqI)
  fix n
  assume n: "n < LENGTH(32)"
  show "bit ?l n = bit sn n"
    unfolding mask_lits using n
    by (cases "n < 16"; cases "n < 8") (auto simp: bit_simps dest: bit_less_exp [OF assms])
qed

lemma am_read_write:
  assumes wf: "am_header_wf h" and ne: "pdu \<noteq> []" and sz: "am_sn_size h = sz"
  shows "rlc_am_read_data_pdu_header (rlc_am_write_data_pdu_header h pdu) sz
    rlc_am_pdu_header_init = Some h"
proof -
  define so where "so = (if am_so h \<noteq> 0
      then [ucast (drop_bit 8 (am_so h)), ucast (am_so h AND 0xff)] else []) @ pdu"
  have rso: "rlc_am_read_so (h\<lparr>am_so := 0\<rparr>) so = Some h"
    unfolding so_def by (rule am_read_so_roundtrip) (use wf in \<open>simp add: am_header_wf_def\<close>)
  have p: "am_p h < 2" using wf by (simp add: am_header_wf_def)
  have eq: "\<lparr>am_dc = am_dc h, am_p = am_p h, am_si = am_si h, am_sn_size = sz, am_sn = am_sn h, am_so = 0\<rparr>
      = h\<lparr>am_so := 0\<rparr>"
    using sz by (cases h) simp
  have len: "\<not> length (rlc_am_write_data_pdu_header h pdu) \<le> rlc_am_pdu_header_min_size sz"
    using ne sz by (simp add: am_write_length)
  show ?thesis
  proof (cases sz)
    case Am_size12bits
    have sn: "am_sn h < 2 ^ 12" using wf sz Am_size12bits by (simp add: am_header_wf_def)
    have y: "(ucast (drop_bit 8 (am_sn h) AND 0x0f) :: u8) < 2 ^ 4"
      using ucast_mask_less [of 4 "drop_bit 8 (am_sn h)", where 'b = 8] by (simp add: mask_lits)
    have w: "rlc_am_write_data_pdu_header h pdu =
        am_byte0 h (ucast (drop_bit 8 (am_sn h) AND 0x0f)) # ucast (am_sn h AND 0xff) # so"
      using sz Am_size12bits
      by (simp add: rlc_am_write_data_pdu_header_def Let_def so_def am_byte0_def or.assoc)
    show ?thesis
      using len rso eq Am_size12bits am_byte0_fields [OF y p] am_sn_12bit [OF sn]
      unfolding rlc_am_read_data_pdu_header_def w by (simp add: rlc_am_pdu_header_init_def)
  next
    case Am_size18bits
    have sn: "am_sn h < 2 ^ 18" using wf sz Am_size18bits by (simp add: am_header_wf_def)
    have y: "(ucast (drop_bit 16 (am_sn h) AND 0x03) :: u8) < 2 ^ 2"
      using ucast_mask_less [of 2 "drop_bit 16 (am_sn h)", where 'b = 8] by (simp add: mask_lits)
    then have y4: "(ucast (drop_bit 16 (am_sn h) AND 0x03) :: u8) < 2 ^ 4"
      by (simp add: word_less_nat_alt)
    have w: "rlc_am_write_data_pdu_header h pdu =
        am_byte0 h (ucast (drop_bit 16 (am_sn h) AND 0x03)) # ucast (drop_bit 8 (am_sn h)) #
        ucast (am_sn h AND 0xff) # so"
      using sz Am_size18bits
      by (simp add: rlc_am_write_data_pdu_header_def Let_def so_def am_byte0_def or.assoc)
    show ?thesis
      using len rso eq Am_size18bits am_byte0_fields [OF y4 p] am_byte0_reserved [OF y]
        am_byte0_low2 [OF y] am_sn_18bit [OF sn]
      unfolding rlc_am_read_data_pdu_header_def w by (simp add: rlc_am_pdu_header_init_def)
  qed
qed

text \<open>What the reader accepts: the SN of a header fits its field.\<close>

lemma am_read_sn_bound:
  assumes "rlc_am_read_data_pdu_header buf sz h0 = Some h"
  shows "am_sn h < am_mod sz"
proof -
  have so: "am_sn h' = am_sn h''" if "rlc_am_read_so h'' r = Some h'" for h' h'' r
    using that by (auto simp: rlc_am_read_so_def split: if_splits list.splits)
  have n12: "push_bit 8 (ucast (b AND 0x0f)) OR (ucast c AND 0xff) < (4096 :: u32)" for b c :: u8
  proof -
    have "(push_bit 8 (ucast (b AND 0x0f)) OR (ucast c AND 0xff) :: u32) =
        (push_bit 8 (ucast (b AND 0x0f)) OR (ucast c AND 0xff)) AND mask 12"
      unfolding mask_lits by (rule bit_word_eqI) (auto simp: bit_simps)
    then show ?thesis
      using and_mask_less_size [of 12 "push_bit 8 (ucast (b AND 0x0f)) OR (ucast c AND 0xff) :: u32"]
      by (simp add: word_size)
  qed
  have n18: "push_bit 16 (ucast (a AND 0x03)) OR push_bit 8 (ucast b AND 0xff) OR (ucast c AND 0xff)
      < (262144 :: u32)" for a b c :: u8
  proof -
    let ?x = "push_bit 16 (ucast (a AND 0x03)) OR push_bit 8 (ucast b AND 0xff) OR (ucast c AND 0xff) :: u32"
    have "?x = ?x AND mask 18"
      unfolding mask_lits by (rule bit_word_eqI) (auto simp: bit_simps)
    then show ?thesis
      using and_mask_less_size [of 18 ?x] by (simp add: word_size)
  qed
  show ?thesis
  proof (cases sz)
    case Am_size12bits
    with assms n12 show ?thesis
      by (auto simp: rlc_am_read_data_pdu_header_def Let_def dest!: so split: list.splits if_splits)
  next
    case Am_size18bits
    with assms n18 show ?thesis
      by (auto simp: rlc_am_read_data_pdu_header_def Let_def dest!: so split: list.splits if_splits)
  qed
qed

section \<open>Properties\<close>

text \<open>C25: A data PDU header whose SO is nonzero exactly in last and middle segments is read back as it
  was written, for both SN lengths, and \<open>get_packed_size\<close> is the number of bytes in front of the
  payload.\<close>

theorem am_header_roundtrip:
  assumes "am_header_wf h" "pdu \<noteq> []"
  shows "rlc_am_read_data_pdu_header (rlc_am_write_data_pdu_header h pdu) (am_sn_size h)
      rlc_am_pdu_header_init = Some h \<and>
    drop (am_get_packed_size h) (rlc_am_write_data_pdu_header h pdu) = pdu"
proof -
  have "length (rlc_am_write_data_pdu_header h []) = am_get_packed_size h"
    using am_wf_packed_size [OF assms(1), of "[]"] by simp
  with am_write_append [of h pdu] show ?thesis
    using am_read_write [OF assms refl] by simp
qed

theorem am_header_roundtrip_witness:
  "let h = \<lparr>am_dc = Dc_data, am_p = 1, am_si = Last_segment, am_sn_size = Am_size18bits,
            am_sn = 0x2abcd, am_so = 0x1234\<rparr> in
    rlc_am_read_data_pdu_header (rlc_am_write_data_pdu_header h [7]) Am_size18bits
      rlc_am_pdu_header_init = Some h"
  using am_header_roundtrip [of "\<lparr>am_dc = Dc_data, am_p = 1, am_si = Last_segment,
    am_sn_size = Am_size18bits, am_sn = 0x2abcd, am_so = 0x1234\<rparr>" "[7]"]
  by (simp add: am_header_wf_def)

end
