(* ===== verification/Rlc_Retx_Queue.thy ===== *)
theory Rlc_Retx_Queue
  imports Rlc_Am_Pdu
begin

text \<open>
  The retransmission queue of the AM transmitter (\<open>lib/rlc/rlc_retx_queue.h\<close>): a list of the parts
  of SDUs to be sent again, with running totals from which the buffer state is computed.  The
  totals are 32-bit and saturate downwards at zero; the lemmas show that they equal the totals
  recomputed from the list after every sequence of operations, as long as the list itself sums up
  below the width.
\<close>

section \<open>Elements and totals\<close>

record rlc_tx_amd_retx =
  retx_sn :: u32
  retx_so :: u32
  retx_length :: u32

definition rlc_tx_amd_retx_init :: rlc_tx_amd_retx where
  "rlc_tx_amd_retx_init = \<lparr>retx_sn = INVALID_RLC_SN, retx_so = 0, retx_length = 0\<rparr>"

definition retx_includes :: "rlc_tx_amd_retx \<Rightarrow> u32 \<Rightarrow> u32 \<Rightarrow> bool" where
  "retx_includes r segment_offset segment_length \<longleftrightarrow>
    segment_offset \<ge> retx_so r \<and> segment_offset + segment_length \<le> retx_so r + retx_length r"

record rlc_retx_queue_state =
  retx_bytes :: u32
  n_retx_so_zero :: u32
  n_retx_so_nonzero :: u32

definition retx_state_init :: rlc_retx_queue_state where
  "retx_state_init = \<lparr>retx_bytes = 0, n_retx_so_zero = 0, n_retx_so_nonzero = 0\<rparr>"

definition retx_state_add :: "rlc_tx_amd_retx \<Rightarrow> rlc_retx_queue_state \<Rightarrow> rlc_retx_queue_state" where
  "retx_state_add elem st =
    (let st = st\<lparr>retx_bytes := retx_bytes st + retx_length elem\<rparr> in
     if retx_so elem = 0 then st\<lparr>n_retx_so_zero := n_retx_so_zero st + 1\<rparr>
     else st\<lparr>n_retx_so_nonzero := n_retx_so_nonzero st + 1\<rparr>)"

definition retx_state_subtract :: "rlc_tx_amd_retx \<Rightarrow> rlc_retx_queue_state \<Rightarrow> rlc_retx_queue_state" where
  "retx_state_subtract elem st =
    (let st = (if retx_bytes st \<ge> retx_length elem then st\<lparr>retx_bytes := retx_bytes st - retx_length elem\<rparr>
               else st\<lparr>retx_bytes := 0\<rparr>) in
     if retx_so elem = 0 then
       if n_retx_so_zero st > 0 then st\<lparr>n_retx_so_zero := n_retx_so_zero st - 1\<rparr> else st
     else
       if n_retx_so_nonzero st > 0 then st\<lparr>n_retx_so_nonzero := n_retx_so_nonzero st - 1\<rparr> else st)"

section \<open>The queue\<close>

record rlc_retx_queue =
  rq_queue :: "rlc_tx_amd_retx list"
  rq_st :: rlc_retx_queue_state

definition rlc_retx_queue_init :: rlc_retx_queue where
  "rlc_retx_queue_init = \<lparr>rq_queue = [], rq_st = retx_state_init\<rparr>"

definition retx_push :: "rlc_tx_amd_retx \<Rightarrow> rlc_retx_queue \<Rightarrow> rlc_retx_queue" where
  "retx_push elem q = q\<lparr>rq_st := retx_state_add elem (rq_st q), rq_queue := rq_queue q @ [elem]\<rparr>"

definition retx_pop :: "rlc_retx_queue \<Rightarrow> rlc_retx_queue" where
  "retx_pop q =
    (case rq_queue q of
       [] \<Rightarrow> q
     | x # xs \<Rightarrow> q\<lparr>rq_st := retx_state_subtract x (rq_st q), rq_queue := xs\<rparr>)"

definition retx_front :: "rlc_retx_queue \<Rightarrow> rlc_tx_amd_retx res" where
  "retx_front q = (case rq_queue q of [] \<Rightarrow> Inl Assertion_failed | x # _ \<Rightarrow> Inr x)"

definition retx_replace_front :: "rlc_tx_amd_retx \<Rightarrow> rlc_retx_queue \<Rightarrow> rlc_retx_queue res" where
  "retx_replace_front elem q =
    (case rq_queue q of
       [] \<Rightarrow> Inl Assertion_failed
     | x # xs \<Rightarrow>
         Inr (q\<lparr>rq_st := retx_state_add elem (retx_state_subtract x (rq_st q)), rq_queue := elem # xs\<rparr>))"

definition retx_clear :: "rlc_retx_queue \<Rightarrow> rlc_retx_queue" where
  "retx_clear q = q\<lparr>rq_st := retx_state_init, rq_queue := []\<rparr>"

definition retx_empty :: "rlc_retx_queue \<Rightarrow> bool" where
  "retx_empty q \<longleftrightarrow> rq_queue q = []"

definition retx_has_sn :: "rlc_retx_queue \<Rightarrow> u32 \<Rightarrow> bool" where
  "retx_has_sn q sn \<longleftrightarrow> list_ex (\<lambda>elem. retx_sn elem = sn) (rq_queue q)"

definition retx_has_segment :: "rlc_retx_queue \<Rightarrow> u32 \<Rightarrow> u32 \<Rightarrow> u32 \<Rightarrow> bool" where
  "retx_has_segment q sn so len \<longleftrightarrow>
    list_ex (\<lambda>elem. retx_sn elem = sn \<and> retx_includes elem so len) (rq_queue q)"

text \<open>The loop of \<open>remove_sn\<close>, which stops at the first match.\<close>

fun remove_first_sn :: "u32 \<Rightarrow> rlc_tx_amd_retx list \<Rightarrow> (rlc_tx_amd_retx \<times> rlc_tx_amd_retx list) option" where
  "remove_first_sn sn [] = None"
| "remove_first_sn sn (x # xs) =
    (if retx_sn x = sn then Some (x, xs)
     else case remove_first_sn sn xs of None \<Rightarrow> None | Some (y, ys) \<Rightarrow> Some (y, x # ys))"

definition retx_remove_sn :: "u32 \<Rightarrow> rlc_retx_queue \<Rightarrow> bool \<times> rlc_retx_queue" where
  "retx_remove_sn sn q =
    (case remove_first_sn sn (rq_queue q) of
       None \<Rightarrow> (False, q)
     | Some (x, xs) \<Rightarrow> (True, q\<lparr>rq_st := retx_state_subtract x (rq_st q), rq_queue := xs\<rparr>))"

section \<open>The totals are those of the list\<close>

definition retx_totals :: "rlc_tx_amd_retx list \<Rightarrow> nat \<times> nat \<times> nat" where
  "retx_totals xs =
    (sum_list (map (\<lambda>x. unat (retx_length x)) xs), length (filter (\<lambda>x. retx_so x = 0) xs),
     length (filter (\<lambda>x. retx_so x \<noteq> 0) xs))"

definition retx_fits :: "rlc_tx_amd_retx list \<Rightarrow> bool" where
  "retx_fits xs \<longleftrightarrow> sum_list (map (\<lambda>x. unat (retx_length x)) xs) < 2 ^ 32 \<and> length xs < 2 ^ 32"

definition retx_inv :: "rlc_retx_queue \<Rightarrow> bool" where
  "retx_inv q \<longleftrightarrow>
    retx_fits (rq_queue q) \<and>
    (unat (retx_bytes (rq_st q)), unat (n_retx_so_zero (rq_st q)), unat (n_retx_so_nonzero (rq_st q))) =
      retx_totals (rq_queue q)"

lemma retx_inv_init [simp]: "retx_inv rlc_retx_queue_init"
  by (simp add: retx_inv_def rlc_retx_queue_init_def retx_state_init_def retx_totals_def retx_fits_def)

lemma retx_inv_clear: "retx_inv (retx_clear q)"
  by (simp add: retx_inv_def retx_clear_def retx_state_init_def retx_totals_def retx_fits_def)

definition st_totals :: "rlc_retx_queue_state \<Rightarrow> nat \<times> nat \<times> nat" where
  "st_totals st = (unat (retx_bytes st), unat (n_retx_so_zero st), unat (n_retx_so_nonzero st))"

definition elem_totals :: "rlc_tx_amd_retx \<Rightarrow> nat \<times> nat \<times> nat" where
  "elem_totals x = (unat (retx_length x), if retx_so x = 0 then 1 else 0, if retx_so x = 0 then 0 else 1)"

lemma retx_inv_alt: "retx_inv q \<longleftrightarrow> retx_fits (rq_queue q) \<and> st_totals (rq_st q) = retx_totals (rq_queue q)"
  by (simp add: retx_inv_def st_totals_def)

lemma retx_totals_split:
  "retx_totals (xs @ x # ys) =
    (fst (retx_totals (xs @ ys)) + fst (elem_totals x),
     fst (snd (retx_totals (xs @ ys))) + fst (snd (elem_totals x)),
     snd (snd (retx_totals (xs @ ys))) + snd (snd (elem_totals x)))"
  by (simp add: retx_totals_def elem_totals_def)

lemma retx_fits_split: "retx_fits (xs @ x # ys) \<Longrightarrow> retx_fits (xs @ ys)"
  by (simp add: retx_fits_def)

lemma retx_totals_bounds: "fst (snd (retx_totals xs)) \<le> length xs" "snd (snd (retx_totals xs)) \<le> length xs"
  by (simp_all add: retx_totals_def)

lemma st_add:
  assumes fits: "retx_fits (xs @ x # ys)" and st: "st_totals st = retx_totals (xs @ ys)"
  shows "st_totals (retx_state_add x st) = retx_totals (xs @ x # ys)"
proof -
  have b: "unat (retx_bytes st) + unat (retx_length x) < 2 ^ 32"
    using fits st by (simp add: retx_fits_def st_totals_def retx_totals_def)
  have l: "length (xs @ ys) + 1 < 2 ^ 32" using fits by (simp add: retx_fits_def)
  have z: "unat (n_retx_so_zero st) + unat (1 :: u32) < 2 ^ 32" "unat (n_retx_so_nonzero st) + unat (1 :: u32) < 2 ^ 32"
    using st l retx_totals_bounds [of "xs @ ys"] by (simp_all add: st_totals_def prod_eq_iff)
  show ?thesis
    using st unat_add_fits [OF b] unat_add_fits [OF z(1)] unat_add_fits [OF z(2)]
    by (auto simp: retx_totals_split st_totals_def retx_state_add_def elem_totals_def Let_def prod_eq_iff)
qed

lemma st_subtract:
  assumes st: "st_totals st = retx_totals (xs @ x # ys)"
  shows "st_totals (retx_state_subtract x st) = retx_totals (xs @ ys)"
proof -
  have b: "retx_length x \<le> retx_bytes st"
    using st by (simp add: word_le_nat_alt st_totals_def retx_totals_split elem_totals_def)
  have s: "unat (retx_bytes st - retx_length x) = unat (retx_bytes st) - unat (retx_length x)"
    using b by (simp add: unat_sub)
  have one: "unat (y - 1 :: u32) = unat y - 1" if "0 < y" for y
    using that by (simp add: unat_minus_one word_gt_0)
  show ?thesis
  proof (cases "retx_so x = 0")
    case True
    have "0 < n_retx_so_zero st"
      using st True by (simp add: word_less_nat_alt st_totals_def retx_totals_split elem_totals_def prod_eq_iff)
    with True b s one st show ?thesis
      by (simp add: retx_state_subtract_def Let_def st_totals_def retx_totals_split elem_totals_def prod_eq_iff)
  next
    case False
    have "0 < n_retx_so_nonzero st"
      using st False by (simp add: word_less_nat_alt st_totals_def retx_totals_split elem_totals_def prod_eq_iff)
    with False b s one st show ?thesis
      by (simp add: retx_state_subtract_def Let_def st_totals_def retx_totals_split elem_totals_def prod_eq_iff)
  qed
qed

lemma retx_inv_push:
  "retx_inv q \<Longrightarrow> retx_fits (rq_queue q @ [x]) \<Longrightarrow> retx_inv (retx_push x q)"
  using st_add [of "rq_queue q" x "[]" "rq_st q"] by (simp add: retx_inv_alt retx_push_def)

lemma retx_inv_pop: "retx_inv q \<Longrightarrow> retx_inv (retx_pop q)"
proof (cases "rq_queue q")
  case (Cons x xs)
  moreover assume "retx_inv q"
  ultimately show ?thesis
    using st_subtract [of "rq_st q" "[]" x xs] retx_fits_split [of "[]" x xs]
    by (simp add: retx_inv_alt retx_pop_def)
qed (simp add: retx_pop_def)

lemma retx_inv_replace:
  assumes "retx_inv q" "rq_queue q = x # xs" "retx_fits (y # xs)"
  shows "\<exists>q'. retx_replace_front y q = Inr q' \<and> rq_queue q' = y # xs \<and> retx_inv q'"
proof -
  have "st_totals (retx_state_subtract x (rq_st q)) = retx_totals ([] @ xs)"
    using assms by (intro st_subtract) (simp add: retx_inv_alt)
  from st_add [OF _ this] assms show ?thesis
    by (simp add: retx_replace_front_def retx_inv_alt)
qed

lemma remove_first_spec:
  "remove_first_sn sn xs = Some (x, ys) \<Longrightarrow>
    \<exists>as bs. xs = as @ x # bs \<and> ys = as @ bs \<and> retx_sn x = sn \<and> (\<forall>a \<in> set as. retx_sn a \<noteq> sn)"
proof (induction xs arbitrary: ys)
  case (Cons z zs)
  show ?case
  proof (cases "retx_sn z = sn")
    case True
    with Cons.prems show ?thesis by (intro exI [of _ "[]"] exI [of _ zs]) simp
  next
    case False
    with Cons.prems obtain ys' where "remove_first_sn sn zs = Some (x, ys')" "ys = z # ys'"
      by (auto split: option.splits)
    with Cons.IH False obtain as bs where "zs = as @ x # bs" "ys' = as @ bs" "retx_sn x = sn"
      "\<forall>a \<in> set as. retx_sn a \<noteq> sn"
      by blast
    with False \<open>ys = z # ys'\<close> show ?thesis by (intro exI [of _ "z # as"] exI [of _ bs]) simp
  qed
qed simp

lemma remove_first_None: "remove_first_sn sn xs = None \<longleftrightarrow> (\<forall>x \<in> set xs. retx_sn x \<noteq> sn)"
  by (induction xs) (auto split: option.splits)

lemma retx_inv_remove: "retx_inv q \<Longrightarrow> retx_inv (snd (retx_remove_sn sn q))"
proof (cases "remove_first_sn sn (rq_queue q)")
  case (Some r)
  assume inv: "retx_inv q"
  obtain x ys where r: "r = (x, ys)" by (cases r)
  with Some obtain as bs where "rq_queue q = as @ x # bs" "ys = as @ bs"
    using remove_first_spec by blast
  with inv Some r show ?thesis
    using st_subtract [of "rq_st q" as x bs] retx_fits_split [of as x bs]
    by (simp add: retx_inv_alt retx_remove_sn_def)
qed (simp add: retx_remove_sn_def)

section \<open>Properties\<close>

text \<open>Operations on the queue, with their effect on the list alone.\<close>

datatype retx_op = Retx_push rlc_tx_amd_retx | Retx_pop | Retx_replace rlc_tx_amd_retx | Retx_remove u32 | Retx_clear

fun retx_apply :: "retx_op \<Rightarrow> rlc_retx_queue \<Rightarrow> rlc_retx_queue res" where
  "retx_apply (Retx_push x) q = Inr (retx_push x q)"
| "retx_apply Retx_pop q = Inr (retx_pop q)"
| "retx_apply (Retx_replace x) q = retx_replace_front x q"
| "retx_apply (Retx_remove sn) q = Inr (snd (retx_remove_sn sn q))"
| "retx_apply Retx_clear q = Inr (retx_clear q)"

fun list_apply :: "retx_op \<Rightarrow> rlc_tx_amd_retx list \<Rightarrow> rlc_tx_amd_retx list option" where
  "list_apply (Retx_push x) xs = Some (xs @ [x])"
| "list_apply Retx_pop xs = Some (tl xs)"
| "list_apply (Retx_replace x) xs = (if xs = [] then None else Some (x # tl xs))"
| "list_apply (Retx_remove sn) xs =
    Some (takeWhile (\<lambda>x. retx_sn x \<noteq> sn) xs @ tl (dropWhile (\<lambda>x. retx_sn x \<noteq> sn) xs))"
| "list_apply Retx_clear xs = Some []"

fun retx_run :: "retx_op list \<Rightarrow> rlc_retx_queue \<Rightarrow> rlc_retx_queue res" where
  "retx_run [] q = Inr q"
| "retx_run (op # ops) q = (case retx_apply op q of Inl f \<Rightarrow> Inl f | Inr q \<Rightarrow> retx_run ops q)"

text \<open>The lists a run goes through all fit the 32-bit totals, and no front of an empty list is replaced.\<close>

fun list_run :: "retx_op list \<Rightarrow> rlc_tx_amd_retx list \<Rightarrow> rlc_tx_amd_retx list option" where
  "list_run [] xs = Some xs"
| "list_run (op # ops) xs =
    (case list_apply op xs of
       None \<Rightarrow> None
     | Some ys \<Rightarrow> if retx_fits ys then list_run ops ys else None)"

lemma remove_first_parts:
  "(case remove_first_sn sn xs of None \<Rightarrow> xs | Some (x, ys) \<Rightarrow> ys) =
    takeWhile (\<lambda>x. retx_sn x \<noteq> sn) xs @ tl (dropWhile (\<lambda>x. retx_sn x \<noteq> sn) xs)"
  by (induction xs) (auto split: option.splits)

lemma remove_queue:
  "rq_queue (snd (retx_remove_sn sn q)) =
    takeWhile (\<lambda>x. retx_sn x \<noteq> sn) (rq_queue q) @ tl (dropWhile (\<lambda>x. retx_sn x \<noteq> sn) (rq_queue q))"
  unfolding remove_first_parts [symmetric] by (simp add: retx_remove_sn_def split: option.split)

lemma retx_apply_list:
  assumes "retx_inv q" "list_apply op (rq_queue q) = Some ys" "retx_fits ys"
  shows "\<exists>q'. retx_apply op q = Inr q' \<and> rq_queue q' = ys \<and> retx_inv q'"
proof (cases op)
  case (Retx_push x)
  with assms retx_inv_push show ?thesis by (auto simp: retx_push_def)
next
  case Retx_pop
  with assms retx_inv_pop [of q] show ?thesis by (cases "rq_queue q") (auto simp: retx_pop_def)
next
  case (Retx_replace x)
  with assms(2) obtain y zs where "rq_queue q = y # zs" "ys = x # zs"
    by (cases "rq_queue q") (auto split: if_splits)
  with assms Retx_replace retx_inv_replace [of q y zs x] show ?thesis by auto
next
  case (Retx_remove sn)
  with assms retx_inv_remove [OF assms(1), of sn] show ?thesis by (simp add: remove_queue)
next
  case Retx_clear
  with assms retx_inv_clear show ?thesis by (auto simp: retx_clear_def)
qed

lemma retx_run_list:
  "retx_inv q \<Longrightarrow> list_run ops (rq_queue q) = Some ys \<Longrightarrow>
    \<exists>q'. retx_run ops q = Inr q' \<and> rq_queue q' = ys \<and> retx_inv q'"
proof (induction ops arbitrary: q)
  case (Cons op ops)
  then obtain zs where z: "list_apply op (rq_queue q) = Some zs" "retx_fits zs" "list_run ops zs = Some ys"
    by (auto split: option.splits if_splits)
  with Cons.prems obtain q1 where "retx_apply op q = Inr q1" "rq_queue q1 = zs" "retx_inv q1"
    using retx_apply_list by blast
  with Cons.IH [of q1] z(3) show ?case by simp
qed simp

text \<open>C27: After any sequence of pushes, pops, replacements of the front, removals by SN and clears on a new
  queue, the queue holds what the same operations on a list give, and its running totals (bytes, parts
  at offset zero, other parts) equal the totals recomputed from that list.\<close>

theorem retx_queue_totals:
  assumes "list_run ops [] = Some xs"
  shows "\<exists>q. retx_run ops rlc_retx_queue_init = Inr q \<and> rq_queue q = xs \<and>
    (unat (retx_bytes (rq_st q)), unat (n_retx_so_zero (rq_st q)), unat (n_retx_so_nonzero (rq_st q))) =
      retx_totals xs"
proof -
  have "list_run ops (rq_queue rlc_retx_queue_init) = Some xs"
    using assms by (simp add: rlc_retx_queue_init_def)
  from retx_run_list [OF retx_inv_init this] show ?thesis by (auto simp: retx_inv_def)
qed

theorem retx_queue_totals_witness:
  "\<exists>q. retx_run [Retx_push \<lparr>retx_sn = 3, retx_so = 0, retx_length = 10\<rparr>,
      Retx_push \<lparr>retx_sn = 4, retx_so = 5, retx_length = 20\<rparr>, Retx_remove 3] rlc_retx_queue_init = Inr q \<and>
    (unat (retx_bytes (rq_st q)), unat (n_retx_so_zero (rq_st q)), unat (n_retx_so_nonzero (rq_st q))) = (20, 0, 1)"
  using retx_queue_totals [of "[Retx_push \<lparr>retx_sn = 3, retx_so = 0, retx_length = 10\<rparr>,
      Retx_push \<lparr>retx_sn = 4, retx_so = 5, retx_length = 20\<rparr>, Retx_remove 3]"]
  by (simp add: retx_fits_def retx_totals_def)

end
