(* ===== verification/Circular_Map.thy ===== *)
theory Circular_Map
  imports Prelude
begin

text \<open>
  \<open>circular_map<uint32_t, T, N>\<close> (\<open>include/srsran/adt/circular_map.h\<close>): a map kept in an array of
  \<open>N\<close> slots in which a key has its place at \<open>key % N\<close>, so that two keys of the same residue exclude
  each other.  The arrays \<open>present\<close> and \<open>buffer\<close> are one function from slots to optional entries: a
  slot that is not present has no object.  \<open>N\<close>, a template parameter, is an argument.

  The locale \<open>slot_store\<close> states what the owners of such a map rely on, and proves what follows for
  sequences of operations; it is interpreted on the map's operations.
\<close>

record 'v circular_map =
  cm_slots :: "nat \<Rightarrow> (u32 \<times> 'v) option"
  cm_count :: nat

definition circular_map_init :: "'v circular_map" where
  "circular_map_init = \<lparr>cm_slots = (\<lambda>_. None), cm_count = 0\<rparr>"

definition cm_idx :: "nat \<Rightarrow> u32 \<Rightarrow> nat" where
  "cm_idx N key = unat key mod N"

definition cm_contains :: "nat \<Rightarrow> 'v circular_map \<Rightarrow> u32 \<Rightarrow> bool" where
  "cm_contains N m key =
    (case cm_slots m (cm_idx N key) of None \<Rightarrow> False | Some (k, _) \<Rightarrow> k = key)"

definition cm_insert :: "nat \<Rightarrow> u32 \<Rightarrow> 'v \<Rightarrow> 'v circular_map \<Rightarrow> bool \<times> 'v circular_map" where
  "cm_insert N key obj m =
    (let idx = cm_idx N key in
     if cm_slots m idx \<noteq> None then (False, m)
     else (True, m\<lparr>cm_slots := (cm_slots m)(idx := Some (key, obj)), cm_count := cm_count m + 1\<rparr>))"

definition cm_erase :: "nat \<Rightarrow> u32 \<Rightarrow> 'v circular_map \<Rightarrow> bool \<times> 'v circular_map" where
  "cm_erase N key m =
    (if \<not> cm_contains N m key then (False, m)
     else (True, m\<lparr>cm_slots := (cm_slots m)(cm_idx N key := None), cm_count := cm_count m - 1\<rparr>))"

definition cm_overwrite :: "nat \<Rightarrow> u32 \<Rightarrow> 'v \<Rightarrow> 'v circular_map \<Rightarrow> 'v circular_map" where
  "cm_overwrite N key obj m =
    (let m = (case cm_slots m (cm_idx N key) of None \<Rightarrow> m | Some (k, _) \<Rightarrow> snd (cm_erase N k m))
     in snd (cm_insert N key obj m))"

definition cm_clear :: "'v circular_map \<Rightarrow> 'v circular_map" where
  "cm_clear m = m\<lparr>cm_slots := (\<lambda>_. None), cm_count := 0\<rparr>"

text \<open>\<open>operator[]\<close> returns a reference: \<open>cm_get\<close> reads through it, \<open>cm_set\<close> writes through it.\<close>

definition cm_get :: "nat \<Rightarrow> 'v circular_map \<Rightarrow> u32 \<Rightarrow> 'v res" where
  "cm_get N m key =
    (case cm_slots m (cm_idx N key) of
       None \<Rightarrow> Inl Assertion_failed
     | Some (k, obj) \<Rightarrow> if k = key then Inr obj else Inl Assertion_failed)"

definition cm_set :: "nat \<Rightarrow> u32 \<Rightarrow> 'v \<Rightarrow> 'v circular_map \<Rightarrow> 'v circular_map res" where
  "cm_set N key obj m =
    (if cm_contains N m key then Inr (m\<lparr>cm_slots := (cm_slots m)(cm_idx N key := Some (key, obj))\<rparr>)
     else Inl Assertion_failed)"

definition cm_empty :: "'v circular_map \<Rightarrow> bool" where
  "cm_empty m \<longleftrightarrow> cm_count m = 0"

definition cm_full :: "nat \<Rightarrow> 'v circular_map \<Rightarrow> bool" where
  "cm_full N m \<longleftrightarrow> cm_count m = N"

definition cm_has_space :: "nat \<Rightarrow> 'v circular_map \<Rightarrow> u32 \<Rightarrow> bool" where
  "cm_has_space N m key \<longleftrightarrow> cm_slots m (cm_idx N key) = None"

section \<open>What the owners rely on\<close>

text \<open>
  A store that looks up by key: putting into a free place and removing change the lookup at that key
  only.
\<close>

locale slot_store =
  fixes ok :: "'m \<Rightarrow> bool"
    and look :: "'m \<Rightarrow> u32 \<Rightarrow> 'v option"
    and free :: "'m \<Rightarrow> u32 \<Rightarrow> bool"
    and put :: "u32 \<Rightarrow> 'v \<Rightarrow> 'm \<Rightarrow> 'm"
    and del :: "u32 \<Rightarrow> 'm \<Rightarrow> 'm"
    and count :: "'m \<Rightarrow> nat"
  assumes ok_put: "ok m \<Longrightarrow> ok (put k v m)"
    and ok_del: "ok m \<Longrightarrow> ok (del k m)"
    and look_put: "ok m \<Longrightarrow> free m k \<or> look m k \<noteq> None \<Longrightarrow>
      look (put k v m) = (look m)(k \<mapsto> v)"
    and look_del: "ok m \<Longrightarrow> look (del k m) = (look m)(k := None)"
    and count_look: "ok m \<Longrightarrow> finite (dom (look m)) \<and> count m = card (dom (look m))"
begin

lemma put_del:
  "ok m \<Longrightarrow> free m k \<Longrightarrow> look m k = None \<Longrightarrow> look (del k (put k v m)) = look m"
  by (simp add: ok_put look_put look_del fun_upd_idem)

lemma dom_del_all: "ok m \<Longrightarrow> look (fold del ks m) = (\<lambda>k. if k \<in> set ks then None else look m k)"
proof (induction ks arbitrary: m)
  case Nil
  then show ?case by simp
next
  case (Cons x ks)
  then have "look (fold del ks (del x m)) = (\<lambda>k. if k \<in> set ks then None else look (del x m) k)"
    by (simp add: ok_del)
  with Cons.prems show ?case by (auto simp: look_del)
qed

lemma count_put_new:
  "ok m \<Longrightarrow> free m k \<Longrightarrow> look m k = None \<Longrightarrow> count (put k v m) = Suc (count m)"
  using count_look [of m] count_look [of "put k v m"]
  by (auto simp: ok_put look_put card_insert_if)

lemma count_del_old: "ok m \<Longrightarrow> look m k = Some v \<Longrightarrow> Suc (count (del k m)) = count m"
proof -
  assume "ok m" "look m k = Some v"
  then have "k \<in> dom (look m)" "count (del k m) = card (dom (look m) - {k})"
    using count_look [of "del k m"] by (auto simp: ok_del look_del)
  then show ?thesis
    using count_look [OF \<open>ok m\<close>] by (metis card_Suc_Diff1)
qed

end

section \<open>The map as such a store\<close>

definition cm_lookup :: "nat \<Rightarrow> 'v circular_map \<Rightarrow> u32 \<Rightarrow> 'v option" where
  "cm_lookup N m key =
    (case cm_slots m (cm_idx N key) of
       None \<Rightarrow> None
     | Some (k, obj) \<Rightarrow> if k = key then Some obj else None)"

definition cm_used :: "'v circular_map \<Rightarrow> nat set" where
  "cm_used m = {i. cm_slots m i \<noteq> None}"

lemma cm_used_upd [simp]:
  "cm_used (m\<lparr>cm_slots := (cm_slots m)(i := None), cm_count := c\<rparr>) = cm_used m - {i}"
  "cm_used (m\<lparr>cm_slots := (cm_slots m)(i := Some x), cm_count := c\<rparr>) = insert i (cm_used m)"
  "cm_used (m\<lparr>cm_slots := (cm_slots m)(i := Some x)\<rparr>) = insert i (cm_used m)"
  by (auto simp: cm_used_def)

definition cm_inv :: "nat \<Rightarrow> 'v circular_map \<Rightarrow> bool" where
  "cm_inv N m \<longleftrightarrow>
    (\<forall>i k v. cm_slots m i = Some (k, v) \<longrightarrow> i < N \<and> cm_idx N k = i) \<and>
    cm_count m = card (cm_used m)"

lemma cm_contains_lookup: "cm_contains N m k \<longleftrightarrow> cm_lookup N m k \<noteq> None"
  by (simp add: cm_contains_def cm_lookup_def split: option.split)

lemma cm_get_lookup:
  "cm_get N m k = (case cm_lookup N m k of None \<Rightarrow> Inl Assertion_failed | Some v \<Rightarrow> Inr v)"
  by (simp add: cm_get_def cm_lookup_def split: option.split)

lemma cm_inv_init [simp]: "cm_inv N circular_map_init"
  by (simp add: cm_inv_def circular_map_init_def cm_used_def)

lemma cm_lookup_init [simp]: "cm_lookup N circular_map_init k = None"
  by (simp add: cm_lookup_def circular_map_init_def)

lemma cm_used_less: "cm_inv N m \<Longrightarrow> cm_used m \<subseteq> {..<N}"
  by (auto simp: cm_inv_def cm_used_def)

lemma cm_used_finite: "cm_inv N m \<Longrightarrow> finite (cm_used m)"
  by (rule finite_subset [OF cm_used_less finite_lessThan])

lemma cm_erase_inv: "cm_inv N m \<Longrightarrow> cm_inv N (snd (cm_erase N k m))"
proof (cases "cm_contains N m k")
  case True
  assume inv: "cm_inv N m"
  have "cm_idx N k \<in> cm_used m"
    using True by (auto simp: cm_contains_def cm_used_def split: option.splits)
  then show ?thesis
    using inv True unfolding cm_inv_def by (simp add: cm_erase_def)
qed (simp add: cm_erase_def)

lemma cm_insert_inv:
  assumes "cm_inv N m" "0 < N"
  shows "cm_inv N (snd (cm_insert N k v m))"
proof (cases "cm_slots m (cm_idx N k) = None")
  case True
  then have "cm_idx N k \<notin> cm_used m" by (simp add: cm_used_def)
  moreover have "cm_idx N k < N" using assms(2) by (simp add: cm_idx_def)
  ultimately show ?thesis
    using assms(1) True cm_used_finite [OF assms(1)] unfolding cm_inv_def
    by (simp add: cm_insert_def Let_def)
qed (use assms in \<open>auto simp: cm_insert_def Let_def\<close>)

lemma cm_overwrite_inv: "cm_inv N m \<Longrightarrow> 0 < N \<Longrightarrow> cm_inv N (cm_overwrite N k v m)"
  by (auto simp: cm_overwrite_def Let_def cm_insert_inv cm_erase_inv split: option.split)

lemma cm_lookup_erase:
  assumes "cm_inv N m"
  shows "cm_lookup N (snd (cm_erase N k m)) = (cm_lookup N m)(k := None)"
proof
  fix k'
  show "cm_lookup N (snd (cm_erase N k m)) k' = ((cm_lookup N m)(k := None)) k'"
    by (auto simp: cm_lookup_def cm_erase_def cm_contains_def split: option.splits)
qed

lemma cm_overwrite_slots:
  assumes "cm_has_space N m k \<or> cm_lookup N m k \<noteq> None"
  shows "cm_slots (cm_overwrite N k v m) = (cm_slots m)(cm_idx N k := Some (k, v))"
proof (cases "cm_slots m (cm_idx N k)")
  case None
  then show ?thesis by (simp add: cm_overwrite_def cm_insert_def)
next
  case (Some a)
  with assms obtain v0 where s: "cm_slots m (cm_idx N k) = Some (k, v0)"
    by (cases a) (auto simp: cm_has_space_def cm_lookup_def split: if_splits)
  then show ?thesis by (simp add: cm_overwrite_def cm_insert_def cm_erase_def cm_contains_def)
qed

lemma cm_lookup_upd:
  assumes s: "cm_slots m' = (cm_slots m)(cm_idx N k := Some (k, v))"
    and "cm_has_space N m k \<or> cm_lookup N m k \<noteq> None"
  shows "cm_lookup N m' = (cm_lookup N m)(k \<mapsto> v)"
proof
  fix k'
  show "cm_lookup N m' k' = ((cm_lookup N m)(k \<mapsto> v)) k'"
  proof (cases "cm_idx N k' = cm_idx N k")
    case True
    with assms(2) have "k' \<noteq> k \<Longrightarrow> cm_lookup N m k' = None"
      by (auto simp: cm_lookup_def cm_has_space_def split: option.splits if_splits)
    with True show ?thesis by (auto simp: cm_lookup_def s)
  next
    case False
    then show ?thesis by (auto simp: cm_lookup_def s)
  qed
qed

lemma cm_lookup_overwrite:
  assumes "cm_has_space N m k \<or> cm_lookup N m k \<noteq> None"
  shows "cm_lookup N (cm_overwrite N k v m) = (cm_lookup N m)(k \<mapsto> v)"
  by (rule cm_lookup_upd [OF cm_overwrite_slots]) (fact assms)+

lemma cm_count_lookup:
  assumes inv: "cm_inv N m"
  shows "finite (dom (cm_lookup N m)) \<and> cm_count m = card (dom (cm_lookup N m))"
proof -
  let ?S = "cm_used m"
  have dom: "dom (cm_lookup N m) = (\<lambda>i. fst (the (cm_slots m i))) ` ?S"
  proof (intro set_eqI iffI)
    fix k assume "k \<in> dom (cm_lookup N m)"
    then obtain v where "cm_slots m (cm_idx N k) = Some (k, v)"
      by (auto simp: cm_lookup_def split: option.splits if_splits)
    then show "k \<in> (\<lambda>i. fst (the (cm_slots m i))) ` ?S"
      by (intro image_eqI [of _ _ "cm_idx N k"]) (simp_all add: cm_used_def)
  next
    fix k assume "k \<in> (\<lambda>i. fst (the (cm_slots m i))) ` ?S"
    then obtain i v where "cm_slots m i = Some (k, v)" by (auto simp: cm_used_def)
    moreover from this inv have "cm_idx N k = i" unfolding cm_inv_def by blast
    ultimately show "k \<in> dom (cm_lookup N m)" by (simp add: cm_lookup_def dom_def)
  qed
  have "inj_on (\<lambda>i. fst (the (cm_slots m i))) ?S"
  proof (rule inj_onI)
    fix i j
    assume ij: "i \<in> ?S" "j \<in> ?S" "fst (the (cm_slots m i)) = fst (the (cm_slots m j))"
    then obtain k v w where "cm_slots m i = Some (k, v)" "cm_slots m j = Some (k, w)"
      by (auto simp: cm_used_def)
    with inv show "i = j" unfolding cm_inv_def by metis
  qed
  then show ?thesis
    using inv cm_used_finite [OF inv] by (simp add: dom card_image cm_inv_def)
qed

text \<open>The number of slots is positive in both instances of the template.\<close>

definition cm_ok :: "nat \<Rightarrow> 'v circular_map \<Rightarrow> bool" where
  "cm_ok N m \<longleftrightarrow> 0 < N \<and> cm_inv N m"

interpretation cm: slot_store "cm_ok N" "cm_lookup N" "cm_has_space N" "cm_overwrite N"
  "\<lambda>k m. snd (cm_erase N k m)" cm_count for N
proof
  show "cm_ok N m \<Longrightarrow> finite (dom (cm_lookup N m)) \<and> cm_count m = card (dom (cm_lookup N m))" for m
    by (rule cm_count_lookup) (simp add: cm_ok_def)
qed (simp_all only: cm_ok_def cm_overwrite_inv cm_erase_inv cm_lookup_overwrite cm_lookup_erase)

lemma cm_set_lookup:
  assumes "cm_set N k v m = Inr m'" "cm_ok N m"
  shows "cm_lookup N m' = (cm_lookup N m)(k \<mapsto> v)" "cm_ok N m'"
proof -
  have c: "cm_contains N m k" "m' = m\<lparr>cm_slots := (cm_slots m)(cm_idx N k := Some (k, v))\<rparr>"
    using assms by (auto simp: cm_set_def split: if_splits)
  then show "cm_lookup N m' = (cm_lookup N m)(k \<mapsto> v)"
    by (intro cm_lookup_upd) (simp_all add: cm_contains_lookup)
  obtain v0 where s: "cm_slots m (cm_idx N k) = Some (k, v0)"
    using c(1) by (auto simp: cm_contains_def split: option.splits)
  then have "cm_used m' = cm_used m" by (auto simp: c(2) cm_used_def)
  moreover have "cm_idx N k < N" using assms(2) by (simp add: cm_ok_def cm_idx_def)
  ultimately show "cm_ok N m'"
    using assms(2) unfolding cm_ok_def cm_inv_def by (simp add: c(2))
qed

lemma cm_count_le: "cm_ok N m \<Longrightarrow> cm_count m \<le> N"
  using card_mono [OF _ cm_used_less, of N m] by (simp add: cm_ok_def cm_inv_def)

lemma cm_full_no_space: "cm_ok N m \<Longrightarrow> cm_full N m \<Longrightarrow> \<not> cm_has_space N m k"
proof -
  assume ok: "cm_ok N m" and full: "cm_full N m"
  then have "cm_used m \<subseteq> {..<N}" "card (cm_used m) = N"
    using cm_used_less [of N m] by (simp_all add: cm_ok_def cm_inv_def cm_full_def)
  then have "cm_used m = {..<N}" by (simp add: card_subset_eq)
  moreover have "cm_idx N k < N" using ok by (simp add: cm_ok_def cm_idx_def)
  ultimately show ?thesis by (auto simp: cm_has_space_def cm_used_def)
qed

section \<open>Sequence numbers of a window\<close>

context sn_space
begin

lemma same_slot_eq:
  assumes "unat k mod unat W = unat k' mod unat W" "sn_off md b k < unat W" "sn_off md b k' < unat W"
    "k < md" "k' < md"
  shows "k = k'"
proof -
  have dvd: "int (unat W) dvd int (unat md)" using md_double by simp
  have "(uint x - uint b) mod int (unat W) = int (sn_off md b x)" if "sn_off md b x < unat W" for x
  proof -
    have "int (sn_off md b x) mod int (unat W) = (uint x - uint b) mod int (unat W)"
      by (simp only: int_off mod_mod_cancel [OF dvd])
    moreover have "int (sn_off md b x) mod int (unat W) = int (sn_off md b x)"
      using that by (simp only: mod_less flip: of_nat_mod)
    ultimately show ?thesis by simp
  qed
  moreover have "(uint k - uint b) mod int (unat W) = (uint k' - uint b) mod int (unat W)"
  proof (rule mod_diff_cong)
    show "uint k mod int (unat W) = uint k' mod int (unat W)"
      using assms(1) by (metis of_nat_mod uint_nat)
  qed simp
  ultimately have "sn_off md b k = sn_off md b k'" using assms by simp
  with assms show ?thesis by (intro off_inj)
qed

text \<open>A map of as many slots as the window has SNs has a place for every SN of the window.\<close>

lemma window_has_space:
  assumes "cm_ok (unat W) m" "\<And>k. k \<in> dom (cm_lookup (unat W) m) \<Longrightarrow> k < md \<and> sn_off md b k < unat W"
    "sn < md" "sn_off md b sn < unat W" "cm_lookup (unat W) m sn = None"
  shows "cm_has_space (unat W) m sn"
proof (rule ccontr)
  assume "\<not> cm_has_space (unat W) m sn"
  then obtain k v where s: "cm_slots m (cm_idx (unat W) sn) = Some (k, v)"
    by (auto simp: cm_has_space_def)
  with assms(1) have i: "cm_idx (unat W) k = cm_idx (unat W) sn" by (auto simp: cm_ok_def cm_inv_def)
  with s have "k \<in> dom (cm_lookup (unat W) m)" by (auto simp: cm_lookup_def)
  with assms i have "k = sn"
    by (intro same_slot_eq [of k sn b]) (auto simp: cm_idx_def)
  with s assms(5) show False by (simp add: cm_lookup_def)
qed

end

end
