(* ===== verification/Rlc_Am_Window.thy ===== *)
theory Rlc_Am_Window
  imports Circular_Map Rlc_Config
begin

text \<open>
  The SN window of RLC AM (\<open>lib/rlc/rlc_am_window.h\<close>): a circular map with as many slots as the
  window has SNs, whose operations fail on an SN that is already present or missing.  Both entities
  use it through the lemmas below, which speak of the lookup function alone: with all SNs inside the
  window, adding and removing behave as on a partial map.
\<close>

type_synonym 'v am_win = "'v circular_map"

definition win_slots :: "rlc_am_sn_size \<Rightarrow> nat" where
  "win_slots sz = unat (am_window sz)"

definition win_has_sn :: "rlc_am_sn_size \<Rightarrow> 'v am_win \<Rightarrow> u32 \<Rightarrow> bool" where
  "win_has_sn sz w sn = cm_contains (win_slots sz) w sn"

definition win_add_sn :: "rlc_am_sn_size \<Rightarrow> u32 \<Rightarrow> 'v \<Rightarrow> 'v am_win \<Rightarrow> 'v am_win res" where
  "win_add_sn sz sn obj w =
    (if win_has_sn sz w sn then Inl Assertion_failed else Inr (cm_overwrite (win_slots sz) sn obj w))"

definition win_remove_sn :: "rlc_am_sn_size \<Rightarrow> u32 \<Rightarrow> 'v am_win \<Rightarrow> 'v am_win res" where
  "win_remove_sn sz sn w =
    (if \<not> win_has_sn sz w sn then Inl Assertion_failed else Inr (snd (cm_erase (win_slots sz) sn w)))"

definition win_get :: "rlc_am_sn_size \<Rightarrow> 'v am_win \<Rightarrow> u32 \<Rightarrow> 'v res" where
  "win_get sz w sn = cm_get (win_slots sz) w sn"

definition win_set :: "rlc_am_sn_size \<Rightarrow> u32 \<Rightarrow> 'v \<Rightarrow> 'v am_win \<Rightarrow> 'v am_win res" where
  "win_set sz sn obj w = cm_set (win_slots sz) sn obj w"

definition win_full :: "rlc_am_sn_size \<Rightarrow> 'v am_win \<Rightarrow> bool" where
  "win_full sz w = cm_full (win_slots sz) w"

section \<open>The window as a partial map\<close>

definition win_look :: "rlc_am_sn_size \<Rightarrow> 'v am_win \<Rightarrow> u32 \<Rightarrow> 'v option" where
  "win_look sz w = cm_lookup (win_slots sz) w"

text \<open>\<open>win_ok sz b w\<close>: the map is well formed and its SNs lie in the window that starts at \<open>b\<close>.\<close>

definition win_ok :: "rlc_am_sn_size \<Rightarrow> u32 \<Rightarrow> 'v am_win \<Rightarrow> bool" where
  "win_ok sz b w \<longleftrightarrow>
    cm_ok (win_slots sz) w \<and>
    (\<forall>sn \<in> dom (win_look sz w). sn < am_mod sz \<and> sn_off (am_mod sz) b sn < win_slots sz)"

lemma win_slots_pos [simp]: "0 < win_slots sz"
  using am.W_pos [of sz] by (simp only: win_slots_def)

lemma win_init [simp]: "win_look sz circular_map_init sn = None" "win_ok sz b circular_map_init"
  by (simp_all add: win_look_def win_ok_def cm_ok_def dom_def)

lemma win_has_look: "win_has_sn sz w sn \<longleftrightarrow> win_look sz w sn \<noteq> None"
  by (simp only: win_has_sn_def win_look_def cm_contains_lookup)

lemma win_get_look:
  "win_get sz w sn = (case win_look sz w sn of None \<Rightarrow> Inl Assertion_failed | Some v \<Rightarrow> Inr v)"
  by (simp only: win_get_def win_look_def cm_get_lookup)

lemma win_add_ok:
  assumes ok: "win_ok sz b w" and new: "win_look sz w sn = None"
    and sn: "sn < am_mod sz" "sn_off (am_mod sz) b sn < win_slots sz"
  shows "\<exists>w'. win_add_sn sz sn v w = Inr w' \<and> win_look sz w' = (win_look sz w)(sn \<mapsto> v) \<and> win_ok sz b w'"
proof -
  have "cm_has_space (win_slots sz) w sn"
    unfolding win_slots_def
  proof (rule sn_space.window_has_space [OF am_sn_space, where b = b])
    show "cm_ok (unat (am_window sz)) w" using ok by (simp add: win_ok_def win_slots_def)
    show "k \<in> dom (cm_lookup (unat (am_window sz)) w) \<Longrightarrow>
        k < am_mod sz \<and> sn_off (am_mod sz) b k < unat (am_window sz)" for k
      using ok unfolding win_ok_def win_look_def win_slots_def by blast
  qed (use sn new in \<open>simp_all add: win_slots_def win_look_def\<close>)
  then have look: "win_look sz (cm_overwrite (win_slots sz) sn v w) = (win_look sz w)(sn \<mapsto> v)"
    using ok unfolding win_look_def by (intro cm.look_put) (simp_all add: win_ok_def)
  have "win_ok sz b (cm_overwrite (win_slots sz) sn v w)"
    using ok sn unfolding win_ok_def look by (simp add: cm.ok_put)
  with look new show ?thesis by (simp add: win_add_sn_def win_has_look)
qed

lemma win_set_ok:
  assumes ok: "win_ok sz b w" and old: "win_look sz w sn = Some v0"
  shows "\<exists>w'. win_set sz sn v w = Inr w' \<and> win_look sz w' = (win_look sz w)(sn \<mapsto> v) \<and> win_ok sz b w'"
proof -
  obtain w' where s: "win_set sz sn v w = Inr w'"
    using old by (simp add: win_set_def cm_set_def cm_contains_lookup win_look_def)
  have "cm_ok (win_slots sz) w" using ok by (simp add: win_ok_def)
  note l = cm_set_lookup [OF s [unfolded win_set_def] this]
  have "sn \<in> dom (win_look sz w)" using old by auto
  then have "win_ok sz b w'"
    using ok l by (auto simp: win_ok_def win_look_def)
  with s l(1) show ?thesis by (simp add: win_look_def)
qed

lemma win_remove_ok:
  assumes ok: "win_ok sz b w" and old: "win_look sz w sn = Some v0"
  shows "\<exists>w'. win_remove_sn sz sn w = Inr w' \<and> win_look sz w' = (win_look sz w)(sn := None) \<and> win_ok sz b w'"
proof -
  let ?w = "snd (cm_erase (win_slots sz) sn w)"
  have c: "cm_ok (win_slots sz) w" using ok by (simp add: win_ok_def)
  have l: "win_look sz ?w = (win_look sz w)(sn := None)"
    unfolding win_look_def by (rule cm.look_del [OF c])
  have "win_ok sz b ?w"
    using ok unfolding win_ok_def l by (auto intro: cm.ok_del)
  with l old show ?thesis by (simp add: win_remove_sn_def win_has_look)
qed

text \<open>The window moves up when the SNs below its new start are gone.\<close>

lemma win_ok_advance:
  assumes ok: "win_ok sz b w" and gone: "\<forall>sn \<in> dom (win_look sz w). sn_off (am_mod sz) b c \<le> sn_off (am_mod sz) b sn"
  shows "win_ok sz c w"
  unfolding win_ok_def
proof (intro conjI ballI)
  fix sn
  assume sn: "sn \<in> dom (win_look sz w)"
  with ok gone have o: "sn_off (am_mod sz) b c \<le> sn_off (am_mod sz) b sn"
    "sn_off (am_mod sz) b sn < win_slots sz" and "sn < am_mod sz"
    by (simp_all add: win_ok_def)
  then show "sn < am_mod sz" "sn_off (am_mod sz) c sn < win_slots sz"
    using am.off_rebase [of sz c sn b] by simp_all
qed (use ok in \<open>simp add: win_ok_def\<close>)

text \<open>Evaluation: the slot of an SN computed on machine words.\<close>

lemma cm_idx_word: "cm_idx (win_slots sz) sn = unat (sn mod am_window sz)"
  by (simp only: cm_idx_def win_slots_def unat_mod)

lemma win_has_sn_code [code]:
  "win_has_sn sz w sn =
    (case cm_slots w (unat (sn mod am_window sz)) of None \<Rightarrow> False | Some (k, _) \<Rightarrow> k = sn)"
  by (simp only: win_has_sn_def cm_contains_def cm_idx_word)

lemma win_get_code [code]:
  "win_get sz w sn =
    (case cm_slots w (unat (sn mod am_window sz)) of
       None \<Rightarrow> Inl Assertion_failed
     | Some (k, obj) \<Rightarrow> if k = sn then Inr obj else Inl Assertion_failed)"
  by (simp only: win_get_def cm_get_def cm_idx_word)

lemma win_set_code [code]:
  "win_set sz sn obj w =
    (if win_has_sn sz w sn
     then Inr (w\<lparr>cm_slots := (cm_slots w)(unat (sn mod am_window sz) := Some (sn, obj))\<rparr>)
     else Inl Assertion_failed)"
  by (simp only: win_set_def cm_set_def win_has_sn_def cm_idx_word)

lemma win_remove_sn_code [code]:
  "win_remove_sn sz sn w =
    (if \<not> win_has_sn sz w sn then Inl Assertion_failed
     else Inr (w\<lparr>cm_slots := (cm_slots w)(unat (sn mod am_window sz) := None), cm_count := cm_count w - 1\<rparr>))"
  by (simp add: win_remove_sn_def cm_erase_def win_has_sn_def cm_idx_word)

lemma win_add_sn_code [code]:
  "win_add_sn sz sn obj w =
    (if win_has_sn sz w sn then Inl Assertion_failed
     else
       let idx = unat (sn mod am_window sz);
           w = (case cm_slots w idx of
                  None \<Rightarrow> w
                | Some (k, _) \<Rightarrow>
                    if win_has_sn sz w k
                    then w\<lparr>cm_slots := (cm_slots w)(unat (k mod am_window sz) := None), cm_count := cm_count w - 1\<rparr>
                    else w)
       in Inr (if cm_slots w idx \<noteq> None then w
               else w\<lparr>cm_slots := (cm_slots w)(idx := Some (sn, obj)), cm_count := cm_count w + 1\<rparr>))"
proof (cases "cm_slots w (unat (sn mod am_window sz))")
  case None
  then show ?thesis
    by (simp add: win_add_sn_def cm_overwrite_def cm_insert_def win_has_sn_def cm_idx_word)
next
  case (Some kv)
  obtain k v where "kv = (k, v)" by (cases kv)
  with Some show ?thesis
    by (cases "cm_contains (win_slots sz) w k")
      (simp_all add: win_add_sn_def cm_overwrite_def cm_insert_def cm_erase_def win_has_sn_def cm_idx_word Let_def)
qed

end
