(* ===== verification/Rlc_Am_Status.thy ===== *)
theory Rlc_Am_Status
  imports Rlc_Am_Pdu
begin

text \<open>
  Status PDUs of RLC AM (class \<open>rlc_am_status_pdu\<close> of \<open>lib/rlc/rlc_am_pdu.h\<close> and
  \<open>rlc_am_pdu.cpp\<close>): the list of NACKs with the merging of consecutive ones, the packed size kept
  in step with it, trimming to a grant, and packing and unpacking for both SN lengths.

  The lemmas show that the stored packed size is the number of bytes packed, that a status built with
  \<open>push_nack\<close> is read back as it was packed, which bytes a merged NACK reports, and what trimming
  gives up.
\<close>

section \<open>Constants and types\<close>

definition rlc_am_nr_status_pdu_sizeof_header_ack_sn :: u32 where
  "rlc_am_nr_status_pdu_sizeof_header_ack_sn = 3"

definition rlc_am_nr_status_pdu_sizeof_nack_sn_ext_12bit_sn :: u32 where
  "rlc_am_nr_status_pdu_sizeof_nack_sn_ext_12bit_sn = 2"

definition rlc_am_nr_status_pdu_sizeof_nack_sn_ext_18bit_sn :: u32 where
  "rlc_am_nr_status_pdu_sizeof_nack_sn_ext_18bit_sn = 3"

definition rlc_am_nr_status_pdu_sizeof_nack_so :: u32 where
  "rlc_am_nr_status_pdu_sizeof_nack_so = 4"

definition rlc_am_nr_status_pdu_sizeof_nack_range :: u32 where
  "rlc_am_nr_status_pdu_sizeof_nack_range = 1"

lemmas status_sizes =
  rlc_am_nr_status_pdu_sizeof_header_ack_sn_def rlc_am_nr_status_pdu_sizeof_nack_sn_ext_12bit_sn_def
  rlc_am_nr_status_pdu_sizeof_nack_sn_ext_18bit_sn_def rlc_am_nr_status_pdu_sizeof_nack_so_def
  rlc_am_nr_status_pdu_sizeof_nack_range_def

definition so_end_of_sdu :: u16 where
  "so_end_of_sdu = 0xffff"

record rlc_am_status_nack =
  nack_sn :: u32
  has_so :: bool
  so_start :: u16
  so_end :: u16
  has_nack_range :: bool
  nack_range :: u8

definition rlc_am_status_nack_init :: rlc_am_status_nack where
  "rlc_am_status_nack_init =
    \<lparr>nack_sn = 0, has_so = False, so_start = 0, so_end = so_end_of_sdu, has_nack_range = False,
     nack_range = 0\<rparr>"

text \<open>The control PDU type is kept as the number read; \<open>status_pdu\<close> is its only named value.\<close>

definition status_pdu_cpt :: u8 where
  "status_pdu_cpt = 0"

record rlc_am_status_pdu =
  sp_sn_size :: rlc_am_sn_size
  sp_nacks :: "rlc_am_status_nack list"
  sp_packed_size :: u32
  sp_cpt :: u8
  sp_ack_sn :: u32

definition rlc_am_status_pdu_init :: "rlc_am_sn_size \<Rightarrow> rlc_am_status_pdu" where
  "rlc_am_status_pdu_init sn_size =
    \<lparr>sp_sn_size = sn_size, sp_nacks = [], sp_packed_size = rlc_am_nr_status_pdu_sizeof_header_ack_sn,
     sp_cpt = status_pdu_cpt, sp_ack_sn = INVALID_RLC_SN\<rparr>"

definition mod_nr :: "rlc_am_status_pdu \<Rightarrow> u32" where
  "mod_nr s = am_mod (sp_sn_size s)"

section \<open>Operations\<close>

definition status_reset :: "rlc_am_status_pdu \<Rightarrow> rlc_am_status_pdu" where
  "status_reset s =
    s\<lparr>sp_cpt := status_pdu_cpt, sp_ack_sn := INVALID_RLC_SN, sp_nacks := [],
      sp_packed_size := rlc_am_nr_status_pdu_sizeof_header_ack_sn\<rparr>"

definition is_continuous_sequence ::
  "rlc_am_status_pdu \<Rightarrow> rlc_am_status_nack \<Rightarrow> rlc_am_status_nack \<Rightarrow> bool" where
  "is_continuous_sequence s left right =
    (if nack_sn right \<noteq>
        (if has_nack_range left then nack_sn left + ucast (nack_range left) else nack_sn left + 1) mod
        mod_nr s
     then False
     else if has_so left \<and> so_end left \<noteq> so_end_of_sdu then False
     else if has_so right \<and> so_start right \<noteq> 0 then False
     else True)"

definition nack_size :: "rlc_am_sn_size \<Rightarrow> rlc_am_status_nack \<Rightarrow> u32" where
  "nack_size sn_size nack =
    (let result = (if sn_size = Am_size12bits then rlc_am_nr_status_pdu_sizeof_nack_sn_ext_12bit_sn
                   else rlc_am_nr_status_pdu_sizeof_nack_sn_ext_18bit_sn);
         result = (if has_so nack then result + rlc_am_nr_status_pdu_sizeof_nack_so else result)
     in if has_nack_range nack then result + rlc_am_nr_status_pdu_sizeof_nack_range else result)"

definition expand_nack_range ::
  "rlc_am_status_nack \<Rightarrow> rlc_am_status_nack \<Rightarrow> rlc_am_status_nack" where
  "expand_nack_range prev nack =
    (if has_nack_range nack then
       if has_nack_range prev then prev\<lparr>nack_range := nack_range prev + nack_range nack\<rparr>
       else prev\<lparr>nack_range := nack_range nack + 1, has_nack_range := True\<rparr>
     else
       if has_nack_range prev then prev\<lparr>nack_range := nack_range prev + 1\<rparr>
       else prev\<lparr>nack_range := 2, has_nack_range := True\<rparr>)"

definition expand_nack_so ::
  "rlc_am_status_nack \<Rightarrow> rlc_am_status_nack \<Rightarrow> rlc_am_status_nack" where
  "expand_nack_so prev nack =
    (if has_so nack then
       (if has_so prev then prev else prev\<lparr>has_so := True, so_start := 0\<rparr>)\<lparr>so_end := so_end nack\<rparr>
     else if has_so prev then prev\<lparr>so_end := so_end_of_sdu\<rparr>
     else prev)"

definition push_nack :: "rlc_am_status_pdu \<Rightarrow> rlc_am_status_nack \<Rightarrow> rlc_am_status_pdu" where
  "push_nack s nack =
    (if sp_nacks s = [] then
       s\<lparr>sp_nacks := sp_nacks s @ [nack], sp_packed_size := sp_packed_size s + nack_size (sp_sn_size s) nack\<rparr>
     else
       let prev = last (sp_nacks s) in
       if \<not> is_continuous_sequence s prev nack then
         s\<lparr>sp_nacks := sp_nacks s @ [nack],
           sp_packed_size := sp_packed_size s + nack_size (sp_sn_size s) nack\<rparr>
       else
         let packed = sp_packed_size s - nack_size (sp_sn_size s) prev;
             prev' = expand_nack_so (expand_nack_range prev nack) nack
         in s\<lparr>sp_nacks := butlast (sp_nacks s) @ [prev'],
              sp_packed_size := packed + nack_size (sp_sn_size s) prev'\<rparr>)"

function trim_loop :: "u32 \<Rightarrow> rlc_am_status_pdu \<Rightarrow> rlc_am_status_pdu" where
  "trim_loop max_packed_size s =
    (if sp_nacks s \<noteq> [] \<and>
        (max_packed_size < sp_packed_size s \<or> nack_sn (last (sp_nacks s)) = sp_ack_sn s)
     then trim_loop max_packed_size
       (s\<lparr>sp_packed_size := sp_packed_size s - nack_size (sp_sn_size s) (last (sp_nacks s)),
          sp_ack_sn := nack_sn (last (sp_nacks s)), sp_nacks := butlast (sp_nacks s)\<rparr>)
     else s)"
  by pat_completeness auto
termination
  by (relation "measure (\<lambda>(m, s). length (sp_nacks s))") auto

declare trim_loop.simps [simp del]

definition status_trim :: "rlc_am_status_pdu \<Rightarrow> u32 \<Rightarrow> bool \<times> rlc_am_status_pdu" where
  "status_trim s max_packed_size =
    (if sp_packed_size s \<le> max_packed_size then (True, s)
     else if max_packed_size < rlc_am_nr_status_pdu_sizeof_header_ack_sn then (False, s)
     else (True, trim_loop max_packed_size s))"

definition refresh_packed_size :: "rlc_am_status_pdu \<Rightarrow> rlc_am_status_pdu" where
  "refresh_packed_size s =
    s\<lparr>sp_packed_size := fold (\<lambda>nack p. p + nack_size (sp_sn_size s) nack) (sp_nacks s)
       rlc_am_nr_status_pdu_sizeof_header_ack_sn\<rparr>"

section \<open>Unpacking\<close>

definition is_control_pdu :: "bytes \<Rightarrow> bool res" where
  "is_control_pdu pdu =
    (case pdu of [] \<Rightarrow> Inl Invalid_access
     | b # _ \<Rightarrow> Inr (drop_bit 7 b AND 0x01 = dc_to_number Dc_control))"

text \<open>The optional fields of a NACK; \<open>None\<close> stands for too short an input.\<close>

definition unpack_nack_so :: "u8 \<Rightarrow> rlc_am_status_nack \<Rightarrow> bytes \<Rightarrow> (rlc_am_status_nack \<times> bytes) option" where
  "unpack_nack_so e2 nack reader =
    (if e2 \<noteq> 0 then
       (case reader of
          b0 # b1 # b2 # b3 # reader' \<Rightarrow>
            Some (nack\<lparr>has_so := True, so_start := push_bit 8 (ucast b0) OR ucast b1,
                       so_end := push_bit 8 (ucast b2) OR ucast b3\<rparr>, reader')
        | _ \<Rightarrow> None)
     else Some (nack, reader))"

definition unpack_nack_range ::
  "u8 \<Rightarrow> rlc_am_status_nack \<Rightarrow> bytes \<Rightarrow> (rlc_am_status_nack \<times> bytes) option" where
  "unpack_nack_range e3 nack reader =
    (if e3 \<noteq> 0 then
       (case reader of
          b0 # reader' \<Rightarrow> Some (nack\<lparr>has_nack_range := True, nack_range := b0\<rparr>, reader')
        | _ \<Rightarrow> None)
     else Some (nack, reader))"

definition unpack_nack_fields ::
  "u8 \<Rightarrow> u8 \<Rightarrow> rlc_am_status_nack \<Rightarrow> bytes \<Rightarrow> (rlc_am_status_nack \<times> bytes) option" where
  "unpack_nack_fields e2 e3 nack reader =
    (case unpack_nack_so e2 nack reader of
       None \<Rightarrow> None
     | Some (nack', reader') \<Rightarrow> unpack_nack_range e3 nack' reader')"

lemma unpack_nack_fields_length:
  "unpack_nack_fields e2 e3 nack reader = Some (nack', reader') \<Longrightarrow> length reader' \<le> length reader"
  by (auto simp: unpack_nack_fields_def unpack_nack_so_def unpack_nack_range_def
      split: option.splits list.splits if_splits)

function unpack_nacks_12bit ::
  "u8 \<Rightarrow> rlc_am_status_pdu \<Rightarrow> bytes \<Rightarrow> bool \<times> rlc_am_status_pdu" where
  "unpack_nacks_12bit e1 s reader =
    (if e1 \<noteq> 0 then
       (case reader of
          b0 # b1 # reader' \<Rightarrow>
            (let nack = rlc_am_status_nack_init\<lparr>nack_sn := push_bit 4 (ucast (b0 AND 0xff))\<rparr>;
                 e1' = b1 AND 0x08; e2 = b1 AND 0x04; e3 = b1 AND 0x02 in
             if b1 AND 0x01 \<noteq> 0 then (False, s)
             else
               let nack = nack\<lparr>nack_sn := nack_sn nack OR ucast (drop_bit 4 (b1 AND 0xf0))\<rparr> in
               case unpack_nack_fields e2 e3 nack reader' of
                 None \<Rightarrow> (False, s)
               | Some (nack', reader'') \<Rightarrow> unpack_nacks_12bit e1' (push_nack s nack') reader'')
        | _ \<Rightarrow> (False, s))
     else (True, s))"
  by pat_completeness auto
termination
  by (relation "measure (\<lambda>(e1, s, reader). length reader)")
    (auto dest!: sym [of "Some _"] unpack_nack_fields_length)

declare unpack_nacks_12bit.simps [simp del]

function unpack_nacks_18bit ::
  "u8 \<Rightarrow> rlc_am_status_pdu \<Rightarrow> bytes \<Rightarrow> bool \<times> rlc_am_status_pdu" where
  "unpack_nacks_18bit e1 s reader =
    (if e1 \<noteq> 0 then
       (case reader of
          b0 # b1 # b2 # reader' \<Rightarrow>
            (let nack = rlc_am_status_nack_init\<lparr>nack_sn :=
                   push_bit 10 (ucast (b0 AND 0xff)) OR push_bit 2 (ucast (b1 AND 0xff)) OR
                   ucast (drop_bit 6 (b2 AND 0xc0))\<rparr>;
                 e1' = b2 AND 0x20; e2 = b2 AND 0x10; e3 = b2 AND 0x08 in
             if b2 AND 0x07 \<noteq> 0 then (False, s)
             else
               case unpack_nack_fields e2 e3 nack reader' of
                 None \<Rightarrow> (False, s)
               | Some (nack', reader'') \<Rightarrow> unpack_nacks_18bit e1' (push_nack s nack') reader'')
        | _ \<Rightarrow> (False, s))
     else (True, s))"
  by pat_completeness auto
termination
  by (relation "measure (\<lambda>(e1, s, reader). length reader)")
    (auto dest!: sym [of "Some _"] unpack_nack_fields_length)

declare unpack_nacks_18bit.simps [simp del]

definition unpack_12bit :: "rlc_am_status_pdu \<Rightarrow> bytes \<Rightarrow> bool \<times> rlc_am_status_pdu" where
  "unpack_12bit s pdu =
    (case pdu of
       b0 # b1 # b2 # reader \<Rightarrow>
         (if is_control_pdu pdu \<noteq> Inr True then (False, s)
          else
            let s = status_reset s;
                s = s\<lparr>sp_cpt := drop_bit 4 b0 AND 0x07\<rparr> in
            if sp_cpt s \<noteq> status_pdu_cpt then (False, s)
            else
              let s = s\<lparr>sp_ack_sn := push_bit 8 (ucast (b0 AND 0x0f)) OR ucast (b1 AND 0xff)\<rparr>;
                  e1 = b2 AND 0x80 in
              if b2 AND 0x7f \<noteq> 0 then (False, s)
              else unpack_nacks_12bit e1 s reader)
     | _ \<Rightarrow> (False, s))"

definition unpack_18bit :: "rlc_am_status_pdu \<Rightarrow> bytes \<Rightarrow> bool \<times> rlc_am_status_pdu" where
  "unpack_18bit s pdu =
    (case pdu of
       b0 # b1 # b2 # reader \<Rightarrow>
         (if is_control_pdu pdu \<noteq> Inr True then (False, s)
          else
            let s = status_reset s;
                s = s\<lparr>sp_cpt := drop_bit 4 b0 AND 0x07\<rparr> in
            if sp_cpt s \<noteq> status_pdu_cpt then (False, s)
            else
              let s = s\<lparr>sp_ack_sn := push_bit 14 (ucast (b0 AND 0x0f)) OR push_bit 6 (ucast (b1 AND 0xff)) OR
                           ucast (drop_bit 2 (b2 AND 0xfc))\<rparr>;
                  e1 = b2 AND 0x02 in
              if b2 AND 0x01 \<noteq> 0 then (False, s)
              else unpack_nacks_18bit e1 s reader)
     | _ \<Rightarrow> (False, s))"

definition status_unpack :: "rlc_am_status_pdu \<Rightarrow> bytes \<Rightarrow> bool \<times> rlc_am_status_pdu" where
  "status_unpack s pdu =
    (case sp_sn_size s of
       Am_size12bits \<Rightarrow> unpack_12bit s pdu
     | Am_size18bits \<Rightarrow> unpack_18bit s pdu)"

section \<open>Packing\<close>

definition pack_nack_so :: "rlc_am_status_nack \<Rightarrow> bytes" where
  "pack_nack_so n =
    (if has_so n
     then [ucast (drop_bit 8 (so_start n)), ucast (so_start n), ucast (drop_bit 8 (so_end n)), ucast (so_end n)]
     else [])"

definition pack_nack_range :: "rlc_am_status_nack \<Rightarrow> bytes" where
  "pack_nack_range n = (if has_nack_range n then [nack_range n] else [])"

text \<open>One round of the NACK loops; \<open>further\<close> is the condition \<open>i < nacks.size() - 1\<close>.\<close>

definition pack_nack_12bit :: "bool \<Rightarrow> rlc_am_status_nack \<Rightarrow> bytes" where
  "pack_nack_12bit further n =
    (let b = ucast (push_bit 4 (nack_sn n AND 0x0f));
         b = (if further then b OR 0x08 else b);
         b = (if has_so n then b OR 0x04 else b);
         b = (if has_nack_range n then b OR 0x02 else b)
     in [ucast (drop_bit 4 (nack_sn n) AND 0xff), b] @ pack_nack_so n @ pack_nack_range n)"

definition pack_nack_18bit :: "bool \<Rightarrow> rlc_am_status_nack \<Rightarrow> bytes" where
  "pack_nack_18bit further n =
    (let b = ucast (push_bit 6 (nack_sn n) AND 0xc0);
         b = (if further then b OR 0x20 else b);
         b = (if has_so n then b OR 0x10 else b);
         b = (if has_nack_range n then b OR 0x08 else b)
     in [ucast (drop_bit 10 (nack_sn n) AND 0xff), ucast (drop_bit 2 (nack_sn n) AND 0xff), b] @
        pack_nack_so n @ pack_nack_range n)"

fun pack_nacks :: "(bool \<Rightarrow> rlc_am_status_nack \<Rightarrow> bytes) \<Rightarrow> rlc_am_status_nack list \<Rightarrow> bytes" where
  "pack_nacks f [] = []"
| "pack_nacks f (n # ns) = f (ns \<noteq> []) n @ pack_nacks f ns"

definition pack_12bit :: "rlc_am_status_pdu \<Rightarrow> bytes \<Rightarrow> bytes" where
  "pack_12bit s pdu =
    [ucast (drop_bit 8 (sp_ack_sn s) AND 0x0f), ucast (sp_ack_sn s AND 0xff),
     if sp_nacks s \<noteq> [] then 0x80 else 0x00] @ pack_nacks pack_nack_12bit (sp_nacks s) @ pdu"

definition pack_18bit :: "rlc_am_status_pdu \<Rightarrow> bytes \<Rightarrow> bytes" where
  "pack_18bit s pdu =
    [ucast (drop_bit 14 (sp_ack_sn s) AND 0x0f), ucast (drop_bit 6 (sp_ack_sn s) AND 0xff),
     let b = ucast (push_bit 2 (sp_ack_sn s) AND 0xfc) in if sp_nacks s \<noteq> [] then b OR 0x02 else b] @
    pack_nacks pack_nack_18bit (sp_nacks s) @ pdu"

definition status_pack :: "rlc_am_status_pdu \<Rightarrow> bytes \<Rightarrow> bytes" where
  "status_pack s pdu =
    (case sp_sn_size s of
       Am_size12bits \<Rightarrow> pack_12bit s pdu
     | Am_size18bits \<Rightarrow> pack_18bit s pdu)"


section \<open>The packed size\<close>

definition status_sized :: "rlc_am_status_pdu \<Rightarrow> bool" where
  "status_sized s \<longleftrightarrow>
    sp_packed_size s = 3 + sum_list (map (nack_size (sp_sn_size s)) (sp_nacks s))"

lemma status_sized_refresh: "status_sized s \<longleftrightarrow> refresh_packed_size s = s"
proof -
  have "fold (\<lambda>nack p. p + nack_size sz nack) ns p0 = p0 + sum_list (map (nack_size sz) ns)" for sz ns p0
    by (induction ns arbitrary: p0) (simp_all add: algebra_simps)
  then show ?thesis
    by (cases s) (auto simp: status_sized_def refresh_packed_size_def status_sizes)
qed

lemma status_sized_init [simp]: "status_sized (rlc_am_status_pdu_init sz)"
  by (simp add: status_sized_def rlc_am_status_pdu_init_def status_sizes)

lemma status_sized_reset [simp]: "status_sized (status_reset s)"
  by (simp add: status_sized_def status_reset_def status_sizes)

lemma sum_list_butlast_last:
  "xs \<noteq> [] \<Longrightarrow> sum_list (map f xs) = sum_list (map f (butlast xs)) + (f (last xs) :: u32)"
  by (induction xs rule: rev_induct) simp_all

lemma push_nack_sn_size [simp]: "sp_sn_size (push_nack s n) = sp_sn_size s"
  by (simp add: push_nack_def Let_def)

lemma push_nack_ack_sn [simp]: "sp_ack_sn (push_nack s n) = sp_ack_sn s"
  by (simp add: push_nack_def Let_def)

lemma push_nack_cpt [simp]: "sp_cpt (push_nack s n) = sp_cpt s"
  by (simp add: push_nack_def Let_def)

lemma status_sized_push [simp]: "status_sized s \<Longrightarrow> status_sized (push_nack s n)"
  by (auto simp: status_sized_def push_nack_def Let_def sum_list_butlast_last algebra_simps)

lemma pack_nack_length:
  "of_nat (length (pack_nack_12bit further n)) = nack_size Am_size12bits n"
  "of_nat (length (pack_nack_18bit further n)) = nack_size Am_size18bits n"
  by (simp_all add: pack_nack_12bit_def pack_nack_18bit_def pack_nack_so_def pack_nack_range_def
      nack_size_def status_sizes Let_def)

lemma pack_nacks_length:
  "of_nat (length (pack_nacks pack_nack_12bit ns)) = sum_list (map (nack_size Am_size12bits) ns)"
  "of_nat (length (pack_nacks pack_nack_18bit ns)) = sum_list (map (nack_size Am_size18bits) ns)"
  by (induction ns) (simp_all add: pack_nack_length)

lemma status_pack_length:
  "status_sized s \<Longrightarrow> of_nat (length (status_pack s [])) = sp_packed_size s"
  by (cases "sp_sn_size s")
    (simp_all add: status_sized_def status_pack_def pack_12bit_def pack_18bit_def pack_nacks_length)

section \<open>Reading back\<close>

definition nack_canon :: "u32 \<Rightarrow> rlc_am_status_nack \<Rightarrow> bool" where
  "nack_canon md n \<longleftrightarrow>
    nack_sn n < md \<and> (\<not> has_so n \<longrightarrow> so_start n = 0 \<and> so_end n = so_end_of_sdu) \<and>
    (\<not> has_nack_range n \<longrightarrow> nack_range n = 0)"

lemma unpack_pack_fields:
  assumes "nack_canon md n" "e2 \<noteq> 0 \<longleftrightarrow> has_so n" "e3 \<noteq> 0 \<longleftrightarrow> has_nack_range n"
  shows "unpack_nack_fields e2 e3 (rlc_am_status_nack_init\<lparr>nack_sn := nack_sn n\<rparr>)
    (pack_nack_so n @ pack_nack_range n @ rest) = Some (n, rest)"
  using assms
  by (cases n) (auto simp: unpack_nack_fields_def unpack_nack_so_def unpack_nack_range_def
      pack_nack_so_def pack_nack_range_def nack_canon_def rlc_am_status_nack_init_def)

text \<open>The flag masks of the source are single bits.\<close>

lemma flag_bits:
  "bit (0x02 :: int) n \<longleftrightarrow> n = 1" "bit (0x04 :: int) n \<longleftrightarrow> n = 2" "bit (0x08 :: int) n \<longleftrightarrow> n = 3"
  "bit (0x10 :: int) n \<longleftrightarrow> n = 4" "bit (0x20 :: int) n \<longleftrightarrow> n = 5"
  using bit_exp_iff [of 1 n, where 'a = int] bit_exp_iff [of 2 n, where 'a = int]
    bit_exp_iff [of 3 n, where 'a = int] bit_exp_iff [of 4 n, where 'a = int]
    bit_exp_iff [of 5 n, where 'a = int]
  by auto

lemma mask_lit_f0: "(0xf0 :: u8) = push_bit 4 (mask 4)" by (simp add: mask_eq_exp_minus_1)
lemma mask_lit_c0: "(0xc0 :: 'a::len word) = push_bit 6 (mask 2)" by (simp add: mask_eq_exp_minus_1)
lemma mask_lit_fc: "(0xfc :: 'a::len word) = push_bit 2 (mask 6)" by (simp add: mask_eq_exp_minus_1)

definition nack_ext_12bit :: "u32 \<Rightarrow> bool \<Rightarrow> bool \<Rightarrow> bool \<Rightarrow> u8" where
  "nack_ext_12bit sn e1 e2 e3 =
    (let b = ucast (push_bit 4 (sn AND 0x0f));
         b = (if e1 then b OR 0x08 else b);
         b = (if e2 then b OR 0x04 else b)
     in if e3 then b OR 0x02 else b)"

lemma nack_ext_12bit_fields:
  "nack_ext_12bit sn e1 e2 e3 AND 0x08 \<noteq> 0 \<longleftrightarrow> e1"
  "nack_ext_12bit sn e1 e2 e3 AND 0x04 \<noteq> 0 \<longleftrightarrow> e2"
  "nack_ext_12bit sn e1 e2 e3 AND 0x02 \<noteq> 0 \<longleftrightarrow> e3"
  "nack_ext_12bit sn e1 e2 e3 AND 0x01 = 0"
  "drop_bit 4 (nack_ext_12bit sn e1 e2 e3 AND 0xf0) = ucast (sn AND 0x0f)"
proof -
  let ?b = "nack_ext_12bit sn e1 e2 e3"
  have "bit ?b 3 = e1" "bit ?b 2 = e2" "bit ?b 1 = e3" "\<not> bit ?b 0"
    unfolding nack_ext_12bit_def Let_def mask_lits by (auto simp: bit_simps flag_bits)
  then show "?b AND 0x08 \<noteq> 0 \<longleftrightarrow> e1" "?b AND 0x04 \<noteq> 0 \<longleftrightarrow> e2" "?b AND 0x02 \<noteq> 0 \<longleftrightarrow> e3" "?b AND 0x01 = 0"
    using and_exp_eq_0_iff_not_bit [of ?b 3] and_exp_eq_0_iff_not_bit [of ?b 2]
      and_exp_eq_0_iff_not_bit [of ?b 1] and_exp_eq_0_iff_not_bit [of ?b 0] by simp_all
  show "drop_bit 4 (?b AND 0xf0) = ucast (sn AND 0x0f)"
    unfolding nack_ext_12bit_def Let_def mask_lits mask_lit_f0
    by (rule bit_word_eqI) (auto simp: bit_simps flag_bits)
qed

definition nack_ext_18bit :: "u32 \<Rightarrow> bool \<Rightarrow> bool \<Rightarrow> bool \<Rightarrow> u8" where
  "nack_ext_18bit sn e1 e2 e3 =
    (let b = ucast (push_bit 6 sn AND 0xc0);
         b = (if e1 then b OR 0x20 else b);
         b = (if e2 then b OR 0x10 else b)
     in if e3 then b OR 0x08 else b)"

lemma nack_ext_18bit_fields:
  "nack_ext_18bit sn e1 e2 e3 AND 0x20 \<noteq> 0 \<longleftrightarrow> e1"
  "nack_ext_18bit sn e1 e2 e3 AND 0x10 \<noteq> 0 \<longleftrightarrow> e2"
  "nack_ext_18bit sn e1 e2 e3 AND 0x08 \<noteq> 0 \<longleftrightarrow> e3"
  "nack_ext_18bit sn e1 e2 e3 AND 0x07 = 0"
  "drop_bit 6 (nack_ext_18bit sn e1 e2 e3 AND 0xc0) = ucast (sn AND 0x03)"
proof -
  let ?b = "nack_ext_18bit sn e1 e2 e3"
  have "bit ?b 5 = e1" "bit ?b 4 = e2" "bit ?b 3 = e3"
    unfolding nack_ext_18bit_def Let_def mask_lit_c0 by (auto simp: bit_simps flag_bits)
  then show "?b AND 0x20 \<noteq> 0 \<longleftrightarrow> e1" "?b AND 0x10 \<noteq> 0 \<longleftrightarrow> e2" "?b AND 0x08 \<noteq> 0 \<longleftrightarrow> e3"
    using and_exp_eq_0_iff_not_bit [of ?b 5] and_exp_eq_0_iff_not_bit [of ?b 4]
      and_exp_eq_0_iff_not_bit [of ?b 3] by simp_all
  show "?b AND 0x07 = 0"
    unfolding nack_ext_18bit_def Let_def mask_lits mask_lit_c0
    by (rule bit_word_eqI) (auto simp: bit_simps flag_bits)
  show "drop_bit 6 (?b AND 0xc0) = ucast (sn AND 0x03)"
    unfolding nack_ext_18bit_def Let_def mask_lits mask_lit_c0
    by (rule bit_word_eqI) (auto simp: bit_simps flag_bits)
qed

lemma nack_sn_12bit:
  assumes "sn < 2 ^ 12"
  shows "push_bit 4 (ucast (ucast (drop_bit 4 sn AND 0xff) AND 0xff :: u8)) OR
    ucast (ucast (sn AND 0x0f) :: u8) = (sn :: u32)"
  unfolding mask_lits
  by (rule bit_word_eqI) (auto simp: bit_simps dest: bit_less_exp [OF assms])

lemma nack_sn_18bit:
  assumes "sn < 2 ^ 18"
  shows "push_bit 10 (ucast (ucast (drop_bit 10 sn AND 0xff) AND 0xff :: u8)) OR
    push_bit 2 (ucast (ucast (drop_bit 2 sn AND 0xff) AND 0xff :: u8)) OR
    ucast (ucast (sn AND 0x03) :: u8) = (sn :: u32)" (is "?l = _")
proof (rule bit_word_eqI)
  fix n
  assume n: "n < LENGTH(32)"
  show "bit ?l n = bit sn n"
    unfolding mask_lits using n
    by (cases "n < 10"; cases "n < 2")
      (auto simp: bit_simps simp flip: Suc_diff_le dest: bit_less_exp [OF assms])
qed

lemma pack_nack_12bit_ext:
  "pack_nack_12bit further n =
    [ucast (drop_bit 4 (nack_sn n) AND 0xff), nack_ext_12bit (nack_sn n) further (has_so n) (has_nack_range n)] @
    pack_nack_so n @ pack_nack_range n"
  by (simp add: pack_nack_12bit_def nack_ext_12bit_def Let_def)

lemma pack_nack_18bit_ext:
  "pack_nack_18bit further n =
    [ucast (drop_bit 10 (nack_sn n) AND 0xff), ucast (drop_bit 2 (nack_sn n) AND 0xff),
     nack_ext_18bit (nack_sn n) further (has_so n) (has_nack_range n)] @ pack_nack_so n @ pack_nack_range n"
  by (simp add: pack_nack_18bit_def nack_ext_18bit_def Let_def)

lemma unpack_pack_nacks_12bit:
  assumes "list_all (nack_canon 4096) ns" "e1 \<noteq> 0 \<longleftrightarrow> ns \<noteq> []"
  shows "unpack_nacks_12bit e1 s (pack_nacks pack_nack_12bit ns @ rest) = (True, foldl push_nack s ns)"
  using assms
proof (induction ns arbitrary: e1 s)
  case Nil
  then show ?case by (simp add: unpack_nacks_12bit.simps)
next
  case (Cons n ns)
  let ?b1 = "nack_ext_12bit (nack_sn n) (ns \<noteq> []) (has_so n) (has_nack_range n)"
  let ?rest = "pack_nacks pack_nack_12bit ns @ rest"
  from Cons.prems have c: "nack_canon 4096 n" and e: "e1 \<noteq> 0" by simp_all
  then have sn: "nack_sn n < 2 ^ 12" by (simp add: nack_canon_def)
  note f = nack_ext_12bit_fields [of "nack_sn n" "ns \<noteq> []" "has_so n" "has_nack_range n"]
  have "unpack_nacks_12bit (?b1 AND 0x08) (push_nack s n) ?rest = (True, foldl push_nack (push_nack s n) ns)"
    using Cons.prems f(1) by (intro Cons.IH) simp_all
  moreover have "unpack_nack_fields (?b1 AND 0x04) (?b1 AND 0x02) (rlc_am_status_nack_init\<lparr>nack_sn := nack_sn n\<rparr>)
      (pack_nack_so n @ pack_nack_range n @ ?rest) = Some (n, ?rest)"
    using f(2,3) by (intro unpack_pack_fields [OF c]) simp_all
  ultimately show ?case
    using e f(4) nack_sn_12bit [OF sn]
    by (subst unpack_nacks_12bit.simps) (simp add: pack_nack_12bit_ext Let_def f(5) del: drop_bit_and)
qed

lemma unpack_pack_nacks_18bit:
  assumes "list_all (nack_canon 262144) ns" "e1 \<noteq> 0 \<longleftrightarrow> ns \<noteq> []"
  shows "unpack_nacks_18bit e1 s (pack_nacks pack_nack_18bit ns @ rest) = (True, foldl push_nack s ns)"
  using assms
proof (induction ns arbitrary: e1 s)
  case Nil
  then show ?case by (simp add: unpack_nacks_18bit.simps)
next
  case (Cons n ns)
  let ?b2 = "nack_ext_18bit (nack_sn n) (ns \<noteq> []) (has_so n) (has_nack_range n)"
  let ?rest = "pack_nacks pack_nack_18bit ns @ rest"
  from Cons.prems have c: "nack_canon 262144 n" and e: "e1 \<noteq> 0" by simp_all
  then have sn: "nack_sn n < 2 ^ 18" by (simp add: nack_canon_def)
  note f = nack_ext_18bit_fields [of "nack_sn n" "ns \<noteq> []" "has_so n" "has_nack_range n"]
  have "unpack_nacks_18bit (?b2 AND 0x20) (push_nack s n) ?rest = (True, foldl push_nack (push_nack s n) ns)"
    using Cons.prems f(1) by (intro Cons.IH) simp_all
  moreover have "unpack_nack_fields (?b2 AND 0x10) (?b2 AND 0x08) (rlc_am_status_nack_init\<lparr>nack_sn := nack_sn n\<rparr>)
      (pack_nack_so n @ pack_nack_range n @ ?rest) = Some (n, ?rest)"
    using f(2,3) by (intro unpack_pack_fields [OF c]) simp_all
  ultimately show ?case
    using e f(4) nack_sn_18bit [OF sn]
    by (subst unpack_nacks_18bit.simps) (simp add: pack_nack_18bit_ext Let_def f(5) del: drop_bit_and)
qed

section \<open>Well-formed status PDUs\<close>

definition status_wf :: "rlc_am_status_pdu \<Rightarrow> bool" where
  "status_wf s \<longleftrightarrow>
    status_sized s \<and> list_all (nack_canon (mod_nr s)) (sp_nacks s) \<and>
    successively (\<lambda>l r. \<not> is_continuous_sequence s l r) (sp_nacks s) \<and> sp_cpt s = status_pdu_cpt"

lemma is_continuous_cong:
  "sp_sn_size s = sp_sn_size t \<Longrightarrow> is_continuous_sequence s = is_continuous_sequence t"
  by (intro ext) (simp add: is_continuous_sequence_def mod_nr_def)

lemma mod_nr_simps [simp]:
  "mod_nr (push_nack s n) = mod_nr s" "mod_nr (rlc_am_status_pdu_init sz) = am_mod sz"
  "mod_nr (s\<lparr>sp_ack_sn := a\<rparr>) = mod_nr s"
  by (simp_all add: mod_nr_def rlc_am_status_pdu_init_def)

lemma status_wf_init [simp]: "status_wf (rlc_am_status_pdu_init sz)"
  by (simp add: status_wf_def) (simp add: rlc_am_status_pdu_init_def)

lemma status_wf_ack [simp]: "status_wf (s\<lparr>sp_ack_sn := a\<rparr>) = status_wf s"
  using is_continuous_cong [of "s\<lparr>sp_ack_sn := a\<rparr>" s] by (simp add: status_wf_def status_sized_def)

definition nack_merge :: "rlc_am_status_nack \<Rightarrow> rlc_am_status_nack \<Rightarrow> rlc_am_status_nack" where
  "nack_merge prev nack = expand_nack_so (expand_nack_range prev nack) nack"

lemma nack_merge_sel:
  "nack_sn (nack_merge l r) = nack_sn l"
  "has_nack_range (nack_merge l r)"
  "has_so (nack_merge l r) \<longleftrightarrow> has_so l \<or> has_so r"
  "so_start (nack_merge l r) = (if has_so r \<and> \<not> has_so l then 0 else so_start l)"
  "so_end (nack_merge l r) = (if has_so r then so_end r else if has_so l then so_end_of_sdu else so_end l)"
  "nack_range (nack_merge l r) =
    (if has_nack_range l then nack_range l else 1) + (if has_nack_range r then nack_range r else 1)"
  by (simp_all add: nack_merge_def expand_nack_so_def expand_nack_range_def)

lemma nack_canon_merge: "nack_canon md l \<Longrightarrow> nack_canon md r \<Longrightarrow> nack_canon md (nack_merge l r)"
  by (auto simp: nack_canon_def nack_merge_sel)

lemma push_nack_cases:
  obtains (appended) "sp_nacks s = [] \<or> \<not> is_continuous_sequence s (last (sp_nacks s)) n"
      "sp_nacks (push_nack s n) = sp_nacks s @ [n]"
      "sp_packed_size (push_nack s n) = sp_packed_size s + nack_size (sp_sn_size s) n"
    | (merged) "sp_nacks s \<noteq> []" "is_continuous_sequence s (last (sp_nacks s)) n"
      "sp_nacks (push_nack s n) = butlast (sp_nacks s) @ [nack_merge (last (sp_nacks s)) n]"
  by (cases "sp_nacks s = [] \<or> \<not> is_continuous_sequence s (last (sp_nacks s)) n")
    (auto simp: push_nack_def Let_def nack_merge_def)

lemma continuous_merge:
  "is_continuous_sequence s k (nack_merge l r) \<Longrightarrow> nack_canon md l \<Longrightarrow> is_continuous_sequence s k l"
  by (auto simp: is_continuous_sequence_def nack_merge_sel nack_canon_def split: if_splits)

lemma status_wf_push:
  assumes wf: "status_wf s" and c: "nack_canon (mod_nr s) n"
  shows "status_wf (push_nack s n)"
proof -
  let ?R = "\<lambda>l r. \<not> is_continuous_sequence s l r"
  have R: "is_continuous_sequence (push_nack s n) = is_continuous_sequence s"
    by (rule is_continuous_cong) simp
  have "list_all (nack_canon (mod_nr s)) (sp_nacks (push_nack s n)) \<and>
      successively ?R (sp_nacks (push_nack s n))"
  proof (cases rule: push_nack_cases [of s n])
    case appended
    then show ?thesis
      using wf c by (auto simp: status_wf_def successively_append_iff)
  next
    case merged
    then obtain xs p where x: "sp_nacks s = xs @ [p]" by (metis append_butlast_last_id)
    with wf have "successively ?R (xs @ [p])" and cp: "nack_canon (mod_nr s) p"
      and "list_all (nack_canon (mod_nr s)) xs"
      by (simp_all add: status_wf_def)
    then show ?thesis
      using merged(3) c nack_canon_merge [OF cp c] continuous_merge [OF _ cp]
      by (auto simp: x successively_append_iff)
  qed
  then show ?thesis
    using wf by (simp add: status_wf_def R)
qed

lemma status_wf_pushes:
  "status_wf s \<Longrightarrow> list_all (nack_canon (mod_nr s)) ns \<Longrightarrow> status_wf (foldl push_nack s ns)"
  by (induction ns arbitrary: s) (simp_all add: status_wf_push)

lemma push_nacks_appended:
  assumes "successively (\<lambda>l r. \<not> is_continuous_sequence s l r) (sp_nacks s @ ns)"
  shows "foldl push_nack s ns = s\<lparr>sp_nacks := sp_nacks s @ ns,
    sp_packed_size := sp_packed_size s + sum_list (map (nack_size (sp_sn_size s)) ns)\<rparr>"
  using assms
proof (induction ns arbitrary: s)
  case Nil
  then show ?case by simp
next
  case (Cons n ns)
  let ?s = "s\<lparr>sp_nacks := sp_nacks s @ [n], sp_packed_size := sp_packed_size s + nack_size (sp_sn_size s) n\<rparr>"
  from Cons.prems have "sp_nacks s = [] \<or> \<not> is_continuous_sequence s (last (sp_nacks s)) n"
    by (auto simp: successively_append_iff)
  then have p: "push_nack s n = ?s" by (auto simp: push_nack_def Let_def)
  have "is_continuous_sequence ?s = is_continuous_sequence s" by (rule is_continuous_cong) simp
  with Cons.prems Cons.IH [of ?s] show ?case by (simp add: p add.assoc)
qed

section \<open>Round trip\<close>

lemma ack_sn_12bit:
  fixes sn :: u32
  assumes "sn < 2 ^ 12"
  shows "push_bit 8 (ucast (ucast (drop_bit 8 sn AND 0x0f) AND 0x0f :: u8)) OR
    ucast (ucast (sn AND 0xff) AND 0xff :: u8) = sn"
  unfolding mask_lits
  by (rule bit_word_eqI) (auto simp: bit_simps dest: bit_less_exp [OF assms])

definition ack_ext_18bit :: "u32 \<Rightarrow> bool \<Rightarrow> u8" where
  "ack_ext_18bit sn e1 = (let b = ucast (push_bit 2 sn AND 0xfc) in if e1 then b OR 0x02 else b)"

lemma ack_ext_18bit_fields:
  "ack_ext_18bit sn e1 AND 0x02 \<noteq> 0 \<longleftrightarrow> e1"
  "ack_ext_18bit sn e1 AND 0x01 = 0"
  "drop_bit 2 (ack_ext_18bit sn e1 AND 0xfc) = ucast (sn AND 0x3f)"
proof -
  let ?b = "ack_ext_18bit sn e1"
  have "bit ?b 1 = e1" "\<not> bit ?b 0"
    unfolding ack_ext_18bit_def Let_def mask_lit_fc by (auto simp: bit_simps flag_bits)
  then show "?b AND 0x02 \<noteq> 0 \<longleftrightarrow> e1" "?b AND 0x01 = 0"
    using and_exp_eq_0_iff_not_bit [of ?b 1] and_exp_eq_0_iff_not_bit [of ?b 0] by simp_all
  show "drop_bit 2 (?b AND 0xfc) = ucast (sn AND 0x3f)"
    unfolding ack_ext_18bit_def Let_def mask_lits mask_lit_fc
    by (rule bit_word_eqI) (auto simp: bit_simps flag_bits)
qed

lemma ack_sn_18bit:
  fixes sn :: u32
  assumes "sn < 2 ^ 18"
  shows "push_bit 14 (ucast (ucast (drop_bit 14 sn AND 0x0f) AND 0x0f :: u8)) OR
    push_bit 6 (ucast (ucast (drop_bit 6 sn AND 0xff) AND 0xff :: u8)) OR
    ucast (ucast (sn AND 0x3f) :: u8) = sn" (is "?l = _")
proof (rule bit_word_eqI)
  fix n
  assume n: "n < LENGTH(32)"
  show "bit ?l n = bit sn n"
    unfolding mask_lits using n
    by (cases "n < 14"; cases "n < 6") (auto simp: bit_simps dest: bit_less_exp [OF assms])
qed

lemma ack_byte0:
  "is_control_pdu (ucast (x AND 0x0f :: u32) # r) = Inr True"
  "drop_bit 4 (ucast (x AND 0x0f :: u32) :: u8) AND 0x07 = status_pdu_cpt"
proof -
  have "drop_bit 7 (ucast (x AND 0x0f :: u32) :: u8) AND 0x01 = 0"
    unfolding mask_lits by (rule bit_word_eqI) (auto simp: bit_simps)
  then show "is_control_pdu (ucast (x AND 0x0f :: u32) # r) = Inr True" by (simp add: is_control_pdu_def)
  have "drop_bit 4 (ucast (x AND 0x0f :: u32) :: u8) AND 0x07 = 0"
    unfolding mask_lits by (rule bit_word_eqI) (auto simp: bit_simps)
  then show "drop_bit 4 (ucast (x AND 0x0f :: u32) :: u8) AND 0x07 = status_pdu_cpt"
    by (simp add: status_pdu_cpt_def)
qed

lemma pushes_reset:
  assumes wf: "status_wf s" and sz: "sp_sn_size t = sp_sn_size s"
  shows "foldl push_nack (status_reset t\<lparr>sp_cpt := status_pdu_cpt, sp_ack_sn := sp_ack_sn s\<rparr>) (sp_nacks s) = s"
proof -
  let ?t = "status_reset t\<lparr>sp_cpt := status_pdu_cpt, sp_ack_sn := sp_ack_sn s\<rparr>"
  have "is_continuous_sequence ?t = is_continuous_sequence s"
    by (rule is_continuous_cong) (simp add: status_reset_def sz)
  then have "foldl push_nack ?t (sp_nacks s) = ?t\<lparr>sp_nacks := sp_nacks ?t @ sp_nacks s,
      sp_packed_size := sp_packed_size ?t + sum_list (map (nack_size (sp_sn_size ?t)) (sp_nacks s))\<rparr>"
    using wf by (intro push_nacks_appended) (simp add: status_wf_def status_reset_def)
  also have "\<dots> = s"
    using wf sz by (cases s) (simp add: status_wf_def status_sized_def status_reset_def status_sizes)
  finally show ?thesis .
qed

lemma status_unpack_pack:
  assumes wf: "status_wf s" and a: "sp_ack_sn s < mod_nr s" and sz: "sp_sn_size t = sp_sn_size s"
  shows "status_unpack t (status_pack s rest) = (True, s)"
proof (cases "sp_sn_size s")
  case Am_size12bits
  with wf a have c: "list_all (nack_canon 4096) (sp_nacks s)" and sn: "sp_ack_sn s < 2 ^ 12"
    by (simp_all add: status_wf_def mod_nr_def)
  note u = unpack_pack_nacks_12bit [OF c, where rest = rest] pushes_reset [OF wf sz]
  show ?thesis
    using Am_size12bits sz ack_sn_12bit [OF sn] u
    by (simp add: status_unpack_def status_pack_def pack_12bit_def unpack_12bit_def ack_byte0 Let_def)
next
  case Am_size18bits
  with wf a have c: "list_all (nack_canon 262144) (sp_nacks s)" and sn: "sp_ack_sn s < 2 ^ 18"
    by (simp_all add: status_wf_def mod_nr_def)
  note u = unpack_pack_nacks_18bit [OF c, where rest = rest] pushes_reset [OF wf sz]
  note f = ack_ext_18bit_fields [of "sp_ack_sn s" "sp_nacks s \<noteq> []"]
  have p: "pack_18bit s rest =
      [ucast (drop_bit 14 (sp_ack_sn s) AND 0x0f), ucast (drop_bit 6 (sp_ack_sn s) AND 0xff),
       ack_ext_18bit (sp_ack_sn s) (sp_nacks s \<noteq> [])] @ pack_nacks pack_nack_18bit (sp_nacks s) @ rest"
    by (simp add: pack_18bit_def ack_ext_18bit_def)
  show ?thesis
    using Am_size18bits sz ack_sn_18bit [OF sn] u f
    by (simp add: status_unpack_def status_pack_def p unpack_18bit_def ack_byte0 Let_def del: drop_bit_and)
qed

section \<open>What a NACK reports\<close>

text \<open>
  \<open>nack_covers md n sn off\<close>: the NACK \<open>n\<close> reports byte \<open>off\<close> of the SDU \<open>sn\<close> as missing.  The segment
  offsets bound the first SDU of the range from below and the last one from above, and the end mark
  stands for the end of the SDU, whatever its length.
\<close>

definition nack_count :: "rlc_am_status_nack \<Rightarrow> nat" where
  "nack_count n = (if has_nack_range n then unat (nack_range n) else 1)"

definition nack_covers :: "u32 \<Rightarrow> rlc_am_status_nack \<Rightarrow> u32 \<Rightarrow> nat \<Rightarrow> bool" where
  "nack_covers md n sn off \<longleftrightarrow>
    (\<exists>i < nack_count n. sn = (nack_sn n + of_nat i) mod md \<and>
      (has_so n \<longrightarrow> (i = 0 \<longrightarrow> unat (so_start n) \<le> off) \<and>
        (Suc i = nack_count n \<longrightarrow> so_end n = so_end_of_sdu \<or> off \<le> unat (so_end n))))"

definition status_covers :: "rlc_am_status_pdu \<Rightarrow> u32 \<Rightarrow> nat \<Rightarrow> bool" where
  "status_covers s sn off \<longleftrightarrow> (\<exists>n \<in> set (sp_nacks s). nack_covers (mod_nr s) n sn off)"

lemma nack_count_merge:
  assumes "nack_count l + nack_count r < 256"
  shows "nack_count (nack_merge l r) = nack_count l + nack_count r"
  using assms by (auto simp: nack_count_def nack_merge_sel unat_word_ariths)

lemma ex_less_add_iff:
  "(\<exists>i < a + b. P i) \<longleftrightarrow> (\<exists>i < a. P i) \<or> (\<exists>j < b. P (a + j))" for a b :: nat
proof
  assume "\<exists>i < a + b. P i"
  then obtain i where i: "i < a + b" "P i" by blast
  show "(\<exists>i < a. P i) \<or> (\<exists>j < b. P (a + j))"
    using i by (cases "i < a") (auto intro: exI [of _ "i - a"])
next
  assume "(\<exists>i < a. P i) \<or> (\<exists>j < b. P (a + j))"
  then show "\<exists>i < a + b. P i"
    by (meson nat_add_left_cancel_less trans_less_add1)
qed

lemma continuous_next_sn:
  assumes "is_continuous_sequence s l r"
  shows "(nack_sn r + of_nat j) mod mod_nr s = (nack_sn l + of_nat (nack_count l + j)) mod mod_nr s"
proof -
  have "nack_sn r = (nack_sn l + of_nat (nack_count l)) mod mod_nr s"
    using assms by (auto simp: is_continuous_sequence_def nack_count_def split: if_splits)
  then show ?thesis
    by (simp add: mod_nr_def am.mod_add_mod add.assoc)
qed

lemma nack_covers_merge:
  assumes cont: "is_continuous_sequence s l r" and pos: "0 < nack_count l" "0 < nack_count r"
    and lim: "nack_count l + nack_count r < 256"
  shows "nack_covers (mod_nr s) (nack_merge l r) sn off \<longleftrightarrow>
    nack_covers (mod_nr s) l sn off \<or> nack_covers (mod_nr s) r sn off"
proof -
  have ends: "has_so l \<longrightarrow> so_end l = so_end_of_sdu" "has_so r \<longrightarrow> so_start r = 0"
    using cont by (auto simp: is_continuous_sequence_def split: if_splits)
  have j: "Suc (nack_count l + j) = nack_count l + nack_count r \<longleftrightarrow> Suc j = nack_count r" for j
    by auto
  have i: "Suc i \<noteq> nack_count l + nack_count r" if "i < nack_count l" for i
    using that pos by simp
  show ?thesis
    unfolding nack_covers_def nack_count_merge [OF lim] ex_less_add_iff continuous_next_sn [OF cont]
    using ends pos i by (auto simp: nack_merge_sel j)
qed

lemma push_nack_covers:
  assumes "sp_nacks s \<noteq> [] \<Longrightarrow> 0 < nack_count (last (sp_nacks s)) \<and>
      nack_count (last (sp_nacks s)) + nack_count n < 256"
    and "0 < nack_count n"
  shows "status_covers (push_nack s n) sn off \<longleftrightarrow>
    status_covers s sn off \<or> nack_covers (mod_nr s) n sn off"
proof (cases rule: push_nack_cases [of s n])
  case appended
  then show ?thesis by (auto simp: status_covers_def)
next
  case merged
  then obtain xs p where x: "sp_nacks s = xs @ [p]" by (metis append_butlast_last_id)
  with merged assms nack_covers_merge [of s p n sn off] show ?thesis
    by (auto simp: status_covers_def)
qed

text \<open>Reporting consecutive SDUs one by one, up to the width of the range field.\<close>

lemma consecutive_nacks:
  assumes "2 \<le> k" "k \<le> 256"
  shows "sp_nacks (foldl push_nack (rlc_am_status_pdu_init Am_size12bits)
      (map (\<lambda>i. rlc_am_status_nack_init\<lparr>nack_sn := of_nat i\<rparr>) [0..<k])) =
    [rlc_am_status_nack_init\<lparr>has_nack_range := True, nack_range := of_nat k\<rparr>]"
  using assms
proof (induction k rule: dec_induct)
  case base
  have u: "[0..<2] = [0, 1 :: nat]" by (simp add: upt_rec)
  show ?case
    by (simp add: u push_nack_def is_continuous_sequence_def Let_def expand_nack_range_def
        expand_nack_so_def rlc_am_status_nack_init_def rlc_am_status_pdu_init_def mod_nr_def)
next
  case (step k)
  define s where "s = foldl push_nack (rlc_am_status_pdu_init Am_size12bits)
      (map (\<lambda>i. rlc_am_status_nack_init\<lparr>nack_sn := of_nat i\<rparr>) [0..<k])"
  have n: "sp_nacks s = [rlc_am_status_nack_init\<lparr>has_nack_range := True, nack_range := of_nat k\<rparr>]"
    using step by (simp add: s_def)
  have sz: "sp_sn_size s = Am_size12bits"
    unfolding s_def by (induction k) (simp_all add: rlc_am_status_pdu_init_def)
  have "k mod 256 mod 4096 = k" using step by simp
  then have "(of_nat k :: u32) = ucast (of_nat k :: u8) mod 4096"
    using step by (simp add: word_unat_eq_iff unat_mod unat_of_nat unat_ucast_mod)
  then have "is_continuous_sequence s (last (sp_nacks s)) (rlc_am_status_nack_init\<lparr>nack_sn := of_nat k\<rparr>)"
    by (simp add: n is_continuous_sequence_def mod_nr_def sz rlc_am_status_nack_init_def)
  then have "sp_nacks (push_nack s (rlc_am_status_nack_init\<lparr>nack_sn := of_nat k\<rparr>)) =
      [rlc_am_status_nack_init\<lparr>has_nack_range := True, nack_range := of_nat (Suc k)\<rparr>]"
    by (simp add: n push_nack_def Let_def expand_nack_range_def expand_nack_so_def
        rlc_am_status_nack_init_def add.commute)
  then show ?case by (simp add: s_def)
qed

section \<open>Trimming\<close>

definition trim_prefix :: "rlc_am_status_pdu \<Rightarrow> nat \<Rightarrow> rlc_am_status_pdu" where
  "trim_prefix s k =
    s\<lparr>sp_nacks := take k (sp_nacks s),
      sp_packed_size := 3 + sum_list (map (nack_size (sp_sn_size s)) (take k (sp_nacks s))),
      sp_ack_sn := (if k < length (sp_nacks s) then nack_sn (sp_nacks s ! k) else sp_ack_sn s)\<rparr>"

lemma trim_prefix_all: "status_sized s \<Longrightarrow> trim_prefix s (length (sp_nacks s)) = s"
  by (cases s) (simp add: trim_prefix_def status_sized_def)

lemma trim_loop_prefix:
  assumes "status_sized s"
  shows "\<exists>k \<le> length (sp_nacks s). trim_loop m s = trim_prefix s k \<and>
    (k = 0 \<or> sp_packed_size (trim_loop m s) \<le> m \<and>
      nack_sn (sp_nacks s ! (k - 1)) \<noteq> sp_ack_sn (trim_loop m s))"
  using assms
proof (induction "length (sp_nacks s)" arbitrary: s)
  case 0
  then have "trim_loop m s = s" by (subst trim_loop.simps) simp
  with 0 trim_prefix_all [of s] show ?case by simp
next
  case (Suc len)
  from Suc.hyps(2) have ne: "sp_nacks s \<noteq> []" by auto
  from ne Suc.hyps(2) have lst: "last (sp_nacks s) = sp_nacks s ! len" 
    by (metis diff_Suc_1 last_conv_nth)
  define t where "t = s\<lparr>sp_packed_size := sp_packed_size s - nack_size (sp_sn_size s) (last (sp_nacks s)),
          sp_ack_sn := nack_sn (last (sp_nacks s)), sp_nacks := butlast (sp_nacks s)\<rparr>"
  have nt: "sp_nacks t = butlast (sp_nacks s)" "len = length (sp_nacks t)"
    using Suc.hyps(2) [symmetric] by (simp_all add: t_def)
  show ?case
  proof (cases "m < sp_packed_size s \<or> nack_sn (last (sp_nacks s)) = sp_ack_sn s")
    case True
    then have loop: "trim_loop m s = trim_loop m t"
      using ne by (subst trim_loop.simps) (simp add: t_def)
    have "status_sized t"
      using Suc.prems ne by (simp add: status_sized_def sum_list_butlast_last t_def)
    from Suc.hyps(1) [OF nt(2) this] obtain k where k: "k \<le> len" "trim_loop m t = trim_prefix t k"
      "k = 0 \<or> sp_packed_size (trim_loop m t) \<le> m \<and>
        nack_sn (sp_nacks t ! (k - 1)) \<noteq> sp_ack_sn (trim_loop m t)"
      unfolding nt(2) [symmetric] by blast
    have "trim_prefix t k = trim_prefix s k"
      using k(1) Suc.hyps(2) [symmetric] lst
      by (cases "k = len") (auto simp: t_def trim_prefix_def take_butlast nth_butlast butlast_conv_take)
    moreover have "k \<noteq> 0 \<Longrightarrow> sp_nacks t ! (k - 1) = sp_nacks s ! (k - 1)"
      using k(1) Suc.hyps(2) by (simp add: nt(1) nth_butlast)
    ultimately show ?thesis
      using k Suc.hyps(2) unfolding loop by (intro exI [of _ k]) (cases "k = 0"; simp)
  next
    case False
    then have loop: "trim_loop m s = s" by (subst trim_loop.simps) simp
    then show ?thesis
      using False lst trim_prefix_all [OF Suc.prems] unfolding Suc.hyps(2) [symmetric]
      by (intro exI [of _ "Suc len"]) (simp add: not_less)
  qed
qed

lemma status_trim_prefix:
  assumes "status_sized s" "status_trim s m = (True, t)"
  obtains k where "k \<le> length (sp_nacks s)" "t = trim_prefix s k" "sp_packed_size t \<le> m"
    "k < length (sp_nacks s) \<Longrightarrow> k \<noteq> 0 \<Longrightarrow> nack_sn (sp_nacks s ! (k - 1)) \<noteq> sp_ack_sn t"
proof (cases "sp_packed_size s \<le> m")
  case True
  with assms have "t = s" by (simp add: status_trim_def)
  with that [of "length (sp_nacks s)"] True trim_prefix_all [OF assms(1)] show thesis by simp
next
  case False
  with assms have t: "t = trim_loop m s" and m: "3 \<le> m"
    by (auto simp: status_trim_def status_sizes split: if_splits)
  from trim_loop_prefix [OF assms(1), of m] obtain k where k: "k \<le> length (sp_nacks s)"
    "t = trim_prefix s k" "k = 0 \<or> sp_packed_size t \<le> m \<and> nack_sn (sp_nacks s ! (k - 1)) \<noteq> sp_ack_sn t"
    unfolding t by blast
  have "sp_packed_size t \<le> m"
    using k m by (cases "k = 0") (simp_all add: trim_prefix_def)
  with k show thesis by (intro that [of k]) auto
qed

section \<open>Properties\<close>

text \<open>C14: A status PDU built from a fresh one with \<open>push_nack\<close>, for any list of NACKs whose SNs fit the SN
  field and any such ACK_SN, is read back as it was packed, its stored packed size is the number of
  bytes packed, and that size is what \<open>refresh_packed_size\<close> computes from the NACKs.\<close>

theorem status_pdu_roundtrip:
  assumes "list_all (nack_canon (am_mod sz)) ns" "ack < am_mod sz" "sp_sn_size t = sz"
  shows "let s = (foldl push_nack (rlc_am_status_pdu_init sz) ns)\<lparr>sp_ack_sn := ack\<rparr> in
    status_unpack t (status_pack s []) = (True, s) \<and>
    of_nat (length (status_pack s [])) = sp_packed_size s \<and> refresh_packed_size s = s"
proof -
  let ?p = "foldl push_nack (rlc_am_status_pdu_init sz) ns"
  let ?s = "?p\<lparr>sp_ack_sn := ack\<rparr>"
  have wf: "status_wf ?s" using assms status_wf_pushes [of "rlc_am_status_pdu_init sz" ns] by simp
  have "sp_sn_size (foldl push_nack s ns) = sp_sn_size s" for s by (induction ns arbitrary: s) simp_all
  then have sz: "sp_sn_size ?s = sz" by (simp add: rlc_am_status_pdu_init_def)
  then have "sp_ack_sn ?s < mod_nr ?s" using assms by (simp add: mod_nr_def)
  with wf sz assms(3) have "status_unpack t (status_pack ?s []) = (True, ?s)"
    by (intro status_unpack_pack) simp_all
  moreover from wf have "status_sized ?s" by (simp only: status_wf_def)
  ultimately show ?thesis
    by (simp only: Let_def status_pack_length status_sized_refresh)
qed

theorem status_pdu_roundtrip_witness:
  "let n = rlc_am_status_nack_init\<lparr>nack_sn := 5, has_so := True, so_start := 300, so_end := 400\<rparr>;
       s = (foldl push_nack (rlc_am_status_pdu_init Am_size18bits)
             [n, rlc_am_status_nack_init\<lparr>nack_sn := 262143\<rparr>, rlc_am_status_nack_init\<lparr>nack_sn := 0\<rparr>])
             \<lparr>sp_ack_sn := 7\<rparr> in
    status_unpack (rlc_am_status_pdu_init Am_size18bits) (status_pack s []) = (True, s)"
  using status_pdu_roundtrip [of Am_size18bits
      "[rlc_am_status_nack_init\<lparr>nack_sn := 5, has_so := True, so_start := 300, so_end := 400\<rparr>,
        rlc_am_status_nack_init\<lparr>nack_sn := 262143\<rparr>, rlc_am_status_nack_init\<lparr>nack_sn := 0\<rparr>]"
      7 "rlc_am_status_pdu_init Am_size18bits"]
  by (simp add: nack_canon_def rlc_am_status_nack_init_def rlc_am_status_pdu_init_def Let_def)

text \<open>C15: Merging consecutive NACKs loses and adds nothing: after \<open>push_nack\<close> the status PDU reports a byte
  of an SDU as missing exactly when it did before or the pushed NACK does, as long as the two
  neighbouring NACKs span fewer than 256 SDUs.\<close>

theorem push_nack_reports:
  assumes "sp_nacks s \<noteq> [] \<Longrightarrow> 0 < nack_count (last (sp_nacks s))"
    and "sp_nacks s \<noteq> [] \<Longrightarrow> nack_count (last (sp_nacks s)) + nack_count n < 256"
    and "0 < nack_count n"
  shows "status_covers (push_nack s n) sn off \<longleftrightarrow>
    status_covers s sn off \<or> nack_covers (mod_nr s) n sn off"
  using assms by (intro push_nack_covers) auto

theorem push_nack_reports_witness:
  "let s = push_nack (rlc_am_status_pdu_init Am_size12bits) (rlc_am_status_nack_init\<lparr>nack_sn := 4095\<rparr>)
   in status_covers (push_nack s rlc_am_status_nack_init) 0 17"
  using push_nack_reports [of "push_nack (rlc_am_status_pdu_init Am_size12bits)
      (rlc_am_status_nack_init\<lparr>nack_sn := 4095\<rparr>)" rlc_am_status_nack_init 0 17]
  by (simp add: push_nack_def rlc_am_status_pdu_init_def rlc_am_status_nack_init_def nack_count_def
      nack_covers_def)


text \<open>C16: Trimming a status PDU to a grant of at least three bytes succeeds, leaves a prefix of the NACKs
  whose packed size fits the grant, and acknowledges no SDU whose NACK it drops: in the order of a
  window that starts at \<open>b\<close>, the new ACK_SN is not above the old one, every dropped NACK starts at or
  above it and every NACK kept starts below it.\<close>

theorem status_trim_safe:
  assumes "status_wf s" "3 \<le> m"
    and "sorted (map (sn_off (mod_nr s) b \<circ> nack_sn) (sp_nacks s))"
    and "list_all (\<lambda>n. sn_off (mod_nr s) b (nack_sn n) < sn_off (mod_nr s) b (sp_ack_sn s)) (sp_nacks s)"
  shows "\<exists>t k. status_trim s m = (True, t) \<and> sp_nacks t = take k (sp_nacks s) \<and> sp_packed_size t \<le> m \<and>
    status_sized t \<and>
    sn_off (mod_nr s) b (sp_ack_sn t) \<le> sn_off (mod_nr s) b (sp_ack_sn s) \<and>
    list_all (\<lambda>n. sn_off (mod_nr s) b (sp_ack_sn t) \<le> sn_off (mod_nr s) b (nack_sn n)) (drop k (sp_nacks s)) \<and>
    list_all (\<lambda>n. sn_off (mod_nr s) b (nack_sn n) < sn_off (mod_nr s) b (sp_ack_sn t)) (take k (sp_nacks s))"
proof -
  let ?o = "sn_off (mod_nr s) b" and ?ns = "sp_nacks s"
  have szd: "status_sized s" using assms(1) by (simp add: status_wf_def)
  obtain t where t: "status_trim s m = (True, t)"
    using assms(2) by (cases "sp_packed_size s \<le> m") (auto simp: status_trim_def status_sizes not_less [symmetric])
  obtain k where k: "k \<le> length ?ns" "t = trim_prefix s k" "sp_packed_size t \<le> m"
    "k < length ?ns \<Longrightarrow> k \<noteq> 0 \<Longrightarrow> nack_sn (?ns ! (k - 1)) \<noteq> sp_ack_sn t"
    using status_trim_prefix [OF szd t] by blast
  have nk: "sp_nacks t = take k ?ns" and "status_sized t"
    using k(2) by (simp_all add: trim_prefix_def status_sized_def)
  have mono: "?o (nack_sn (?ns ! i)) \<le> ?o (nack_sn (?ns ! j))" if "i \<le> j" "j < length ?ns" for i j
    using sorted_nth_mono [OF assms(3), of i j] that by simp
  have below: "?o (nack_sn (?ns ! i)) < ?o (sp_ack_sn s)" if "i < length ?ns" for i
    using assms(4) that by (simp add: list_all_length)
  have canon: "nack_sn (?ns ! i) < am_mod (sp_sn_size s)" if "i < length ?ns" for i
    using assms(1) that by (simp add: status_wf_def list_all_length nack_canon_def mod_nr_def)
  show ?thesis
  proof (cases "k < length ?ns")
    case True
    then have a: "sp_ack_sn t = nack_sn (?ns ! k)" by (simp add: k(2) trim_prefix_def)
    have "?o (nack_sn (?ns ! i)) < ?o (nack_sn (?ns ! k))" if i: "i < k" for i
    proof -
      have "?o (nack_sn (?ns ! (k - 1))) \<noteq> ?o (nack_sn (?ns ! k))"
        using am.off_inj [of "nack_sn (?ns ! (k - 1))" "sp_sn_size s" "nack_sn (?ns ! k)" b] i True
          canon [of k] canon [of "k - 1"] k(4) a by (auto simp: mod_nr_def)
      with mono [of "k - 1" k] mono [of i "k - 1"] i True show ?thesis by linarith
    qed
    then have "list_all (\<lambda>n. ?o (nack_sn n) < ?o (sp_ack_sn t)) (take k ?ns)"
      using True by (simp add: list_all_length a)
    moreover have "list_all (\<lambda>n. ?o (sp_ack_sn t) \<le> ?o (nack_sn n)) (drop k ?ns)"
      using mono by (simp add: list_all_length a)
    ultimately show ?thesis
      using t nk k(3) \<open>status_sized t\<close> below [OF True] a by (intro exI [of _ t] exI [of _ k]) simp
  next
    case False
    then have "sp_ack_sn t = sp_ack_sn s" by (simp add: k(2) trim_prefix_def)
    then show ?thesis
      using t nk k(3) \<open>status_sized t\<close> assms(4) False by (intro exI [of _ t] exI [of _ k]) simp
  qed
qed

theorem status_trim_safe_witness:
  "let s = (foldl push_nack (rlc_am_status_pdu_init Am_size12bits)
         [rlc_am_status_nack_init\<lparr>nack_sn := 4094\<rparr>, rlc_am_status_nack_init\<lparr>nack_sn := 1\<rparr>])
         \<lparr>sp_ack_sn := 3\<rparr> in
    \<exists>t. status_trim s 5 = (True, t) \<and> sp_packed_size t \<le> 5"
proof -
  let ?s = "(foldl push_nack (rlc_am_status_pdu_init Am_size12bits)
         [rlc_am_status_nack_init\<lparr>nack_sn := 4094\<rparr>, rlc_am_status_nack_init\<lparr>nack_sn := 1\<rparr>])
         \<lparr>sp_ack_sn := 3\<rparr>"
  have "status_wf ?s" by code_simp
  moreover have "sorted (map (sn_off (mod_nr ?s) 4090 \<circ> nack_sn) (sp_nacks ?s))"
    by code_simp
  moreover have "list_all (\<lambda>n. sn_off (mod_nr ?s) 4090 (nack_sn n) < sn_off (mod_nr ?s) 4090 (sp_ack_sn ?s))
      (sp_nacks ?s)"
    by code_simp
  ultimately show ?thesis
    using status_trim_safe [of ?s 5 4090] by (simp only: Let_def) auto
qed

end
