(* ===== verification/Rlc_Rx_Am.thy ===== *)
theory Rlc_Rx_Am
  imports Rlc_Am_Status Rlc_Am_Window
begin

text \<open>
  The receiving AM entity (\<open>lib/rlc/rlc_rx_am_entity.h\<close> and \<open>.cpp\<close>): the receive window with the
  segments of partly received SDUs, the state variables of TS 38.322, the reassembly and status
  prohibit timers and the cached status report.

  The \<open>std::set\<close> of segments is a list in increasing order of the segment offset.  A timer is the
  flag whether it is running; the handler of an expiry is called with the timer no longer running.
  Notifications to the upper layer and to the transmitting entity are returned in the order the code
  sends them.  Starting the status prohibit timer is deferred to the executor of the UE; the tasks
  waiting there are counted.
\<close>

section \<open>State\<close>

record rlc_rx_am_sdu_segment =
  ams_si :: rlc_si_field
  ams_so :: u16
  ams_payload :: bytes

record rlc_rx_am_sdu_info =
  ami_fully_received :: bool
  ami_has_gap :: bool
  ami_segments :: "rlc_rx_am_sdu_segment list"
  ami_sdu :: bytes

definition rlc_rx_am_sdu_info_init :: rlc_rx_am_sdu_info where
  "rlc_rx_am_sdu_info_init =
    \<lparr>ami_fully_received = False, ami_has_gap = False, ami_segments = [], ami_sdu = []\<rparr>"

datatype rlc_am_rx_event =
    Am_new_sdu bytes
  | Am_status_pdu rlc_am_status_pdu
  | Am_status_report_changed

record rlc_rx_am_entity =
  rx_next :: u32
  rx_next_status_trigger :: u32
  rx_highest_status :: u32
  rx_next_highest :: u32
  do_status :: bool
  rx_window :: "rlc_rx_am_sdu_info am_win"
  status_report :: rlc_am_status_pdu
  status_report_size :: u32
  status_prohibit_timer_is_running :: bool
  status_prohibit_timer :: bool
  deferred_prohibit_starts :: nat
  reassembly_timer :: bool

definition rlc_rx_am_entity_init :: "rlc_rx_am_config \<Rightarrow> rlc_rx_am_entity" where
  "rlc_rx_am_entity_init cfg =
    (let report = (rlc_am_status_pdu_init (rxam_sn_field_length cfg))\<lparr>sp_ack_sn := 0\<rparr> in
     \<lparr>rx_next = 0, rx_next_status_trigger = 0, rx_highest_status = 0, rx_next_highest = 0,
      do_status = False, rx_window = circular_map_init, status_report = report,
      status_report_size = sp_packed_size report, status_prohibit_timer_is_running = False,
      status_prohibit_timer = False, deferred_prohibit_starts = 0, reassembly_timer = False\<rparr>)"

definition amrx_mod :: "rlc_rx_am_config \<Rightarrow> u32" where
  "amrx_mod cfg = am_mod (rxam_sn_field_length cfg)"

definition amrx_window_size :: "rlc_rx_am_config \<Rightarrow> u32" where
  "amrx_window_size cfg = am_window (rxam_sn_field_length cfg)"

definition rx_mod_base :: "rlc_rx_am_config \<Rightarrow> rlc_rx_am_entity \<Rightarrow> u32 \<Rightarrow> u32" where
  "rx_mod_base cfg e sn = (sn - rx_next e) mod amrx_mod cfg"

definition inside_rx_window :: "rlc_rx_am_config \<Rightarrow> rlc_rx_am_entity \<Rightarrow> u32 \<Rightarrow> bool" where
  "inside_rx_window cfg e sn \<longleftrightarrow> rx_mod_base cfg e sn < amrx_window_size cfg"

definition amrx_valid_ack_sn :: "rlc_rx_am_config \<Rightarrow> rlc_rx_am_entity \<Rightarrow> u32 \<Rightarrow> bool" where
  "amrx_valid_ack_sn cfg e sn \<longleftrightarrow>
    0 < rx_mod_base cfg e sn \<and> rx_mod_base cfg e sn \<le> amrx_window_size cfg"

text \<open>\<open>rx_window->has_sn(sn) && (*rx_window)[sn].fully_received\<close>, a test the handlers share.\<close>

definition amrx_complete :: "rlc_rx_am_config \<Rightarrow> rlc_rx_am_entity \<Rightarrow> u32 \<Rightarrow> bool" where
  "amrx_complete cfg e sn \<longleftrightarrow>
    win_has_sn (rxam_sn_field_length cfg) (rx_window e) sn \<and>
    (case win_get (rxam_sn_field_length cfg) (rx_window e) sn of
       Inl _ \<Rightarrow> False | Inr info \<Rightarrow> ami_fully_received info)"

section \<open>Segments\<close>

text \<open>\<open>std::set::insert\<close>: nothing happens when a segment with the same offset is there.\<close>

fun segment_insert ::
  "rlc_rx_am_sdu_segment \<Rightarrow> rlc_rx_am_sdu_segment list \<Rightarrow> rlc_rx_am_sdu_segment list" where
  "segment_insert x [] = [x]"
| "segment_insert x (y # ys) =
    (if ams_so x < ams_so y then x # y # ys
     else if ams_so x = ams_so y then y # ys
     else y # segment_insert x ys)"

definition last_byte :: "rlc_rx_am_sdu_segment \<Rightarrow> u32" where
  "last_byte s = ucast (ams_so s) + of_nat (length (ams_payload s)) - 1"

definition segment_advance :: "u32 \<Rightarrow> rlc_rx_am_sdu_segment \<Rightarrow> rlc_rx_am_sdu_segment" where
  "segment_advance first s =
    s\<lparr>ams_payload := drop (unat (first - ucast (ams_so s))) (ams_payload s), ams_so := ucast first\<rparr>"

text \<open>
  The loop of \<open>store_segment\<close>: \<open>before\<close> are the segments passed, the list is what the iterator has
  still to visit.
\<close>

fun store_segment_loop ::
  "rlc_rx_am_sdu_segment list \<Rightarrow> rlc_rx_am_sdu_segment list \<Rightarrow> rlc_rx_am_sdu_segment \<Rightarrow>
    bool \<times> rlc_rx_am_sdu_segment list" where
  "store_segment_loop before [] new = (True, segment_insert new before)"
| "store_segment_loop before (cur # rest) new =
    (if ucast (ams_so new) > last_byte cur then store_segment_loop (before @ [cur]) rest new
     else if ams_so new \<ge> ams_so cur then
       if last_byte new \<le> last_byte cur then (False, before @ cur # rest)
       else store_segment_loop (before @ [cur]) rest (segment_advance (last_byte cur + 1) new)
     else if last_byte new < ucast (ams_so cur) then (True, segment_insert new (before @ cur # rest))
     else if last_byte new < last_byte cur then
       (True, segment_insert new
          (segment_insert (segment_advance (last_byte new + 1) cur) (before @ rest)))
     else store_segment_loop before rest new)"

definition store_segment ::
  "rlc_rx_am_sdu_segment \<Rightarrow> rlc_rx_am_sdu_info \<Rightarrow> bool \<times> rlc_rx_am_sdu_info" where
  "store_segment new info =
    (case store_segment_loop [] (ami_segments info) new of
       (stored, segs) \<Rightarrow> (stored, info\<lparr>ami_segments := segs\<rparr>))"

text \<open>The loop of \<open>update_segment_inventory\<close>: the flags \<open>fully_received\<close> and \<open>has_gap\<close>.\<close>

fun segment_inventory :: "u32 \<Rightarrow> rlc_rx_am_sdu_segment list \<Rightarrow> bool \<times> bool" where
  "segment_inventory next_byte [] = (False, False)"
| "segment_inventory next_byte (segm # segs) =
    (if ucast (ams_so segm) \<noteq> next_byte then (False, True)
     else if ams_si segm = Last_segment then (True, False)
     else segment_inventory (next_byte + of_nat (length (ams_payload segm))) segs)"

definition update_segment_inventory :: "rlc_rx_am_sdu_info \<Rightarrow> rlc_rx_am_sdu_info" where
  "update_segment_inventory info =
    (if ami_segments info = [] then info\<lparr>ami_fully_received := False, ami_has_gap := False\<rparr>
     else case segment_inventory 0 (ami_segments info) of
       (full, gap) \<Rightarrow> info\<lparr>ami_fully_received := full, ami_has_gap := gap\<rparr>)"

section \<open>Storing data\<close>

text \<open>The element for an SN, added when the window does not have it.\<close>

definition amrx_find_or_add ::
  "rlc_rx_am_config \<Rightarrow> u32 \<Rightarrow> rlc_rx_am_entity \<Rightarrow> (rlc_rx_am_sdu_info \<times> rlc_rx_am_entity) res" where
  "amrx_find_or_add cfg sn e =
    (let sz = rxam_sn_field_length cfg in
     if win_has_sn sz (rx_window e) sn then
       (case win_get sz (rx_window e) sn of Inl f \<Rightarrow> Inl f | Inr info \<Rightarrow> Inr (info, e))
     else
       (case win_add_sn sz sn rlc_rx_am_sdu_info_init (rx_window e) of
          Inl f \<Rightarrow> Inl f
        | Inr w \<Rightarrow> Inr (rlc_rx_am_sdu_info_init, e\<lparr>rx_window := w\<rparr>)))"

definition amrx_write_info ::
  "rlc_rx_am_config \<Rightarrow> u32 \<Rightarrow> rlc_rx_am_sdu_info \<Rightarrow> rlc_rx_am_entity \<Rightarrow> rlc_rx_am_entity res" where
  "amrx_write_info cfg sn info e =
    (case win_set (rxam_sn_field_length cfg) sn info (rx_window e) of
       Inl f \<Rightarrow> Inl f | Inr w \<Rightarrow> Inr (e\<lparr>rx_window := w\<rparr>))"

definition handle_full_data_sdu ::
  "rlc_rx_am_config \<Rightarrow> rlc_am_pdu_header \<Rightarrow> bytes \<Rightarrow> rlc_rx_am_entity \<Rightarrow> (bool \<times> rlc_rx_am_entity) res" where
  "handle_full_data_sdu cfg header payload e =
    (if am_si header \<noteq> Full_sdu then Inr (False, e)
     else
       case amrx_find_or_add cfg (am_sn header) e of
         Inl f \<Rightarrow> Inl f
       | Inr (info, e) \<Rightarrow>
           (case amrx_write_info cfg (am_sn header)
                   (info\<lparr>ami_segments := [], ami_sdu := payload, ami_fully_received := True,
                         ami_has_gap := False\<rparr>) e of
              Inl f \<Rightarrow> Inl f
            | Inr e \<Rightarrow> Inr (True, e)))"

text \<open>What a new segment makes of the element: store, take inventory, and chain when complete.\<close>

definition amrx_store_segment ::
  "rlc_rx_am_sdu_segment \<Rightarrow> rlc_rx_am_sdu_info \<Rightarrow> bool \<times> rlc_rx_am_sdu_info" where
  "amrx_store_segment segment info =
    (case store_segment segment info of
       (stored, info) \<Rightarrow>
         (let info = update_segment_inventory info in
          (stored,
           if ami_fully_received info
           then info\<lparr>ami_sdu := ami_sdu info @ concat (map ams_payload (ami_segments info)),
                     ami_segments := []\<rparr>
           else info)))"

definition handle_segment_data_sdu ::
  "rlc_rx_am_config \<Rightarrow> rlc_am_pdu_header \<Rightarrow> bytes \<Rightarrow> rlc_rx_am_entity \<Rightarrow> (bool \<times> rlc_rx_am_entity) res" where
  "handle_segment_data_sdu cfg header payload e =
    (if am_si header = Full_sdu then Inr (False, e)
     else
       case amrx_find_or_add cfg (am_sn header) e of
         Inl f \<Rightarrow> Inl f
       | Inr (info, e) \<Rightarrow>
           (case amrx_store_segment
                   \<lparr>ams_si = am_si header, ams_so = am_so header, ams_payload = payload\<rparr> info of
              (stored, info) \<Rightarrow>
                (case amrx_write_info cfg (am_sn header) info e of
                   Inl f \<Rightarrow> Inl f
                 | Inr e \<Rightarrow> Inr (stored, e))))"

section \<open>State variables\<close>

text \<open>
  The SN loops step through the SNs up to RX_Next_Highest or RX_Highest_Status; the distance of the
  loop variable from RX_Next grows in every round, so they end.
\<close>

lemma rx_loop_measure:
  assumes "rx_mod_base cfg e sn < rx_mod_base cfg e hi"
  shows "unat (rx_mod_base cfg e hi) - unat (rx_mod_base cfg e ((sn + 1) mod amrx_mod cfg)) <
    unat (rx_mod_base cfg e hi) - unat (rx_mod_base cfg e sn)"
proof -
  let ?o = "sn_off (amrx_mod cfg) (rx_next e)"
  have o: "unat (rx_mod_base cfg e x) = ?o x" for x by (simp add: rx_mod_base_def sn_off_def)
  have "?o sn < ?o hi" using assms by (simp add: word_less_nat_alt o)
  moreover have "?o hi < unat (amrx_mod cfg)" by (simp only: amrx_mod_def am.off_less)
  ultimately have "?o ((sn + 1) mod amrx_mod cfg) = Suc (?o sn)"
    unfolding amrx_mod_def by (intro am.off_succ_less) simp
  with \<open>?o sn < ?o hi\<close> show ?thesis by (simp add: o)
qed

lemma rx_base_window [simp]: "rx_mod_base cfg (e\<lparr>rx_window := w\<rparr>) = rx_mod_base cfg e"
  by (intro ext) (simp add: rx_mod_base_def)

function amrx_first_incomplete :: "rlc_rx_am_config \<Rightarrow> rlc_rx_am_entity \<Rightarrow> u32 \<Rightarrow> u32" where
  "amrx_first_incomplete cfg e sn =
    (if rx_mod_base cfg e sn < rx_mod_base cfg e (rx_next_highest e) then
       if amrx_complete cfg e sn then amrx_first_incomplete cfg e ((sn + 1) mod amrx_mod cfg)
       else sn
     else sn)"
  by pat_completeness auto
termination
  by (relation "measure (\<lambda>(cfg, e, sn). unat (rx_mod_base cfg e (rx_next_highest e)) -
      unat (rx_mod_base cfg e sn))") (auto intro: rx_loop_measure)

function amrx_remove_received ::
  "rlc_rx_am_config \<Rightarrow> rlc_rx_am_entity \<Rightarrow> u32 \<Rightarrow> (u32 \<times> rlc_rx_am_entity) res" where
  "amrx_remove_received cfg e sn =
    (if rx_mod_base cfg e sn < rx_mod_base cfg e (rx_next_highest e) then
       if amrx_complete cfg e sn then
         (case win_remove_sn (rxam_sn_field_length cfg) sn (rx_window e) of
            Inl f \<Rightarrow> Inl f
          | Inr w \<Rightarrow> amrx_remove_received cfg (e\<lparr>rx_window := w\<rparr>) ((sn + 1) mod amrx_mod cfg))
       else Inr (sn, e)
     else Inr (sn, e))"
  by pat_completeness auto
termination
  by (relation "measure (\<lambda>(cfg, e, sn). unat (rx_mod_base cfg e (rx_next_highest e)) -
      unat (rx_mod_base cfg e sn))")
    (auto intro: rx_loop_measure)

declare amrx_first_incomplete.simps [simp del]
declare amrx_remove_received.simps [simp del]

text \<open>The actions when an SDU is complete: delivery, RX_Highest_Status, RX_Next.\<close>

definition amrx_deliver ::
  "rlc_rx_am_config \<Rightarrow> u32 \<Rightarrow> rlc_rx_am_entity \<Rightarrow> (rlc_am_rx_event list \<times> rlc_rx_am_entity) res" where
  "amrx_deliver cfg sn e =
    (case win_get (rxam_sn_field_length cfg) (rx_window e) sn of
       Inl f \<Rightarrow> Inl f
     | Inr info \<Rightarrow>
         (case amrx_write_info cfg sn (info\<lparr>ami_sdu := []\<rparr>) e of
            Inl f \<Rightarrow> Inl f
          | Inr e \<Rightarrow> Inr ([Am_new_sdu (ami_sdu info)], e)))"

definition amrx_update_highest_status :: "rlc_rx_am_config \<Rightarrow> u32 \<Rightarrow> rlc_rx_am_entity \<Rightarrow> rlc_rx_am_entity" where
  "amrx_update_highest_status cfg sn e =
    (if rx_mod_base cfg e sn = rx_mod_base cfg e (rx_highest_status e)
     then e\<lparr>rx_highest_status :=
              amrx_first_incomplete cfg e ((rx_highest_status e + 1) mod amrx_mod cfg)\<rparr>
     else e)"

definition amrx_update_next :: "rlc_rx_am_config \<Rightarrow> u32 \<Rightarrow> rlc_rx_am_entity \<Rightarrow> rlc_rx_am_entity res" where
  "amrx_update_next cfg sn e =
    (if rx_mod_base cfg e sn = rx_mod_base cfg e (rx_next e) then
       (case amrx_remove_received cfg e (rx_next e mod amrx_mod cfg) of
          Inl f \<Rightarrow> Inl f
        | Inr (sn_upd, e) \<Rightarrow> Inr (e\<lparr>rx_next := sn_upd\<rparr>))
     else Inr e)"

definition amrx_sdu_complete ::
  "rlc_rx_am_config \<Rightarrow> u32 \<Rightarrow> rlc_rx_am_entity \<Rightarrow> (rlc_am_rx_event list \<times> rlc_rx_am_entity) res" where
  "amrx_sdu_complete cfg sn e =
    (if amrx_complete cfg e sn then
       (case amrx_deliver cfg sn e of
          Inl f \<Rightarrow> Inl f
        | Inr (evs, e) \<Rightarrow>
            (case amrx_update_next cfg sn (amrx_update_highest_status cfg sn e) of
               Inl f \<Rightarrow> Inl f
             | Inr e \<Rightarrow> Inr (evs, e)))
     else Inr ([], e))"

text \<open>The two halves of the timer handling.\<close>

definition amrx_timer_stop :: "rlc_rx_am_config \<Rightarrow> rlc_rx_am_entity \<Rightarrow> rlc_rx_am_entity res" where
  "amrx_timer_stop cfg e =
    (if reassembly_timer e then
       (let stop1 = (rx_next_status_trigger e = rx_next e);
            stop2 = (if rx_mod_base cfg e (rx_next_status_trigger e) = rx_mod_base cfg e (rx_next e + 1)
                     then (case win_get (rxam_sn_field_length cfg) (rx_window e) (rx_next e) of
                             Inl f \<Rightarrow> Inl f | Inr info \<Rightarrow> Inr (\<not> ami_has_gap info))
                     else Inr False) in
        case stop2 of
          Inl f \<Rightarrow> Inl f
        | Inr s2 \<Rightarrow>
            Inr (if stop1 \<or> s2 \<or> \<not> inside_rx_window cfg e (rx_next_status_trigger e)
                 then e\<lparr>reassembly_timer := False\<rparr> else e))
     else Inr e)"

text \<open>Whether the SDU is in the window with a gap before its last received byte.\<close>

definition amrx_has_gap :: "rlc_rx_am_config \<Rightarrow> rlc_rx_am_entity \<Rightarrow> u32 \<Rightarrow> bool" where
  "amrx_has_gap cfg e sn \<longleftrightarrow>
    win_has_sn (rxam_sn_field_length cfg) (rx_window e) sn \<and>
    (case win_get (rxam_sn_field_length cfg) (rx_window e) sn of
       Inl _ \<Rightarrow> False | Inr info \<Rightarrow> ami_has_gap info)"

definition amrx_timer_start :: "rlc_rx_am_config \<Rightarrow> rlc_rx_am_entity \<Rightarrow> rlc_rx_am_entity" where
  "amrx_timer_start cfg e =
    (if \<not> reassembly_timer e \<and>
        (rx_mod_base cfg e (rx_next_highest e) > rx_mod_base cfg e (rx_next e + 1) \<or>
         rx_mod_base cfg e (rx_next_highest e) = rx_mod_base cfg e (rx_next e + 1) \<and>
           amrx_has_gap cfg e (rx_next e))
     then e\<lparr>reassembly_timer := True, rx_next_status_trigger := rx_next_highest e\<rparr>
     else e)"

section \<open>Status reports\<close>

text \<open>The NACKs for the missing parts of an SDU of which some segments are there.\<close>

fun nack_segments ::
  "u32 \<Rightarrow> rlc_rx_am_sdu_segment list \<Rightarrow> u32 \<Rightarrow> bool \<Rightarrow> rlc_am_status_pdu \<Rightarrow>
    (u32 \<times> bool \<times> rlc_am_status_pdu) res" where
  "nack_segments i [] last_so have_last_segment s = Inr (last_so, have_last_segment, s)"
| "nack_segments i (segm # segs) last_so have_last_segment s =
    (let nack = rlc_am_status_nack_init\<lparr>nack_sn := i, has_so := True, so_start := ucast last_so,
                                        so_end := ams_so segm - 1\<rparr>;
         gap = (ucast (ams_so segm) \<noteq> last_so) in
     if gap \<and> so_start nack > so_end nack then Inl Assertion_failed
     else nack_segments i segs (ucast (ams_so segm) + of_nat (length (ams_payload segm)))
            (have_last_segment \<or> ams_si segm = Last_segment) (if gap then push_nack s nack else s))"

definition nack_sdu ::
  "rlc_rx_am_config \<Rightarrow> rlc_rx_am_entity \<Rightarrow> u32 \<Rightarrow> rlc_am_status_pdu \<Rightarrow> rlc_am_status_pdu res" where
  "nack_sdu cfg e i s =
    (if amrx_complete cfg e i then Inr s
     else if \<not> win_has_sn (rxam_sn_field_length cfg) (rx_window e) i then
       Inr (push_nack s (rlc_am_status_nack_init\<lparr>nack_sn := i, has_so := False\<rparr>))
     else
       (case win_get (rxam_sn_field_length cfg) (rx_window e) i of
          Inl f \<Rightarrow> Inl f
        | Inr info \<Rightarrow>
            (case nack_segments i (ami_segments info) 0 False s of
               Inl f \<Rightarrow> Inl f
             | Inr (last_so, have_last_segment, s) \<Rightarrow>
                 if \<not> have_last_segment then
                   (let nack = rlc_am_status_nack_init\<lparr>nack_sn := i, has_so := True,
                          so_start := ucast last_so, so_end := so_end_of_sdu\<rparr> in
                    if \<not> so_start nack \<le> so_end nack then Inl Assertion_failed
                    else Inr (push_nack s nack))
                 else Inr s)))"

function nack_loop ::
  "rlc_rx_am_config \<Rightarrow> rlc_rx_am_entity \<Rightarrow> u32 \<Rightarrow> rlc_am_status_pdu \<Rightarrow> rlc_am_status_pdu res" where
  "nack_loop cfg e i s =
    (if rx_mod_base cfg e i < rx_mod_base cfg e (rx_highest_status e) then
       (case nack_sdu cfg e i s of
          Inl f \<Rightarrow> Inl f
        | Inr s' \<Rightarrow> nack_loop cfg e ((i + 1) mod amrx_mod cfg) s')
     else Inr s)"
  by pat_completeness auto
termination
  by (relation "measure (\<lambda>(cfg, e, i, s). unat (rx_mod_base cfg e (rx_highest_status e)) -
      unat (rx_mod_base cfg e i))") (auto intro: rx_loop_measure)

declare nack_loop.simps [simp del]

definition store_status_report :: "rlc_am_status_pdu \<Rightarrow> rlc_rx_am_entity \<Rightarrow> rlc_rx_am_entity" where
  "store_status_report status e =
    e\<lparr>status_report := status, status_report_size := sp_packed_size status\<rparr>"

definition refresh_status_report :: "rlc_rx_am_config \<Rightarrow> rlc_rx_am_entity \<Rightarrow> rlc_rx_am_entity res" where
  "refresh_status_report cfg e =
    (case nack_loop cfg e (rx_next e) (rlc_am_status_pdu_init (rxam_sn_field_length cfg)) of
       Inl f \<Rightarrow> Inl f
     | Inr tmp_status_report \<Rightarrow>
         Inr (store_status_report (tmp_status_report\<lparr>sp_ack_sn := rx_highest_status e\<rparr>) e))"

definition status_report_required :: "rlc_rx_am_entity \<Rightarrow> bool" where
  "status_report_required e \<longleftrightarrow> do_status e \<and> \<not> status_prohibit_timer_is_running e"

definition notify_status_report_changed :: "rlc_rx_am_entity \<Rightarrow> rlc_am_rx_event list" where
  "notify_status_report_changed e =
    (if status_report_required e then [Am_status_report_changed] else [])"

definition get_status_pdu_length :: "rlc_rx_am_entity \<Rightarrow> u32" where
  "get_status_pdu_length e = status_report_size e"

text \<open>\<open>get_status_pdu\<close>, called by the transmitting entity; the argument says whether the executor
  takes the task that starts the prohibit timer, which \<open>amrx_run_prohibit_start\<close> is.\<close>

definition get_status_pdu ::
  "rlc_rx_am_config \<Rightarrow> bool \<Rightarrow> rlc_rx_am_entity \<Rightarrow> rlc_am_status_pdu \<times> rlc_rx_am_entity" where
  "get_status_pdu cfg defer_ok e =
    (let e = e\<lparr>do_status := False\<rparr>;
         e = (if rxam_t_status_prohibit cfg > 0
              then e\<lparr>deferred_prohibit_starts := deferred_prohibit_starts e + (if defer_ok then 1 else 0),
                     status_prohibit_timer_is_running := True\<rparr>
              else e)
     in (status_report e, e))"

definition amrx_run_prohibit_start :: "rlc_rx_am_entity \<Rightarrow> rlc_rx_am_entity" where
  "amrx_run_prohibit_start e =
    e\<lparr>deferred_prohibit_starts := deferred_prohibit_starts e - 1, status_prohibit_timer := True\<rparr>"

section \<open>Handlers\<close>

text \<open>
  The body of \<open>handle_data_pdu\<close>: whether the status changed and was requested, the notifications and
  the state, on every way out of the function.
\<close>

definition amrx_data_body ::
  "rlc_rx_am_config \<Rightarrow> bytes \<Rightarrow> rlc_rx_am_entity \<Rightarrow>
    (bool \<times> bool \<times> rlc_am_rx_event list \<times> rlc_rx_am_entity) res" where
  "amrx_data_body cfg buf e =
    (case rlc_am_read_data_pdu_header buf (rxam_sn_field_length cfg) rlc_am_pdu_header_init of
       None \<Rightarrow> Inr (False, False, [], e)
     | Some header \<Rightarrow>
         (let header_len = am_get_packed_size header in
          if length buf \<le> header_len then Inr (False, False, [], e)
          else
            let payload = drop header_len buf;
                status_requested = (am_p header \<noteq> 0);
                sn = am_sn header in
            if \<not> inside_rx_window cfg e sn then Inr (False, status_requested, [], e)
            else if amrx_complete cfg e sn then Inr (False, status_requested, [], e)
            else
              case (if am_si header = Full_sdu then handle_full_data_sdu cfg header payload e
                    else handle_segment_data_sdu cfg header payload e) of
                Inl f \<Rightarrow> Inl f
              | Inr (status_changed, e) \<Rightarrow>
                  (let e = (if rx_mod_base cfg e sn \<ge> rx_mod_base cfg e (rx_next_highest e)
                            then e\<lparr>rx_next_highest := (sn + 1) mod amrx_mod cfg\<rparr> else e) in
                   case amrx_sdu_complete cfg sn e of
                     Inl f \<Rightarrow> Inl f
                   | Inr (evs, e) \<Rightarrow>
                       (case amrx_timer_stop cfg e of
                          Inl f \<Rightarrow> Inl f
                        | Inr e \<Rightarrow> Inr (status_changed, status_requested, evs, amrx_timer_start cfg e)))))"

definition handle_data_pdu ::
  "rlc_rx_am_config \<Rightarrow> bytes \<Rightarrow> rlc_rx_am_entity \<Rightarrow> (rlc_am_rx_event list \<times> rlc_rx_am_entity) res" where
  "handle_data_pdu cfg buf e =
    (case amrx_data_body cfg buf e of
       Inl f \<Rightarrow> Inl f
     | Inr (status_changed, status_requested, evs, e) \<Rightarrow>
         (case (if status_changed then refresh_status_report cfg e else Inr e) of
            Inl f \<Rightarrow> Inl f
          | Inr e \<Rightarrow>
              (let e = (if status_requested then e\<lparr>do_status := True\<rparr> else e) in
               Inr (evs @ (if status_changed \<or> status_requested then notify_status_report_changed e else []),
                    e))))"

definition handle_control_pdu ::
  "rlc_rx_am_config \<Rightarrow> bytes \<Rightarrow> rlc_am_rx_event list" where
  "handle_control_pdu cfg buf =
    (case status_unpack (rlc_am_status_pdu_init (rxam_sn_field_length cfg)) buf of
       (True, status_pdu) \<Rightarrow> [Am_status_pdu status_pdu]
     | (False, _) \<Rightarrow> [])"

definition amrx_handle_pdu ::
  "rlc_rx_am_config \<Rightarrow> bytes \<Rightarrow> rlc_rx_am_entity \<Rightarrow> (rlc_am_rx_event list \<times> rlc_rx_am_entity) res" where
  "amrx_handle_pdu cfg buf e =
    (if buf = [] then Inr ([], e)
     else
       case is_control_pdu buf of
         Inl f \<Rightarrow> Inl f
       | Inr control \<Rightarrow>
           if control then Inr (handle_control_pdu cfg buf, e) else handle_data_pdu cfg buf e)"

definition on_expired_status_prohibit_timer ::
  "rlc_rx_am_entity \<Rightarrow> rlc_am_rx_event list \<times> rlc_rx_am_entity" where
  "on_expired_status_prohibit_timer e =
    (let e = e\<lparr>status_prohibit_timer_is_running := False\<rparr> in (notify_status_report_changed e, e))"

definition on_expired_reassembly_timer ::
  "rlc_rx_am_config \<Rightarrow> rlc_rx_am_entity \<Rightarrow> (rlc_am_rx_event list \<times> rlc_rx_am_entity) res" where
  "on_expired_reassembly_timer cfg e =
    (if reassembly_timer e then Inr ([], e)
     else if \<not> amrx_valid_ack_sn cfg e (rx_next_status_trigger e) then Inr ([], e)
     else
       let sn_upd = amrx_first_incomplete cfg e (rx_next_status_trigger e) in
       if \<not> amrx_valid_ack_sn cfg e sn_upd then Inl Assertion_failed
       else
         let e = e\<lparr>rx_highest_status := sn_upd\<rparr>;
             e = (if rx_mod_base cfg e (rx_next_highest e) > rx_mod_base cfg e (rx_highest_status e + 1) \<or>
                     rx_mod_base cfg e (rx_next_highest e) = rx_mod_base cfg e (rx_highest_status e + 1) \<and>
                       amrx_has_gap cfg e (rx_highest_status e)
                  then e\<lparr>reassembly_timer := True, rx_next_status_trigger := rx_next_highest e\<rparr>
                  else e) in
         case refresh_status_report cfg e of
           Inl f \<Rightarrow> Inl f
         | Inr e \<Rightarrow>
             (let e = e\<lparr>do_status := True\<rparr> in Inr (notify_status_report_changed e, e)))"

section \<open>Stored segments\<close>

definition seg_end :: "rlc_rx_am_sdu_segment \<Rightarrow> nat" where
  "seg_end s = unat (ams_so s) + length (ams_payload s)"

definition seg_ok :: "rlc_rx_am_sdu_segment \<Rightarrow> bool" where
  "seg_ok s \<longleftrightarrow> ams_payload s \<noteq> [] \<and> seg_end s \<le> 65535"

definition seg_cover :: "rlc_rx_am_sdu_segment list \<Rightarrow> nat set" where
  "seg_cover ss = (\<Union>s \<in> set ss. {unat (ams_so s)..<seg_end s})"

text \<open>Segments in the order of their offsets, none overlapping the next.\<close>

definition segs_ok :: "rlc_rx_am_sdu_segment list \<Rightarrow> bool" where
  "segs_ok ss \<longleftrightarrow> list_all seg_ok ss \<and> sorted_wrt (\<lambda>a b. seg_end a \<le> unat (ams_so b)) ss"

lemma seg_ok_pos: "seg_ok s \<Longrightarrow> unat (ams_so s) < seg_end s"
  by (simp add: seg_ok_def seg_end_def)

lemma unat_last_byte: "seg_ok s \<Longrightarrow> unat (last_byte s) = seg_end s - 1"
proof -
  assume ok: "seg_ok s"
  have "last_byte s = of_nat (seg_end s - 1)"
    using ok by (simp add: last_byte_def seg_end_def seg_ok_def of_nat_diff Suc_le_eq)
  moreover have "seg_end s - 1 < 2 ^ 32" using ok unfolding seg_ok_def by (auto intro: le_less_trans)
  ultimately show ?thesis by (simp only: unat_of_nat_u32)
qed

lemma unat_last_byte_Suc: "seg_ok s \<Longrightarrow> unat (last_byte s + 1) = seg_end s"
  using unat_last_byte [of s] seg_ok_pos [of s]
  by (simp add: unat_word_ariths seg_ok_def)

lemma segs_ok_simps [simp]:
  "segs_ok []"
  "segs_ok (s # ss) \<longleftrightarrow> seg_ok s \<and> (\<forall>t \<in> set ss. seg_end s \<le> unat (ams_so t)) \<and> segs_ok ss"
  by (auto simp: segs_ok_def)

lemma segs_ok_append:
  "segs_ok (xs @ ys) \<longleftrightarrow> segs_ok xs \<and> segs_ok ys \<and>
    (\<forall>x \<in> set xs. \<forall>y \<in> set ys. seg_end x \<le> unat (ams_so y))"
  by (auto simp: segs_ok_def sorted_wrt_append)

lemma segs_ok_all: "segs_ok ss \<Longrightarrow> s \<in> set ss \<Longrightarrow> seg_ok s"
  by (auto simp: segs_ok_def list_all_iff)

lemma seg_cover_simps [simp]:
  "seg_cover [] = {}" "seg_cover (s # ss) = {unat (ams_so s)..<seg_end s} \<union> seg_cover ss"
  "seg_cover (xs @ ys) = seg_cover xs \<union> seg_cover ys"
  by (auto simp: seg_cover_def)

lemma segment_insert_append:
  "segs_ok (xs @ [x] @ ys) \<Longrightarrow> segment_insert x (xs @ ys) = xs @ x # ys"
proof (induction xs)
  case Nil
  then show ?case
    using seg_ok_pos [of x] by (cases ys) (auto simp: word_less_nat_alt)
next
  case (Cons z xs)
  then show ?case
    using seg_ok_pos [of z] by (auto simp: word_less_nat_alt word_unat_eq_iff)
qed

lemma segment_advance_ok:
  assumes "seg_ok s" "unat (ams_so s) \<le> unat f" "unat f < seg_end s"
  shows "seg_ok (segment_advance f s)" "unat (ams_so (segment_advance f s)) = unat f"
    "seg_end (segment_advance f s) = seg_end s"
proof -
  have "unat (ucast f :: u16) = unat f"
    using assms by (simp add: unat_ucast_mod seg_ok_def)
  moreover have "unat (f - ucast (ams_so s)) = unat f - unat (ams_so s)"
    using assms(2) by (simp add: unat_sub word_le_nat_alt)
  ultimately show "seg_ok (segment_advance f s)" "unat (ams_so (segment_advance f s)) = unat f"
    "seg_end (segment_advance f s) = seg_end s"
    using assms by (auto simp: segment_advance_def seg_ok_def seg_end_def)
qed

text \<open>What every segment taken from the same SDU satisfies.\<close>

definition seg_of :: "bytes \<Rightarrow> rlc_rx_am_sdu_segment \<Rightarrow> bool" where
  "seg_of sdu s \<longleftrightarrow>
    seg_end s \<le> length sdu \<and>
    ams_payload s = take (length (ams_payload s)) (drop (unat (ams_so s)) sdu) \<and>
    (ams_si s = Last_segment \<longleftrightarrow> seg_end s = length sdu)"

lemma seg_of_advance:
  assumes "seg_of sdu s" "seg_ok s" "unat (ams_so s) \<le> unat f" "unat f < seg_end s"
  shows "seg_of sdu (segment_advance f s)"
proof -
  have so: "unat (ams_so (segment_advance f s)) = unat f"
    and e: "seg_end (segment_advance f s) = seg_end s"
    using segment_advance_ok [OF assms(2-4)] by simp_all
  let ?d = "unat f - unat (ams_so s)" and ?n = "length (ams_payload s)"
  have "unat (f - ucast (ams_so s)) = ?d"
    using assms(3) by (simp add: unat_sub word_le_nat_alt)
  then have p: "ams_payload (segment_advance f s) = drop ?d (ams_payload s)"
    by (simp add: segment_advance_def)
  have "drop ?d (take ?n (drop (unat (ams_so s)) sdu)) = take (?n - ?d) (drop (unat f) sdu)"
    using assms(3) by (simp add: drop_take)
  then have "drop ?d (ams_payload s) = take (?n - ?d) (drop (unat f) sdu)"
    using assms(1) by (metis seg_of_def)
  moreover have "length (drop ?d (ams_payload s)) = ?n - ?d" by simp
  ultimately show ?thesis
    using assms(1) unfolding seg_of_def e so p by (simp add: segment_advance_def)
qed

lemma store_segment_loop_ok:
  assumes "segs_ok (bef @ rest)" "seg_ok new" "\<forall>b \<in> set bef. seg_end b \<le> unat (ams_so new)"
    "list_all P (bef @ rest)" "P new" "store_segment_loop bef rest new = (stored, ss)"
    and adv: "\<And>s f. P s \<Longrightarrow> seg_ok s \<Longrightarrow> unat (ams_so s) \<le> unat f \<Longrightarrow> unat f < seg_end s \<Longrightarrow>
      P (segment_advance f s)"
  shows "segs_ok ss \<and> seg_cover ss = seg_cover (bef @ rest) \<union> seg_cover [new] \<and> list_all P ss"
  using assms(1-6)
proof (induction bef rest new rule: store_segment_loop.induct)
  case (1 bef new)
  then have "segment_insert new (bef @ []) = bef @ [new]"
    by (intro segment_insert_append) (simp add: segs_ok_append)
  with 1 show ?case by (auto simp: segs_ok_append)
next
  case (2 bef cur rest new)
  have cok: "seg_ok cur" using "2.prems"(1) by (simp add: segs_ok_append)
  note lb = unat_last_byte [OF cok] unat_last_byte [OF "2.prems"(2)] unat_last_byte_Suc [OF cok]
    unat_last_byte_Suc [OF "2.prems"(2)] seg_ok_pos [OF cok] seg_ok_pos [OF "2.prems"(2)]
  have bc: "\<forall>b \<in> set bef. seg_end b \<le> unat (ams_so cur)"
    using "2.prems"(1) by (auto simp: segs_ok_append)
  have bs: "\<forall>b \<in> set (bef @ [cur]). seg_end b \<le> seg_end cur"
    using bc lb(5) by auto
  consider (after) "seg_end cur \<le> unat (ams_so new)"
    | (inside) "unat (ams_so new) < seg_end cur" "unat (ams_so cur) \<le> unat (ams_so new)" "seg_end new \<le> seg_end cur"
    | (tail) "unat (ams_so new) < seg_end cur" "unat (ams_so cur) \<le> unat (ams_so new)" "seg_end cur < seg_end new"
    | (front) "unat (ams_so new) < unat (ams_so cur)" "seg_end new \<le> unat (ams_so cur)"
    | (head) "unat (ams_so new) < unat (ams_so cur)" "unat (ams_so cur) < seg_end new" "seg_end new < seg_end cur"
    | (whole) "unat (ams_so new) < unat (ams_so cur)" "seg_end cur \<le> seg_end new"
    by linarith
  then show ?case
  proof cases
    case after
    then have c: "ucast (ams_so new) > last_byte cur" using lb by (simp add: word_less_nat_alt)
    with "2.prems" have "store_segment_loop (bef @ [cur]) rest new = (stored, ss)" by simp
    with "2.IH"(1) [OF c] "2.prems" after show ?thesis by simp
  next
    case inside
    then have "\<not> ucast (ams_so new) > last_byte cur" "ams_so new \<ge> ams_so cur" "last_byte new \<le> last_byte cur"
      using lb by (simp_all add: word_less_nat_alt word_le_nat_alt)
    with "2.prems" have "ss = bef @ cur # rest" by simp
    with "2.prems" inside show ?thesis by auto
  next
    case tail
    then have c: "\<not> ucast (ams_so new) > last_byte cur" "ams_so new \<ge> ams_so cur" "\<not> last_byte new \<le> last_byte cur"
      using lb by (simp_all add: word_less_nat_alt word_le_nat_alt)
    let ?n = "segment_advance (last_byte cur + 1) new"
    have f: "unat (ams_so new) \<le> unat (last_byte cur + 1)" "unat (last_byte cur + 1) < seg_end new"
      using tail lb by simp_all
    note a = segment_advance_ok [OF "2.prems"(2) f]
    have "store_segment_loop (bef @ [cur]) rest ?n = (stored, ss)" using c "2.prems" by simp
    with "2.IH"(2) [OF c] have ih: "segs_ok ss \<and>
        seg_cover ss = seg_cover ((bef @ [cur]) @ rest) \<union> seg_cover [?n] \<and> list_all P ss"
      using "2.prems" a bs lb(3) adv [OF "2.prems"(5,2) f] by simp
    have "{unat (ams_so cur)..<seg_end cur} \<union> {seg_end cur..<seg_end new} =
        {unat (ams_so cur)..<seg_end cur} \<union> {unat (ams_so new)..<seg_end new}"
      using tail by auto
    with ih show ?thesis using a lb(3) by auto
  next
    case front
    then have "\<not> ucast (ams_so new) > last_byte cur" "\<not> ams_so new \<ge> ams_so cur" "last_byte new < ucast (ams_so cur)"
      using lb by (simp_all add: word_less_nat_alt word_le_nat_alt)
    then have ss: "ss = segment_insert new (bef @ cur # rest)" using "2.prems" by simp
    have "segs_ok (bef @ [new] @ cur # rest)"
      using "2.prems" front lb by (fastforce simp: segs_ok_append)
    with segment_insert_append [OF this] show ?thesis
      using "2.prems" by (auto simp: ss)
  next
    case head
    then have "\<not> ucast (ams_so new) > last_byte cur" "\<not> ams_so new \<ge> ams_so cur"
      "\<not> last_byte new < ucast (ams_so cur)" "last_byte new < last_byte cur"
      using lb by (simp_all add: word_less_nat_alt word_le_nat_alt)
    then have ss: "ss = segment_insert new (segment_insert (segment_advance (last_byte new + 1) cur) (bef @ rest))"
      using "2.prems" by simp
    let ?c = "segment_advance (last_byte new + 1) cur"
    have f: "unat (ams_so cur) \<le> unat (last_byte new + 1)" "unat (last_byte new + 1) < seg_end cur"
      using head lb by simp_all
    note a = segment_advance_ok [OF cok f]
    have ok: "segs_ok (bef @ [?c] @ rest)"
      using "2.prems"(1,3) a lb head by (fastforce simp: segs_ok_append)
    then have ok2: "segs_ok (bef @ [new] @ ?c # rest)"
      using "2.prems"(1,2,3) a lb head by (fastforce simp: segs_ok_append)
    have "ss = bef @ new # ?c # rest"
      unfolding ss using segment_insert_append [OF ok] segment_insert_append [OF ok2] by simp
    moreover have "P ?c" using "2.prems"(4) adv [OF _ cok f] by simp
    moreover have "{unat (ams_so new)..<seg_end new} \<union> {seg_end new..<seg_end cur} =
        {unat (ams_so cur)..<seg_end cur} \<union> {unat (ams_so new)..<seg_end new}"
      using head by auto
    ultimately show ?thesis
      using "2.prems" ok2 a lb(4) by auto
  next
    case whole
    then have c: "\<not> ucast (ams_so new) > last_byte cur" "\<not> ams_so new \<ge> ams_so cur"
      "\<not> last_byte new < ucast (ams_so cur)" "\<not> last_byte new < last_byte cur"
      using lb by (simp_all add: word_less_nat_alt word_le_nat_alt)
    with "2.prems" have "store_segment_loop bef rest new = (stored, ss)" by simp
    moreover have "segs_ok (bef @ rest)" "list_all P (bef @ rest)"
      using "2.prems"(1,4) by (simp_all add: segs_ok_append)
    ultimately have ih: "segs_ok ss \<and>
        seg_cover ss = seg_cover (bef @ rest) \<union> seg_cover [new] \<and> list_all P ss"
      using "2.prems"(2,3,5) by (intro "2.IH"(3) [OF c])
    have "{unat (ams_so cur)..<seg_end cur} \<subseteq> {unat (ams_so new)..<seg_end new}"
      using whole by auto
    with ih show ?thesis by (simp only: seg_cover_simps) blast
  qed
qed

text \<open>The inventory of the segments of an SDU: complete when every byte is there.\<close>

lemma segment_inventory_full:
  assumes "segs_ok ss" "list_all (seg_of sdu) ss" "\<forall>s \<in> set ss. n \<le> unat (ams_so s)" "n \<le> 65535"
  shows "(fst (segment_inventory (of_nat n) ss) \<longleftrightarrow> n < length sdu \<and> {n..<length sdu} \<subseteq> seg_cover ss) \<and>
    (fst (segment_inventory (of_nat n) ss) \<longrightarrow> concat (map ams_payload ss) = drop n sdu)"
  using assms
proof (induction ss arbitrary: n)
  case Nil
  then show ?case by auto
next
  case (Cons s ss)
  have so: "seg_ok s" "seg_of sdu s" and n: "n \<le> unat (ams_so s)" using Cons.prems by simp_all
  have e: "unat (ams_so s) < seg_end s" "seg_end s \<le> length sdu" "seg_end s \<le> 65535"
    using so seg_ok_pos [OF so(1)] by (simp_all add: seg_of_def seg_ok_def)
  have above: "\<forall>t \<in> set ss. seg_end s \<le> unat (ams_so t)" using Cons.prems by simp
  then have cov: "seg_cover ss \<inter> {..<seg_end s} = {}"
    by (fastforce simp: seg_cover_def)
  have eq: "ucast (ams_so s) = (of_nat n :: u32) \<longleftrightarrow> unat (ams_so s) = n"
    using Cons.prems(4) by (simp add: word_unat_eq_iff unat_of_nat)
  have pay: "ams_payload s = take (seg_end s - unat (ams_so s)) (drop (unat (ams_so s)) sdu)"
    using so(2) by (simp add: seg_of_def seg_end_def)
  consider "unat (ams_so s) \<noteq> n" | "unat (ams_so s) = n" "ams_si s = Last_segment"
    | "unat (ams_so s) = n" "ams_si s \<noteq> Last_segment" by blast
  then show ?case
  proof cases
    case 1
    with n e cov have "n \<notin> seg_cover (s # ss)" "n < length sdu" by auto
    with 1 show ?thesis by (auto simp: eq)
  next
    case 2
    then have L: "seg_end s = length sdu" using so(2) by (simp add: seg_of_def)
    have "ss = []"
    proof (rule ccontr)
      assume "ss \<noteq> []"
      then obtain t ts where t: "ss = t # ts" by (cases ss) auto
      with Cons.prems have "seg_ok t" "seg_of sdu t" by simp_all
      with t above seg_ok_pos [of t] L show False by (simp add: seg_of_def)
    qed
    with 2 L e pay show ?thesis by (auto simp: eq)
  next
    case 3
    have "seg_end s \<noteq> length sdu" using 3 so(2) by (simp add: seg_of_def)
    with e(2) have lt: "seg_end s < length sdu" by simp
    have nx: "of_nat n + of_nat (length (ams_payload s)) = (of_nat (seg_end s) :: u32)"
      using 3 by (simp add: seg_end_def)
    have ih: "(fst (segment_inventory (of_nat (seg_end s)) ss) \<longleftrightarrow>
          seg_end s < length sdu \<and> {seg_end s..<length sdu} \<subseteq> seg_cover ss) \<and>
        (fst (segment_inventory (of_nat (seg_end s)) ss) \<longrightarrow> concat (map ams_payload ss) = drop (seg_end s) sdu)"
      using Cons.prems above e by (intro Cons.IH) simp_all
    have "{n..<length sdu} \<subseteq> seg_cover (s # ss) \<longleftrightarrow> {seg_end s..<length sdu} \<subseteq> seg_cover ss"
    proof -
      have "{n..<length sdu} = {n..<seg_end s} \<union> {seg_end s..<length sdu}"
        using 3 e by (simp add: ivl_disj_un_two(3))
      moreover have "{seg_end s..<length sdu} \<inter> {n..<seg_end s} = {}" by auto
      ultimately show ?thesis using 3(1) by (simp only: seg_cover_simps) blast
    qed
    moreover have "ams_payload s @ drop (seg_end s) sdu = drop n sdu"
      using 3 e pay by (metis append_take_drop_id drop_drop le_add_diff_inverse2 less_imp_le)
    ultimately show ?thesis
      using 3 ih lt e nx by (simp add: eq)
  qed
qed

section \<open>Elements of the window\<close>

definition info_inv :: "rlc_rx_am_sdu_info \<Rightarrow> bool" where
  "info_inv i \<longleftrightarrow>
    (if ami_fully_received i then ami_segments i = []
     else ami_sdu i = [] \<and> segs_ok (ami_segments i) \<and>
       segment_inventory 0 (ami_segments i) = (False, ami_has_gap i))"

lemma info_inv_init [simp]: "info_inv rlc_rx_am_sdu_info_init"
  by (simp add: info_inv_def rlc_rx_am_sdu_info_init_def)

lemma update_inventory_eq:
  "update_segment_inventory i =
    i\<lparr>ami_fully_received := fst (segment_inventory 0 (ami_segments i)),
      ami_has_gap := snd (segment_inventory 0 (ami_segments i))\<rparr>"
  by (simp add: update_segment_inventory_def split: prod.split)

lemma amrx_store_segment_eq:
  assumes "store_segment_loop [] (ami_segments i) new = (stored, ss)"
  shows "amrx_store_segment new i =
    (stored,
     i\<lparr>ami_segments := (if fst (segment_inventory 0 ss) then [] else ss),
       ami_sdu := (if fst (segment_inventory 0 ss) then ami_sdu i @ concat (map ams_payload ss) else ami_sdu i),
       ami_fully_received := fst (segment_inventory 0 ss), ami_has_gap := snd (segment_inventory 0 ss)\<rparr>)"
  using assms by (cases i) (simp add: amrx_store_segment_def store_segment_def update_inventory_eq Let_def)

lemma store_segment_inv:
  assumes "info_inv i" "\<not> ami_fully_received i" "seg_ok new" "amrx_store_segment new i = (stored, i')"
  shows "info_inv i'"
proof -
  obtain st ss where ss: "store_segment_loop [] (ami_segments i) new = (st, ss)" by fastforce
  have "segs_ok ss"
    using store_segment_loop_ok [where P = "\<lambda>_. True", OF _ assms(3) _ _ _ ss] assms(1,2)
    by (simp add: info_inv_def list_all_iff)
  then show ?thesis
    using assms amrx_store_segment_eq [OF ss] by (auto simp: info_inv_def prod_eq_iff)
qed

text \<open>
  \<open>info_rel sdu got i\<close>: the element holds what was received of the SDU, the bytes with offsets in
  \<open>got\<close>.
\<close>

definition info_rel :: "bytes \<Rightarrow> nat set \<Rightarrow> rlc_rx_am_sdu_info \<Rightarrow> bool" where
  "info_rel sdu got i \<longleftrightarrow>
    info_inv i \<and>
    (if ami_fully_received i then got = {0..<length sdu}
     else got \<noteq> {0..<length sdu} \<and> got = seg_cover (ami_segments i) \<and> list_all (seg_of sdu) (ami_segments i))"

lemma seg_of_cover: "list_all (seg_of sdu) ss \<Longrightarrow> seg_cover ss \<subseteq> {0..<length sdu}"
  by (fastforce simp: seg_cover_def list_all_iff seg_of_def)

lemma store_segment_rel:
  assumes rel: "info_rel sdu got i" and nf: "\<not> ami_fully_received i" and new: "seg_ok new" "seg_of sdu new"
    and st: "amrx_store_segment new i = (stored, i')" and sdu: "sdu \<noteq> []"
  shows "info_rel sdu (got \<union> {unat (ams_so new)..<seg_end new}) i'"
    "ami_fully_received i' \<Longrightarrow> ami_sdu i' = sdu"
proof -
  let ?got = "got \<union> {unat (ams_so new)..<seg_end new}"
  have inv: "info_inv i" and segs: "segs_ok (ami_segments i)" "ami_sdu i = []"
    "got = seg_cover (ami_segments i)" "list_all (seg_of sdu) (ami_segments i)"
    using rel nf by (simp_all add: info_rel_def info_inv_def)
  obtain st' ss where ss: "store_segment_loop [] (ami_segments i) new = (st', ss)" by fastforce
  note i' = amrx_store_segment_eq [OF ss]
  have l: "segs_ok ss" "seg_cover ss = ?got" "list_all (seg_of sdu) ss"
    using store_segment_loop_ok [where P = "seg_of sdu", OF _ new(1) _ _ new(2) ss] segs seg_of_advance
    by auto
  have f: "fst (segment_inventory 0 ss) \<longleftrightarrow> ?got = {0..<length sdu}"
    "fst (segment_inventory 0 ss) \<Longrightarrow> concat (map ams_payload ss) = sdu"
    using segment_inventory_full [OF l(1) l(3), of 0] seg_of_cover [OF l(3)] sdu by (auto simp: l(2))
  have g: "ami_fully_received i' = fst (segment_inventory 0 ss)"
    "ami_segments i' = (if fst (segment_inventory 0 ss) then [] else ss)"
    "ami_sdu i' = (if fst (segment_inventory 0 ss) then concat (map ams_payload ss) else [])"
    using st i' segs(2) by auto
  show "info_rel sdu ?got i'"
    using store_segment_inv [OF inv nf new(1) st] l f(1) by (simp add: info_rel_def g)
  show "ami_fully_received i' \<Longrightarrow> ami_sdu i' = sdu"
    using f(2) by (simp add: g)
qed

end
