(* ===== verification/Rlc_Tx_Am.thy ===== *)
theory Rlc_Tx_Am
  imports Rlc_Retx_Queue Rlc_Am_Window Rlc_Interfaces Rlc_Rx_Am
begin

text \<open>
  The transmitting AM entity (\<open>lib/rlc/rlc_tx_am_entity.h\<close> and \<open>.cpp\<close>): the state variables of
  3GPP TS 38.322, the SDU queue, the window of SDUs not yet acknowledged, the retransmission queue
  and the poll timer.  Widths are kept as in the code (\<open>uint32_t\<close> lengths and offsets, \<open>size_t\<close>
  lengths of SDUs as natural numbers, the 16-bit SO field).  A timer is its running flag; a
  reference into the window is the SN it was looked up with; the status provider is the receiving
  entity of the same bearer, which is passed to the operations that ask it.
\<close>

section \<open>State\<close>

record rlc_tx_am_sdu_info =
  ti_sdu :: bytes
  ti_pdcp_sn :: "u32 option"
  ti_next_so :: u32
  ti_retx_count :: u32

record rlc_tx_am_state =
  tx_next_ack :: u32
  tx_next :: u32
  poll_sn :: u32
  pdu_without_poll :: u32
  byte_without_poll :: u32

definition rlc_tx_am_state_init :: rlc_tx_am_state where
  "rlc_tx_am_state_init =
    \<lparr>tx_next_ack = 0, tx_next = 0, poll_sn = 0, pdu_without_poll = 0, byte_without_poll = 0\<rparr>"

record rlc_tx_am_entity =
  amtx_st :: rlc_tx_am_state
  amtx_sdu_queue :: rlc_sdu_queue
  sn_under_segmentation :: u32
  retx_queue :: rlc_retx_queue
  tx_window :: "rlc_tx_am_sdu_info am_win"
  poll_retransmit_timer :: bool
  is_poll_retransmit_timer_expired :: bool
  amtx_prev_buffer_state :: u32
  amtx_task :: buffer_state_task

definition rlc_tx_am_entity_init :: "u16 \<Rightarrow> nat \<Rightarrow> rlc_tx_am_entity" where
  "rlc_tx_am_entity_init capacity ring_size =
    \<lparr>amtx_st = rlc_tx_am_state_init, amtx_sdu_queue = rlc_sdu_queue_make capacity ring_size,
     sn_under_segmentation = INVALID_RLC_SN, retx_queue = rlc_retx_queue_init,
     tx_window = circular_map_init, poll_retransmit_timer = False,
     is_poll_retransmit_timer_expired = False, amtx_prev_buffer_state = 0,
     amtx_task = buffer_state_task_init\<rparr>"

abbreviation txam_size :: "rlc_tx_am_config \<Rightarrow> rlc_am_sn_size" where
  "txam_size cfg \<equiv> txam_sn_field_length cfg"

definition amtx_mod :: "rlc_tx_am_config \<Rightarrow> u32" where
  "amtx_mod cfg = am_mod (txam_size cfg)"

definition amtx_window_size :: "rlc_tx_am_config \<Rightarrow> u32" where
  "amtx_window_size cfg = am_window (txam_size cfg)"

definition head_min_size :: "rlc_tx_am_config \<Rightarrow> u32" where
  "head_min_size cfg = of_nat (rlc_am_pdu_header_min_size (txam_size cfg))"

definition head_max_size :: "rlc_tx_am_config \<Rightarrow> u32" where
  "head_max_size cfg = of_nat (rlc_am_pdu_header_max_size (txam_size cfg))"

definition tx_mod_base :: "rlc_tx_am_config \<Rightarrow> rlc_tx_am_entity \<Rightarrow> u32 \<Rightarrow> u32" where
  "tx_mod_base cfg e x = (x - tx_next_ack (amtx_st e)) mod amtx_mod cfg"

text \<open>The payload of a PDU, \<open>byte_buffer_slice{buf, offset, length}\<close>.\<close>

definition buffer_slice :: "bytes \<Rightarrow> nat \<Rightarrow> nat \<Rightarrow> bytes res" where
  "buffer_slice buf offset len =
    (if offset + len \<le> length buf then Inr (take len (drop offset buf)) else Inl Invalid_access)"

section \<open>Upper layer\<close>

definition amtx_handle_sdu ::
  "bool \<Rightarrow> rlc_sdu \<Rightarrow> rlc_tx_am_entity \<Rightarrow> (bool \<times> rlc_tx_am_entity) res" where
  "amtx_handle_sdu defer_ok sdu e =
    (case sdu_queue_write sdu (amtx_sdu_queue e) of
       Inl f \<Rightarrow> Inl f
     | Inr (ok, q) \<Rightarrow>
         if ok then Inr (True, e\<lparr>amtx_sdu_queue := q,
                                amtx_task := handle_changed_buffer_state defer_ok (amtx_task e)\<rparr>)
         else Inr (False, e\<lparr>amtx_sdu_queue := q\<rparr>))"

definition amtx_discard_sdu ::
  "bool \<Rightarrow> u32 \<Rightarrow> rlc_tx_am_entity \<Rightarrow> (bool \<times> rlc_tx_am_entity) res" where
  "amtx_discard_sdu defer_ok pdcp_sn e =
    (case sdu_queue_discard pdcp_sn (amtx_sdu_queue e) of
       Inl f \<Rightarrow> Inl f
     | Inr (ok, q) \<Rightarrow>
         if ok then Inr (True, e\<lparr>amtx_sdu_queue := q,
                                amtx_task := handle_changed_buffer_state defer_ok (amtx_task e)\<rparr>)
         else Inr (False, e\<lparr>amtx_sdu_queue := q\<rparr>))"

section \<open>Polling\<close>

text \<open>The condition under which no new data can follow, shared with the poll timer.\<close>

definition amtx_cannot_tx :: "rlc_tx_am_config \<Rightarrow> rlc_tx_am_entity \<Rightarrow> bool" where
  "amtx_cannot_tx cfg e \<longleftrightarrow>
    sdu_queue_is_empty (amtx_sdu_queue e) \<and> retx_empty (retx_queue e) \<and>
      sn_under_segmentation e = INVALID_RLC_SN \<or>
    win_full (txam_size cfg) (tx_window e)"

text \<open>The counters of new transmissions and whether they demand a poll.\<close>

definition count_without_poll ::
  "rlc_tx_am_config \<Rightarrow> u32 \<Rightarrow> rlc_tx_am_state \<Rightarrow> bool \<times> rlc_tx_am_state" where
  "count_without_poll cfg payload_size st =
    (let st = st\<lparr>pdu_without_poll := pdu_without_poll st + 1,
                 byte_without_poll := byte_without_poll st + payload_size\<rparr> in
     (txam_poll_pdu cfg > 0 \<and> pdu_without_poll st \<ge> word_of_int (txam_poll_pdu cfg) \<or>
      txam_poll_byte cfg > 0 \<and> byte_without_poll st \<ge> word_of_int (txam_poll_byte cfg), st))"

definition set_poll :: "rlc_tx_am_config \<Rightarrow> u32 \<Rightarrow> bool \<Rightarrow> rlc_tx_am_entity \<Rightarrow> rlc_tx_am_entity" where
  "set_poll cfg sn is_retx e =
    (let st = (amtx_st e)\<lparr>pdu_without_poll := 0, byte_without_poll := 0\<rparr>;
         st = (if is_retx then st else st\<lparr>poll_sn := sn\<rparr>) in
     e\<lparr>amtx_st := st, poll_retransmit_timer := txam_t_poll_retx cfg > 0 \<or> poll_retransmit_timer e\<rparr>)"

definition get_polling_bit ::
  "rlc_tx_am_config \<Rightarrow> u32 \<Rightarrow> bool \<Rightarrow> u32 \<Rightarrow> rlc_tx_am_entity \<Rightarrow> u8 \<times> rlc_tx_am_entity" where
  "get_polling_bit cfg sn is_retx payload_size e =
    (let (poll, st) = (if is_retx then (False, amtx_st e) else count_without_poll cfg payload_size (amtx_st e));
         poll = (poll \<or> amtx_cannot_tx cfg e \<or> is_poll_retransmit_timer_expired e);
         e = e\<lparr>amtx_st := st, is_poll_retransmit_timer_expired := False\<rparr> in
     if poll then (1, set_poll cfg sn is_retx e) else (0, e))"

section \<open>Lower layer\<close>

text \<open>Header and payload of a data PDU.\<close>

definition amtx_data_pdu ::
  "rlc_tx_am_config \<Rightarrow> u8 \<Rightarrow> rlc_si_field \<Rightarrow> u32 \<Rightarrow> u16 \<Rightarrow> bytes \<Rightarrow> bytes" where
  "amtx_data_pdu cfg p si sn so payload =
    rlc_am_write_data_pdu_header
      \<lparr>am_dc = Dc_data, am_p = p, am_si = si, am_sn_size = txam_size cfg, am_sn = sn, am_so = so\<rparr> [] @ payload"

definition build_first_sdu_segment ::
  "rlc_tx_am_config \<Rightarrow> u32 \<Rightarrow> u32 \<Rightarrow> rlc_tx_am_entity \<Rightarrow> (bytes \<times> rlc_tx_am_entity) res" where
  "build_first_sdu_segment cfg ref grant_len e =
    (case win_get (txam_size cfg) (tx_window e) ref of
       Inl f \<Rightarrow> Inl f
     | Inr sdu_info \<Rightarrow>
         if length (ti_sdu sdu_info) + unat (head_min_size cfg) \<le> unat grant_len then Inr ([], e)
         else if grant_len \<le> head_min_size cfg then Inr ([], e)
         else
           (let segment_payload_len = grant_len - head_min_size cfg;
                sn = tx_next (amtx_st e);
                e = e\<lparr>sn_under_segmentation := sn\<rparr>;
                (p, e) = get_polling_bit cfg sn False segment_payload_len e;
                so = ucast (ti_next_so sdu_info) in
            case buffer_slice (ti_sdu sdu_info) (unat so) (unat segment_payload_len) of
              Inl f \<Rightarrow> Inl f
            | Inr payload \<Rightarrow>
                (case win_set (txam_size cfg) ref
                        (sdu_info\<lparr>ti_next_so := ti_next_so sdu_info + segment_payload_len\<rparr>) (tx_window e) of
                   Inl f \<Rightarrow> Inl f
                 | Inr w \<Rightarrow> Inr (amtx_data_pdu cfg p First_segment sn so payload, e\<lparr>tx_window := w\<rparr>))))"

definition build_new_pdu ::
  "rlc_tx_am_config \<Rightarrow> u32 \<Rightarrow> rlc_tx_am_entity \<Rightarrow> (bytes \<times> rlc_tx_event list \<times> rlc_tx_am_entity) res" where
  "build_new_pdu cfg grant_len e =
    (if grant_len \<le> head_min_size cfg then Inr ([], [], e)
     else if win_full (txam_size cfg) (tx_window e) then Inr ([], [], e)
     else
       case sdu_queue_read (amtx_sdu_queue e) of
         Inl f \<Rightarrow> Inl f
       | Inr (None, q) \<Rightarrow> Inr ([], [], e\<lparr>amtx_sdu_queue := q\<rparr>)
       | Inr (Some sdu, q) \<Rightarrow>
           (let sn = tx_next (amtx_st e);
                sdu_info = \<lparr>ti_sdu = sdu_buf sdu, ti_pdcp_sn = sdu_pdcp_sn sdu, ti_next_so = 0,
                            ti_retx_count = RETX_COUNT_NOT_STARTED\<rparr>;
                evs = (case sdu_pdcp_sn sdu of None \<Rightarrow> [] | Some pdcp_sn \<Rightarrow> [On_transmitted_sdu pdcp_sn]) in
            case win_add_sn (txam_size cfg) sn sdu_info (tx_window e) of
              Inl f \<Rightarrow> Inl f
            | Inr w \<Rightarrow>
                (let e = e\<lparr>amtx_sdu_queue := q, tx_window := w\<rparr> in
                 if length (ti_sdu sdu_info) + unat (head_min_size cfg) > unat grant_len then
                   case build_first_sdu_segment cfg sn grant_len e of
                     Inl f \<Rightarrow> Inl f
                   | Inr (pdu, e) \<Rightarrow> Inr (pdu, evs, e)
                 else
                   let moved_len = 0;
                       (p, e) = get_polling_bit cfg sn False moved_len e;
                       pdu = amtx_data_pdu cfg p Full_sdu sn 0 (ti_sdu sdu_info) in
                   Inr (pdu, evs,
                        e\<lparr>amtx_st := (amtx_st e)\<lparr>tx_next := (sn + 1) mod amtx_mod cfg\<rparr>\<rparr>))))"

text \<open>The length given to \<open>get_polling_bit\<close> for a full SDU is that of a buffer already moved from.\<close>

definition build_continued_sdu_segment ::
  "rlc_tx_am_config \<Rightarrow> u32 \<Rightarrow> u32 \<Rightarrow> rlc_tx_am_entity \<Rightarrow> (bytes \<times> rlc_tx_am_entity) res" where
  "build_continued_sdu_segment cfg ref grant_len e =
    (case win_get (txam_size cfg) (tx_window e) ref of
       Inl f \<Rightarrow> Inl f
     | Inr sdu_info \<Rightarrow>
         if ti_next_so sdu_info = 0 then Inr ([], e\<lparr>sn_under_segmentation := INVALID_RLC_SN\<rparr>)
         else if unat (ti_next_so sdu_info) \<ge> length (ti_sdu sdu_info)
           then Inr ([], e\<lparr>sn_under_segmentation := INVALID_RLC_SN\<rparr>)
         else if grant_len \<le> head_max_size cfg then Inr ([], e)
         else
           (let segment_payload_len = of_nat (length (ti_sdu sdu_info)) - ti_next_so sdu_info;
                (si, segment_payload_len, e) =
                  (if segment_payload_len + head_max_size cfg > grant_len
                   then (Middle_segment, grant_len - head_max_size cfg, e)
                   else (Last_segment, segment_payload_len, e\<lparr>sn_under_segmentation := INVALID_RLC_SN\<rparr>));
                sn = tx_next (amtx_st e);
                (p, e) = get_polling_bit cfg sn False segment_payload_len e;
                so = ucast (ti_next_so sdu_info) in
            case buffer_slice (ti_sdu sdu_info) (unat so) (unat segment_payload_len) of
              Inl f \<Rightarrow> Inl f
            | Inr payload \<Rightarrow>
                (case win_set (txam_size cfg) ref
                        (sdu_info\<lparr>ti_next_so := ti_next_so sdu_info + segment_payload_len\<rparr>) (tx_window e) of
                   Inl f \<Rightarrow> Inl f
                 | Inr w \<Rightarrow>
                     (let e = e\<lparr>tx_window := w\<rparr>;
                          e = (if si = Last_segment
                               then e\<lparr>amtx_st := (amtx_st e)\<lparr>tx_next := (sn + 1) mod amtx_mod cfg\<rparr>\<rparr>
                               else e) in
                      Inr (amtx_data_pdu cfg p si sn so payload, e)))))"

text \<open>Retransmissions of SNs that left the window are dropped from the front of the queue.\<close>

function drop_missing_retx ::
  "rlc_am_sn_size \<Rightarrow> rlc_tx_am_sdu_info am_win \<Rightarrow> rlc_retx_queue \<Rightarrow> rlc_retx_queue" where
  "drop_missing_retx sz w q =
    (case rq_queue q of
       [] \<Rightarrow> q
     | x # _ \<Rightarrow> if win_has_sn sz w (retx_sn x) then q else drop_missing_retx sz w (retx_pop q))"
  by pat_completeness auto
termination
  by (relation "measure (\<lambda>(sz, w, q). length (rq_queue q))") (auto simp: retx_pop_def)

declare drop_missing_retx.simps [simp del]

definition get_retx_expected_hdr_len :: "rlc_tx_am_config \<Rightarrow> rlc_tx_amd_retx \<Rightarrow> u32" where
  "get_retx_expected_hdr_len cfg retx = (if retx_so retx = 0 then head_min_size cfg else head_max_size cfg)"

definition retx_si :: "rlc_tx_amd_retx \<Rightarrow> bool \<Rightarrow> rlc_si_field" where
  "retx_si retx sdu_complete =
    (if retx_so retx = 0 then (if sdu_complete then Full_sdu else First_segment)
     else (if sdu_complete then Last_segment else Middle_segment))"

definition retx_remainder :: "u32 \<Rightarrow> rlc_tx_amd_retx \<Rightarrow> rlc_tx_amd_retx" where
  "retx_remainder len retx = retx\<lparr>retx_so := retx_so retx + len, retx_length := retx_length retx - len\<rparr>"

definition build_retx_pdu ::
  "rlc_tx_am_config \<Rightarrow> u32 \<Rightarrow> rlc_tx_am_entity \<Rightarrow> (bytes \<times> rlc_tx_am_entity) res" where
  "build_retx_pdu cfg grant_len e =
    (let e = e\<lparr>retx_queue := drop_missing_retx (txam_size cfg) (tx_window e) (retx_queue e)\<rparr> in
     if retx_empty (retx_queue e) then Inr ([], e)
     else
       case retx_front (retx_queue e) of
         Inl f \<Rightarrow> Inl f
       | Inr retx \<Rightarrow>
           (case win_get (txam_size cfg) (tx_window e) (retx_sn retx) of
              Inl f \<Rightarrow> Inl f
            | Inr sdu_info \<Rightarrow>
                if unat (retx_so retx + retx_length retx) > length (ti_sdu sdu_info)
                then Inr ([], e\<lparr>retx_queue := retx_pop (retx_queue e)\<rparr>)
                else if grant_len \<le> get_retx_expected_hdr_len cfg retx then Inr ([], e)
                else
                  (let retx_payload_len = min (retx_length retx) (grant_len - get_retx_expected_hdr_len cfg retx);
                       sdu_complete = (retx_payload_len = retx_length retx) in
                   case (if sdu_complete then Inr (retx_pop (retx_queue e))
                         else retx_replace_front (retx_remainder retx_payload_len retx) (retx_queue e)) of
                     Inl f \<Rightarrow> Inl f
                   | Inr q \<Rightarrow>
                       (let (p, e) = get_polling_bit cfg (retx_sn retx) True 0 (e\<lparr>retx_queue := q\<rparr>);
                            so = ucast (retx_so retx);
                            si = retx_si retx sdu_complete in
                        if length (amtx_data_pdu cfg p si (retx_sn retx) so []) \<noteq>
                           unat (get_retx_expected_hdr_len cfg retx)
                        then Inl Assertion_failed
                        else
                          case buffer_slice (ti_sdu sdu_info) (unat so) (unat retx_payload_len) of
                            Inl f \<Rightarrow> Inl f
                          | Inr payload \<Rightarrow> Inr (amtx_data_pdu cfg p si (retx_sn retx) so payload, e)))))"

text \<open>
  \<open>pull_pdu\<close> asks the receiving entity for a status report first; the flag says whether the
  executor takes the task that \<open>get_status_pdu\<close> hands over.
\<close>

definition amtx_pull_status ::
  "rlc_rx_am_config \<Rightarrow> bool \<Rightarrow> u32 \<Rightarrow> rlc_rx_am_entity \<Rightarrow> bytes \<times> rlc_rx_am_entity" where
  "amtx_pull_status rcfg defer_ok grant_len r =
    (if grant_len < rlc_am_nr_status_pdu_sizeof_header_ack_sn then ([], r)
     else
       let (status_pdu, r) = get_status_pdu rcfg defer_ok r in
       if sp_packed_size status_pdu > grant_len then
         (case status_trim status_pdu grant_len of
            (False, _) \<Rightarrow> ([], r)
          | (True, status_pdu) \<Rightarrow> (status_pack status_pdu [], r))
       else (status_pack status_pdu [], r))"

definition amtx_pull_data ::
  "rlc_tx_am_config \<Rightarrow> u32 \<Rightarrow> rlc_tx_am_entity \<Rightarrow> (bytes \<times> rlc_tx_event list \<times> rlc_tx_am_entity) res" where
  "amtx_pull_data cfg grant_len e =
    (if \<not> retx_empty (retx_queue e) then
       (case build_retx_pdu cfg grant_len e of
          Inl f \<Rightarrow> Inl f
        | Inr (pdu, e) \<Rightarrow> Inr (pdu, [], e))
     else if sn_under_segmentation e \<noteq> INVALID_RLC_SN \<and>
             win_has_sn (txam_size cfg) (tx_window e) (sn_under_segmentation e) then
       (case build_continued_sdu_segment cfg (sn_under_segmentation e) grant_len e of
          Inl f \<Rightarrow> Inl f
        | Inr (pdu, e) \<Rightarrow> Inr (pdu, [], e))
     else
       let e = e\<lparr>sn_under_segmentation := INVALID_RLC_SN\<rparr> in
       if sdu_queue_is_empty (amtx_sdu_queue e) then Inr ([], [], e)
       else build_new_pdu cfg grant_len e)"

definition amtx_pull_pdu ::
  "rlc_rx_am_config \<Rightarrow> rlc_tx_am_config \<Rightarrow> bool \<Rightarrow> u32 \<Rightarrow> rlc_rx_am_entity \<Rightarrow> rlc_tx_am_entity \<Rightarrow>
    (bytes \<times> rlc_tx_event list \<times> rlc_rx_am_entity \<times> rlc_tx_am_entity) res" where
  "amtx_pull_pdu rcfg cfg defer_ok grant_len r e =
    (if status_report_required r then
       (case amtx_pull_status rcfg defer_ok grant_len r of (pdu, r) \<Rightarrow> Inr (pdu, [], r, e))
     else
       case amtx_pull_data cfg grant_len e of
         Inl f \<Rightarrow> Inl f
       | Inr (pdu, evs, e) \<Rightarrow> Inr (pdu, evs, r, e))"

section \<open>Buffer state\<close>

definition amtx_segment_bytes :: "rlc_tx_am_config \<Rightarrow> rlc_tx_am_entity \<Rightarrow> u32" where
  "amtx_segment_bytes cfg e =
    (if sn_under_segmentation e = INVALID_RLC_SN then 0
     else
       case win_get (txam_size cfg) (tx_window e) (sn_under_segmentation e) of
         Inl _ \<Rightarrow> 0
       | Inr sdu_info \<Rightarrow> of_nat (length (ti_sdu sdu_info)) - ti_next_so sdu_info + head_max_size cfg)"

definition get_buffer_state_nolock ::
  "rlc_tx_am_config \<Rightarrow> rlc_rx_am_entity \<Rightarrow> rlc_tx_am_entity \<Rightarrow> u32" where
  "get_buffer_state_nolock cfg r e =
    (let q = amtx_sdu_queue e;
         queue_bytes = size_bytes q + size_sdus q * head_min_size cfg;
         rs = rq_st (retx_queue e);
         retx_bytes = retx_bytes rs + n_retx_so_zero rs * head_min_size cfg +
                      n_retx_so_nonzero rs * head_max_size cfg;
         status_bytes = (if status_report_required r then get_status_pdu_length r else 0) in
     queue_bytes + amtx_segment_bytes cfg e + retx_bytes + status_bytes)"

definition amtx_update_mac_buffer_state ::
  "rlc_tx_am_config \<Rightarrow> rlc_rx_am_entity \<Rightarrow> rlc_tx_am_entity \<Rightarrow> rlc_tx_event list \<times> rlc_tx_am_entity" where
  "amtx_update_mac_buffer_state cfg r e =
    (let e = e\<lparr>amtx_task := (amtx_task e)\<lparr>pending_buffer_state := False\<rparr>\<rparr>;
         bs = get_buffer_state_nolock cfg r e in
     (if \<not> (bs > MAX_DL_PDU_LENGTH \<and> amtx_prev_buffer_state e > MAX_DL_PDU_LENGTH)
      then [On_buffer_state_update bs] else [],
      e\<lparr>amtx_prev_buffer_state := bs\<rparr>))"

text \<open>The deferred task leaves the executor's queue and then updates.\<close>

definition amtx_run_update ::
  "rlc_tx_am_config \<Rightarrow> rlc_rx_am_entity \<Rightarrow> rlc_tx_am_entity \<Rightarrow> rlc_tx_event list \<times> rlc_tx_am_entity" where
  "amtx_run_update cfg r e =
    amtx_update_mac_buffer_state cfg r (e\<lparr>amtx_task := begin_update (amtx_task e)\<rparr>)"

definition on_status_report_changed :: "bool \<Rightarrow> rlc_tx_am_entity \<Rightarrow> rlc_tx_am_entity" where
  "on_status_report_changed defer_ok e =
    e\<lparr>amtx_task := handle_changed_buffer_state defer_ok (amtx_task e)\<rparr>"

section \<open>Status reports from the peer\<close>

definition inside_tx_window :: "rlc_tx_am_config \<Rightarrow> rlc_tx_am_entity \<Rightarrow> u32 \<Rightarrow> bool" where
  "inside_tx_window cfg e sn \<longleftrightarrow> tx_mod_base cfg e sn < amtx_window_size cfg"

definition valid_ack_sn :: "rlc_tx_am_config \<Rightarrow> rlc_tx_am_entity \<Rightarrow> u32 \<Rightarrow> bool" where
  "valid_ack_sn cfg e sn \<longleftrightarrow> 0 < tx_mod_base cfg e sn \<and> tx_mod_base cfg e sn \<le> amtx_window_size cfg"

definition valid_nack ::
  "rlc_tx_am_config \<Rightarrow> rlc_tx_am_entity \<Rightarrow> u32 \<Rightarrow> rlc_am_status_nack \<Rightarrow> bool" where
  "valid_nack cfg e ack_sn nack =
    (let last_sn = nack_sn nack + ucast (nack_range nack) - 1 in
     if tx_mod_base cfg e (nack_sn nack) \<ge> tx_mod_base cfg e ack_sn then False
     else if has_nack_range nack \<and> tx_mod_base cfg e last_sn \<ge> tx_mod_base cfg e ack_sn then False
     else if \<not> inside_tx_window cfg e (nack_sn nack) then False
     else if has_nack_range nack \<and> \<not> inside_tx_window cfg e last_sn then False
     else if tx_mod_base cfg e (nack_sn nack) > tx_mod_base cfg e (tx_next (amtx_st e)) then False
     else if has_nack_range nack \<and> tx_mod_base cfg e last_sn > tx_mod_base cfg e (tx_next (amtx_st e)) then False
     else True)"

text \<open>The offsets of a NACK after the replacements and corrections of \<open>handle_nack\<close>.\<close>

definition nack_offsets :: "u32 \<Rightarrow> rlc_am_status_nack \<Rightarrow> u16 \<times> u16" where
  "nack_offsets sdu_length nack =
    (let (s, t) = (if has_so nack then (so_start nack, so_end nack) else (0, ucast (sdu_length - 1)));
         t = (if t = so_end_of_sdu then ucast (sdu_length - 1) else t);
         s = (if s > t then 0 else s);
         s = (if ucast s \<ge> sdu_length then 0 else s);
         t = (if ucast t \<ge> sdu_length then ucast (sdu_length - 1) else t) in
     (s, t))"

definition handle_nack ::
  "rlc_tx_am_config \<Rightarrow> rlc_am_status_nack \<Rightarrow> rlc_tx_am_entity \<Rightarrow> (bool \<times> rlc_tx_am_entity) res" where
  "handle_nack cfg nack e =
    (if has_nack_range nack then Inr (False, e)
     else if \<not> (tx_mod_base cfg e (tx_next_ack (amtx_st e)) \<le> tx_mod_base cfg e (nack_sn nack) \<and>
                tx_mod_base cfg e (nack_sn nack) \<le> tx_mod_base cfg e (tx_next (amtx_st e)))
       then Inr (False, e)
     else
       case win_get (txam_size cfg) (tx_window e) (nack_sn nack) of
         Inl f \<Rightarrow> Inl f
       | Inr sdu_info \<Rightarrow>
           (let (s, t) = nack_offsets (of_nat (length (ti_sdu sdu_info))) nack;
                len = ucast t - ucast s + 1 in
            if \<not> retx_has_segment (retx_queue e) (nack_sn nack) (ucast s) len
            then Inr (True, e\<lparr>retx_queue :=
                   retx_push \<lparr>retx_sn = nack_sn nack, retx_so = ucast s, retx_length = len\<rparr> (retx_queue e)\<rparr>)
            else Inr (False, e)))"

text \<open>The loop over acknowledged SNs; its measure is the distance from the SN to the stop SN.\<close>

lemma ack_loop_measure:
  assumes "tx_mod_base cfg e sn < tx_mod_base cfg e stop"
  shows "sn_off (amtx_mod cfg) ((sn + 1) mod amtx_mod cfg) stop < sn_off (amtx_mod cfg) sn stop"
proof -
  let ?md = "amtx_mod cfg" and ?b = "tx_next_ack (amtx_st e)"
  have l: "sn_off ?md ?b sn < sn_off ?md ?b stop"
    using assms by (simp add: tx_mod_base_def amtx_mod_def am.mod_base_less)
  moreover have "sn_off ?md ?b stop < unat ?md" by (simp add: amtx_mod_def am.off_less)
  ultimately have "sn_off ?md ?b ((sn + 1) mod ?md) = Suc (sn_off ?md ?b sn)"
    unfolding amtx_mod_def by (intro am.off_succ_less) simp
  with l show ?thesis
    using sn_space.off_rebase [OF am_sn_space, of "txam_size cfg" "(sn + 1) mod ?md" stop ?b]
      sn_space.off_rebase [OF am_sn_space, of "txam_size cfg" sn stop ?b]
    by (simp add: amtx_mod_def)
qed

function ack_loop ::
  "rlc_tx_am_config \<Rightarrow> u32 \<Rightarrow> u32 \<Rightarrow> u32 option \<Rightarrow> rlc_tx_am_entity \<Rightarrow> (u32 option \<times> rlc_tx_am_entity) res" where
  "ack_loop cfg stop_sn sn max_deliv_pdcp_sn e =
    (if \<not> tx_mod_base cfg e sn < tx_mod_base cfg e stop_sn then Inr (max_deliv_pdcp_sn, e)
     else if \<not> win_has_sn (txam_size cfg) (tx_window e) sn then Inr (max_deliv_pdcp_sn, e)
     else
       case win_get (txam_size cfg) (tx_window e) sn of
         Inl f \<Rightarrow> Inl f
       | Inr sdu_info \<Rightarrow>
           (case win_remove_sn (txam_size cfg) sn (tx_window e) of
              Inl f \<Rightarrow> Inl f
            | Inr w \<Rightarrow>
                ack_loop cfg stop_sn ((sn + 1) mod amtx_mod cfg)
                  (if ti_pdcp_sn sdu_info \<noteq> None then ti_pdcp_sn sdu_info else max_deliv_pdcp_sn)
                  (e\<lparr>retx_queue := snd (retx_remove_sn sn (retx_queue e)), tx_window := w,
                     amtx_st := (amtx_st e)\<lparr>tx_next_ack := (sn + 1) mod amtx_mod cfg\<rparr>\<rparr>)))"
  by pat_completeness auto
termination
  by (relation "measure (\<lambda>(cfg, stop_sn, sn, d, e). sn_off (amtx_mod cfg) sn stop_sn)")
    (auto intro: ack_loop_measure)

declare ack_loop.simps [simp del]

text \<open>One SN of a NACK range.\<close>

definition range_nack :: "rlc_tx_am_config \<Rightarrow> rlc_am_status_nack \<Rightarrow> u32 \<Rightarrow> rlc_am_status_nack" where
  "range_nack cfg r range_sn =
    (let nack = rlc_am_status_nack_init\<lparr>nack_sn := range_sn\<rparr> in
     if has_so r then
       let nack = (if range_sn = nack_sn r then nack\<lparr>so_start := so_start r\<rparr> else nack);
           nack = (if range_sn = (nack_sn r + ucast (nack_range r) - 1) mod amtx_mod cfg
                   then nack\<lparr>so_end := so_end r\<rparr> else nack) in
       nack\<lparr>has_so := (so_start nack \<noteq> 0 \<or> so_end nack \<noteq> so_end_of_sdu)\<rparr>
     else nack)"

text \<open>The SNs queued for retransmission are collected in ascending order, as in a \<open>std::set\<close>.\<close>

definition handle_nack_into ::
  "rlc_tx_am_config \<Rightarrow> rlc_am_status_nack \<Rightarrow> u32 list \<Rightarrow> rlc_tx_am_entity \<Rightarrow> (u32 list \<times> rlc_tx_am_entity) res" where
  "handle_nack_into cfg nack retx_sn_set e =
    (case handle_nack cfg nack e of
       Inl f \<Rightarrow> Inl f
     | Inr (queued, e) \<Rightarrow> Inr (if queued then insort_insert (nack_sn nack) retx_sn_set else retx_sn_set, e))"

lemma range_loop_measure:
  assumes "x \<noteq> end_sn mod amtx_mod cfg"
  shows "sn_off (amtx_mod cfg) ((x + 1) mod amtx_mod cfg) end_sn <
    (if x < amtx_mod cfg then sn_off (amtx_mod cfg) x end_sn else unat (amtx_mod cfg))"
proof -
  let ?md = "amtx_mod cfg"
  have lt: "sn_off ?md y end_sn < unat ?md" for y by (simp add: amtx_mod_def am.off_less)
  show ?thesis
  proof (cases "x < ?md")
    case True
    have "sn_off ?md x (end_sn mod ?md) \<noteq> 0"
      using assms True sn_space.off_zero_iff [OF am_sn_space, of "end_sn mod ?md" "txam_size cfg" x]
        sn_space.less_md_iff [OF am_sn_space, of end_sn "txam_size cfg"] by (auto simp: amtx_mod_def)
    then have nz: "sn_off ?md x end_sn \<noteq> 0" by (simp add: amtx_mod_def am.off_mod)
    have o1: "sn_off ?md x ((x + 1) mod ?md) = 1"
      using am.md_double [of "txam_size cfg"] am.W_pos [of "txam_size cfg"]
      by (simp add: amtx_mod_def am.off_mod am.off_add)
    show ?thesis
      using nz o1 True sn_space.off_rebase [OF am_sn_space, of "txam_size cfg" "(x + 1) mod ?md" end_sn x]
      by (simp add: amtx_mod_def)
  qed (use lt in simp)
qed

function range_loop ::
  "rlc_tx_am_config \<Rightarrow> u32 \<Rightarrow> rlc_am_status_nack \<Rightarrow> u32 \<Rightarrow> u32 list \<Rightarrow> rlc_tx_am_entity \<Rightarrow>
    (u32 list \<times> rlc_tx_am_entity) res" where
  "range_loop cfg ack_sn r range_sn retx_sn_set e =
    (if range_sn = (nack_sn r + ucast (nack_range r)) mod amtx_mod cfg then Inr (retx_sn_set, e)
     else if range_sn = ack_sn then Inr (retx_sn_set, e)
     else
       case handle_nack_into cfg (range_nack cfg r range_sn) retx_sn_set e of
         Inl f \<Rightarrow> Inl f
       | Inr (retx_sn_set, e) \<Rightarrow> range_loop cfg ack_sn r ((range_sn + 1) mod amtx_mod cfg) retx_sn_set e)"
  by pat_completeness auto
termination
proof (relation "measure (\<lambda>(cfg, a, r, x, s, e).
    if x < amtx_mod cfg then sn_off (amtx_mod cfg) x (nack_sn r + ucast (nack_range r)) else unat (amtx_mod cfg))",
    goal_cases)
  case (2 cfg ack_sn r range_sn retx_sn_set e x2 x y)
  then show ?case
    using range_loop_measure [of range_sn "nack_sn r + ucast (nack_range r)" cfg]
      sn_space.less_md_iff [OF am_sn_space, of "range_sn + 1" "txam_size cfg"]
    by (simp add: amtx_mod_def)
qed simp

declare range_loop.simps [simp del]

fun nacks_loop ::
  "rlc_tx_am_config \<Rightarrow> u32 \<Rightarrow> rlc_am_status_nack list \<Rightarrow> u32 list \<Rightarrow> rlc_tx_am_entity \<Rightarrow>
    (u32 list \<times> rlc_tx_am_entity) res" where
  "nacks_loop cfg ack_sn [] retx_sn_set e = Inr (retx_sn_set, e)"
| "nacks_loop cfg ack_sn (nack # nacks) retx_sn_set e =
    (case (if has_nack_range nack then range_loop cfg ack_sn nack (nack_sn nack) retx_sn_set e
           else handle_nack_into cfg nack retx_sn_set e) of
       Inl f \<Rightarrow> Inl f
     | Inr (retx_sn_set, e) \<Rightarrow> nacks_loop cfg ack_sn nacks retx_sn_set e)"

definition check_sn_reached_max_retx ::
  "rlc_tx_am_config \<Rightarrow> u32 \<Rightarrow> rlc_tx_am_entity \<Rightarrow> rlc_tx_event list res" where
  "check_sn_reached_max_retx cfg sn e =
    (case win_get (txam_size cfg) (tx_window e) sn of
       Inl f \<Rightarrow> Inl f
     | Inr sdu_info \<Rightarrow> Inr (if ti_retx_count sdu_info = txam_max_retx_thresh cfg then [On_max_retx] else []))"

fun retx_count_loop ::
  "rlc_tx_am_config \<Rightarrow> u32 list \<Rightarrow> rlc_tx_am_entity \<Rightarrow> (rlc_tx_event list \<times> rlc_tx_am_entity) res" where
  "retx_count_loop cfg [] e = Inr ([], e)"
| "retx_count_loop cfg (sn # sns) e =
    (case win_get (txam_size cfg) (tx_window e) sn of
       Inl f \<Rightarrow> Inl f
     | Inr pdu \<Rightarrow>
         (case win_set (txam_size cfg) sn
                 (pdu\<lparr>ti_retx_count := (if ti_retx_count pdu = RETX_COUNT_NOT_STARTED then 0
                                        else ti_retx_count pdu + 1)\<rparr>) (tx_window e) of
            Inl f \<Rightarrow> Inl f
          | Inr w \<Rightarrow>
              (let e = e\<lparr>tx_window := w\<rparr> in
               case check_sn_reached_max_retx cfg sn e of
                 Inl f \<Rightarrow> Inl f
               | Inr evs \<Rightarrow>
                   (case retx_count_loop cfg sns e of
                      Inl f \<Rightarrow> Inl f
                    | Inr (evs', e) \<Rightarrow> Inr (evs @ evs', e)))))"

definition stop_poll_timer :: "rlc_tx_am_config \<Rightarrow> u32 \<Rightarrow> rlc_tx_am_entity \<Rightarrow> rlc_tx_am_entity" where
  "stop_poll_timer cfg ack_sn e =
    (if tx_mod_base cfg e (poll_sn (amtx_st e)) < tx_mod_base cfg e ack_sn
     then e\<lparr>poll_retransmit_timer := False\<rparr> else e)"

definition handle_status_pdu ::
  "rlc_tx_am_config \<Rightarrow> rlc_am_status_pdu \<Rightarrow> rlc_rx_am_entity \<Rightarrow> rlc_tx_am_entity \<Rightarrow>
    (rlc_tx_event list \<times> rlc_tx_am_entity) res" where
  "handle_status_pdu cfg status r e =
    (let ack_sn = sp_ack_sn status; nacks = sp_nacks status in
     if \<not> valid_ack_sn cfg e ack_sn then Inr ([], e)
     else if tx_mod_base cfg e ack_sn > tx_mod_base cfg e (tx_next (amtx_st e) + 1) then Inr ([], e)
     else if \<not> list_all (valid_nack cfg e ack_sn) nacks then Inr ([], e)
     else
       let e = stop_poll_timer cfg ack_sn e;
           stop_sn = (case nacks of [] \<Rightarrow> ack_sn | nack # _ \<Rightarrow> nack_sn nack) in
       case ack_loop cfg stop_sn (tx_next_ack (amtx_st e)) None e of
         Inl f \<Rightarrow> Inl f
       | Inr (max_deliv_pdcp_sn, e) \<Rightarrow>
           (let evs1 = (case max_deliv_pdcp_sn of None \<Rightarrow> [] | Some pdcp_sn \<Rightarrow> [On_delivered_sdu pdcp_sn]) in
            case nacks_loop cfg ack_sn nacks [] e of
              Inl f \<Rightarrow> Inl f
            | Inr (retx_sn_set, e) \<Rightarrow>
                (let (evs2, e) = amtx_update_mac_buffer_state cfg r e in
                 case retx_count_loop cfg retx_sn_set e of
                   Inl f \<Rightarrow> Inl f
                 | Inr (evs3, e) \<Rightarrow> Inr (evs1 @ evs2 @ evs3, e))))"

section \<open>Poll timer\<close>

definition on_expired_poll_retransmit_timer ::
  "rlc_tx_am_config \<Rightarrow> rlc_rx_am_entity \<Rightarrow> rlc_tx_am_entity \<Rightarrow> (rlc_tx_event list \<times> rlc_tx_am_entity) res" where
  "on_expired_poll_retransmit_timer cfg r e =
    (if amtx_cannot_tx cfg e then
       let ack = tx_next_ack (amtx_st e) in
       if cm_empty (tx_window e) then Inr ([], e)
       else if \<not> win_has_sn (txam_size cfg) (tx_window e) ack then Inr ([], e)
       else
         case win_get (txam_size cfg) (tx_window e) ack of
           Inl f \<Rightarrow> Inl f
         | Inr sdu_info \<Rightarrow>
             (let retx = \<lparr>retx_sn = ack, retx_so = 0, retx_length = of_nat (length (ti_sdu sdu_info))\<rparr>;
                  (evs, e) = amtx_update_mac_buffer_state cfg r (e\<lparr>retx_queue := retx_push retx (retx_queue e)\<rparr>) in
              Inr (evs, e\<lparr>is_poll_retransmit_timer_expired := True\<rparr>))
     else Inr ([], e\<lparr>is_poll_retransmit_timer_expired := True\<rparr>))"

end
