(* ===== verification/Rlc_Tx_Am_Inv.thy ===== *)
theory Rlc_Tx_Am_Inv
  imports Rlc_Tx_Am
begin

text \<open>
  The invariant of the transmitting AM entity and its preservation by every operation: which SNs the
  window holds, how far the SDU under segmentation has progressed, and that every queued
  retransmission of an SN of the window lies inside its SDU.  From it follow that no assertion of the
  transmitter fails, that every PDU fits its grant, and what each data PDU carries.
\<close>

section \<open>The invariant\<close>

abbreviation tx_off :: "rlc_tx_am_config \<Rightarrow> u32 \<Rightarrow> u32 \<Rightarrow> nat" where
  "tx_off cfg \<equiv> sn_off (amtx_mod cfg)"

abbreviation tx_look :: "rlc_tx_am_config \<Rightarrow> rlc_tx_am_sdu_info am_win \<Rightarrow> u32 \<Rightarrow> rlc_tx_am_sdu_info option" where
  "tx_look cfg w \<equiv> win_look (txam_size cfg) w"

abbreviation tx_W :: "rlc_tx_am_config \<Rightarrow> nat" where
  "tx_W cfg \<equiv> unat (amtx_window_size cfg)"

definition tx_retx_ok :: "(u32 \<Rightarrow> rlc_tx_am_sdu_info option) \<Rightarrow> rlc_tx_amd_retx \<Rightarrow> bool" where
  "tx_retx_ok look x \<longleftrightarrow>
    (case look (retx_sn x) of
       None \<Rightarrow> True
     | Some i \<Rightarrow> 0 < retx_length x \<and> unat (retx_so x) + unat (retx_length x) \<le> length (ti_sdu i))"

definition tx_info_ok :: "rlc_tx_am_sdu_info \<Rightarrow> bool" where
  "tx_info_ok i \<longleftrightarrow> ti_sdu i \<noteq> [] \<and> length (ti_sdu i) \<le> 65535"

text \<open>
  \<open>tx_inv cfg b n q seg xs w\<close>: with TX_Next_Ack \<open>b\<close>, TX_Next \<open>n\<close>, the SDU queue \<open>q\<close>, the SN under
  segmentation \<open>seg\<close>, the retransmissions \<open>xs\<close> and the window \<open>w\<close>.
\<close>

definition tx_inv ::
  "rlc_tx_am_config \<Rightarrow> u32 \<Rightarrow> u32 \<Rightarrow> rlc_sdu_queue \<Rightarrow> u32 \<Rightarrow> rlc_tx_amd_retx list \<Rightarrow>
    rlc_tx_am_sdu_info am_win \<Rightarrow> bool" where
  "tx_inv cfg b n q seg xs w \<longleftrightarrow>
    sdu_queue_inv q \<and> b < amtx_mod cfg \<and> n < amtx_mod cfg \<and> tx_off cfg b n \<le> tx_W cfg \<and>
    win_ok (txam_size cfg) b w \<and>
    dom (tx_look cfg w) = sns_below (amtx_mod cfg) b n \<union> (if seg = INVALID_RLC_SN then {} else {n}) \<and>
    (\<forall>sn i. tx_look cfg w sn = Some i \<longrightarrow> tx_info_ok i) \<and>
    (seg \<noteq> INVALID_RLC_SN \<longrightarrow>
      seg = n \<and> (\<exists>i. tx_look cfg w n = Some i \<and> 0 < ti_next_so i \<and> unat (ti_next_so i) < length (ti_sdu i))) \<and>
    (\<forall>x \<in> set xs. tx_retx_ok (tx_look cfg w) x)"

definition amtx_inv :: "rlc_tx_am_config \<Rightarrow> rlc_tx_am_entity \<Rightarrow> bool" where
  "amtx_inv cfg e \<longleftrightarrow>
    tx_inv cfg (tx_next_ack (amtx_st e)) (tx_next (amtx_st e)) (amtx_sdu_queue e)
      (sn_under_segmentation e) (rq_queue (retx_queue e)) (tx_window e)"

lemma tx_mod_less: "tx_W cfg < unat (amtx_mod cfg)" "0 < tx_W cfg" "0 < amtx_mod cfg"
  using am.W_less_md [of "txam_size cfg"] am.W_pos [of "txam_size cfg"] am.md_pos [of "txam_size cfg"]
  by (simp_all only: amtx_mod_def amtx_window_size_def word_less_nat_alt unat_0)

lemma tx_sn_space: "sn_space (amtx_mod cfg) (amtx_window_size cfg)"
  unfolding amtx_mod_def amtx_window_size_def by (rule am_sn_space)

interpretation txsn: sn_space "amtx_mod cfg" "amtx_window_size cfg" for cfg
  by (rule tx_sn_space)

lemma tx_base_off:
  "unat (tx_mod_base cfg e x) = tx_off cfg (tx_next_ack (amtx_st e)) x"
  by (simp only: tx_mod_base_def sn_off_def)

lemma tx_base_less: "tx_mod_base cfg e x < tx_mod_base cfg e y \<longleftrightarrow>
    tx_off cfg (tx_next_ack (amtx_st e)) x < tx_off cfg (tx_next_ack (amtx_st e)) y"
  by (simp only: word_less_nat_alt tx_base_off)

lemma tx_base_le: "tx_mod_base cfg e x \<le> tx_mod_base cfg e y \<longleftrightarrow>
    tx_off cfg (tx_next_ack (amtx_st e)) x \<le> tx_off cfg (tx_next_ack (amtx_st e)) y"
  by (simp only: word_le_nat_alt tx_base_off)

lemma sn_not_invalid: "n < amtx_mod cfg \<Longrightarrow> n \<noteq> INVALID_RLC_SN"
  by (cases "txam_size cfg") (auto simp: amtx_mod_def INVALID_RLC_SN_def)

lemma win_slots_tx: "win_slots (txam_size cfg) = tx_W cfg"
  by (simp add: win_slots_def amtx_window_size_def)

lemma win_ok_look:
  "win_ok (txam_size cfg) b w \<Longrightarrow> tx_look cfg w sn = Some i \<Longrightarrow> sn < amtx_mod cfg \<and> tx_off cfg b sn < tx_W cfg"
  by (auto simp: win_ok_def win_slots_tx amtx_mod_def)

lemma amtx_init_inv:
  assumes "unat capacity \<le> 2 ^ k" "k \<le> 31"
  shows "amtx_inv cfg (rlc_tx_am_entity_init capacity (2 ^ k))"
proof -
  have "dom (tx_look cfg circular_map_init) = {}" by (auto simp: dom_def)
  then show ?thesis
    using sdu_queue_make_inv [OF assms] tx_mod_less [of cfg]
    by (simp add: amtx_inv_def tx_inv_def rlc_tx_am_entity_init_def rlc_tx_am_state_init_def
        rlc_retx_queue_init_def)
qed

section \<open>Polling\<close>

lemma polling_frame [simp]:
  "tx_next_ack (amtx_st (snd (get_polling_bit cfg sn r n e))) = tx_next_ack (amtx_st e)"
  "tx_next (amtx_st (snd (get_polling_bit cfg sn r n e))) = tx_next (amtx_st e)"
  "amtx_sdu_queue (snd (get_polling_bit cfg sn r n e)) = amtx_sdu_queue e"
  "sn_under_segmentation (snd (get_polling_bit cfg sn r n e)) = sn_under_segmentation e"
  "retx_queue (snd (get_polling_bit cfg sn r n e)) = retx_queue e"
  "tx_window (snd (get_polling_bit cfg sn r n e)) = tx_window e"
  by (simp_all add: get_polling_bit_def count_without_poll_def set_poll_def Let_def)

lemma polling_bit_less: "fst (get_polling_bit cfg sn r n e) < 2"
  by (simp add: get_polling_bit_def split_beta Let_def)

lemma amtx_inv_polling: "amtx_inv cfg (snd (get_polling_bit cfg sn r n e)) = amtx_inv cfg e"
  by (simp add: amtx_inv_def)

section \<open>Data PDUs\<close>

lemma head_sizes:
  "unat (head_min_size cfg) = rlc_am_pdu_header_min_size (txam_size cfg)"
  "unat (head_max_size cfg) = rlc_am_pdu_header_min_size (txam_size cfg) + 2"
  by (cases "txam_size cfg";
      simp add: head_min_size_def head_max_size_def rlc_am_pdu_header_max_size_def rlc_am_pdu_header_so_size_def)+

lemma length_data_pdu:
  "length (amtx_data_pdu cfg p si sn so payload) =
    rlc_am_pdu_header_min_size (txam_size cfg) + (if so = 0 then 0 else 2) + length payload"
  by (cases "txam_size cfg") (simp_all add: amtx_data_pdu_def rlc_am_write_data_pdu_header_def Let_def)

lemma buffer_slice_ok: "off + len \<le> length buf \<Longrightarrow> buffer_slice buf off len = Inr (take len (drop off buf))"
  by (simp add: buffer_slice_def)

text \<open>
  A data PDU that carries a part of an SDU of the window: \<open>exact\<close> says that SI marks the end of the
  SDU if and only if the part ends there.
\<close>

definition carries_part ::
  "rlc_tx_am_config \<Rightarrow> bool \<Rightarrow> rlc_tx_am_entity \<Rightarrow> bytes \<Rightarrow> u32 \<Rightarrow> nat \<Rightarrow> nat \<Rightarrow> bool" where
  "carries_part cfg exact e pdu sn so len \<longleftrightarrow>
    (\<exists>p si i. tx_look cfg (tx_window e) sn = Some i \<and> 0 < len \<and> so + len \<le> length (ti_sdu i) \<and> p < 2 \<and>
      pdu = amtx_data_pdu cfg p si sn (of_nat so) (take len (drop so (ti_sdu i))) \<and>
      (si = Full_sdu \<or> si = First_segment \<longleftrightarrow> so = 0) \<and>
      (si = First_segment \<or> si = Middle_segment \<longrightarrow> so + len < length (ti_sdu i)) \<and>
      (exact \<longrightarrow> si = Full_sdu \<or> si = Last_segment \<longrightarrow> so + len = length (ti_sdu i)))"

section \<open>New SDUs\<close>

lemma tx_not_full:
  assumes inv: "tx_inv cfg b n q INVALID_RLC_SN xs w" and full: "\<not> win_full (txam_size cfg) w"
  shows "tx_off cfg b n < tx_W cfg"
proof -
  have "cm_inv (tx_W cfg) w"
    using inv by (simp add: tx_inv_def win_ok_def cm_ok_def win_slots_tx)
  moreover have "dom (cm_lookup (tx_W cfg) w) = sns_below (amtx_mod cfg) b n"
    using inv by (simp add: tx_inv_def win_look_def win_slots_tx)
  ultimately have "cm_count w = tx_off cfg b n"
    using cm_count_lookup [of "tx_W cfg" w] txsn.card_below [of cfg b n] by simp
  with inv full show ?thesis by (simp add: tx_inv_def win_full_def cm_full_def win_slots_tx)
qed

lemma build_first_ok:
  assumes look: "tx_look cfg (tx_window e) sn = Some i" and ok: "win_ok (txam_size cfg) b (tx_window e)"
    and i: "ti_next_so i = 0" "tx_info_ok i" and sn: "sn = tx_next (amtx_st e)"
    and g: "head_min_size cfg < g" "unat g < length (ti_sdu i) + unat (head_min_size cfg)"
  shows "\<exists>pdu e'. build_first_sdu_segment cfg sn g e = Inr (pdu, e') \<and>
    tx_next_ack (amtx_st e') = tx_next_ack (amtx_st e) \<and> tx_next (amtx_st e') = sn \<and>
    amtx_sdu_queue e' = amtx_sdu_queue e \<and> retx_queue e' = retx_queue e \<and> sn_under_segmentation e' = sn \<and>
    tx_look cfg (tx_window e') =
      (tx_look cfg (tx_window e))(sn \<mapsto> i\<lparr>ti_next_so := g - head_min_size cfg\<rparr>) \<and>
    win_ok (txam_size cfg) b (tx_window e') \<and> length pdu \<le> unat g \<and>
    carries_part cfg True e' pdu sn 0 (unat (g - head_min_size cfg))"
proof -
  define len where "len = g - head_min_size cfg"
  have ulen: "unat len = unat g - unat (head_min_size cfg)"
    using g(1) by (simp add: len_def unat_sub word_less_nat_alt word_le_nat_alt)
  with g have len: "0 < unat len" "unat len < length (ti_sdu i)" "unat (head_min_size cfg) + unat len = unat g"
    by (simp_all add: word_less_nat_alt)
  have ng: "\<not> g \<le> head_min_size cfg" "\<not> length (ti_sdu i) + unat (head_min_size cfg) \<le> unat g"
    using g by simp_all
  have sl: "buffer_slice (ti_sdu i) 0 (unat len) = Inr (take (unat len) (ti_sdu i))"
    using len buffer_slice_ok [of 0 "unat len" "ti_sdu i"] by simp
  define pe where "pe = get_polling_bit cfg sn False len (e\<lparr>sn_under_segmentation := sn\<rparr>)"
  obtain w' where w': "win_set (txam_size cfg) sn (i\<lparr>ti_next_so := len\<rparr>) (tx_window e) = Inr w'"
    "tx_look cfg w' = (tx_look cfg (tx_window e))(sn \<mapsto> i\<lparr>ti_next_so := len\<rparr>)" "win_ok (txam_size cfg) b w'"
    using win_set_ok [OF ok look] by blast
  let ?e = "(snd pe)\<lparr>tx_window := w'\<rparr>"
  let ?pdu = "amtx_data_pdu cfg (fst pe) First_segment sn 0 (take (unat len) (ti_sdu i))"
  have b: "build_first_sdu_segment cfg sn g e = Inr (?pdu, ?e)"
    using look ng i(1) w'(1) sl
    by (simp add: build_first_sdu_segment_def win_get_look Let_def split_beta sn pe_def del: not_le flip: len_def)
  have "carries_part cfg True ?e ?pdu sn 0 (unat len)"
    unfolding carries_part_def using w'(2) len polling_bit_less
    by (intro exI [of _ "fst pe"] exI [of _ First_segment] exI [of _ "i\<lparr>ti_next_so := len\<rparr>"]) (simp add: pe_def)
  moreover have "length ?pdu \<le> unat g" using len by (simp add: length_data_pdu head_sizes)
  ultimately show ?thesis
    using w' sn b by (intro exI [of _ ?pdu] exI [of _ ?e]) (simp add: pe_def flip: len_def)
qed

lemma tx_inv_queue: "tx_inv cfg b n q seg xs w \<Longrightarrow> sdu_queue_inv q' \<Longrightarrow> tx_inv cfg b n q' seg xs w"
  unfolding tx_inv_def by blast

text \<open>An SDU sent in full enters the window and TX_Next advances.\<close>

lemma tx_inv_full:
  assumes inv: "tx_inv cfg b n q INVALID_RLC_SN [] w" and room: "tx_off cfg b n < tx_W cfg"
    and look: "tx_look cfg w' = (tx_look cfg w)(n \<mapsto> i)" and ok: "win_ok (txam_size cfg) b w'" "tx_info_ok i"
  shows "tx_inv cfg b ((n + 1) mod amtx_mod cfg) q INVALID_RLC_SN [] w'"
proof -
  have n: "n < amtx_mod cfg" "Suc (tx_off cfg b n) < unat (amtx_mod cfg)"
    using inv room txsn.md_double [of cfg] by (simp_all add: tx_inv_def)
  have "tx_off cfg b ((n + 1) mod amtx_mod cfg) \<le> tx_W cfg"
    using txsn.off_succ_less [OF n(2)] room by simp
  then show ?thesis
    using inv ok txsn.below_succ [OF n] txsn.less_md_iff [of "n + 1" cfg] by (simp add: tx_inv_def look)
qed

lemma tx_inv_first:
  assumes inv: "tx_inv cfg b n q INVALID_RLC_SN [] w"
    and look: "tx_look cfg w' = (tx_look cfg w)(n \<mapsto> i)" and ok: "win_ok (txam_size cfg) b w'" "tx_info_ok i"
    and i: "0 < ti_next_so i" "unat (ti_next_so i) < length (ti_sdu i)"
  shows "tx_inv cfg b n q n [] w'"
proof -
  have n: "n < amtx_mod cfg" using inv by (simp add: tx_inv_def)
  then show ?thesis
    using inv ok i sn_not_invalid [OF n] by (simp add: tx_inv_def look)
qed

text \<open>
  What a pull does: the SDUs of the window and of the queue stay, or the next SDU moves from the queue
  into the window under TX_Next; the PDU fits the grant and is empty or carries a part of an SDU of
  the window.
\<close>

definition tx_sdus :: "rlc_tx_am_config \<Rightarrow> rlc_tx_am_sdu_info am_win \<Rightarrow> u32 \<Rightarrow> bytes option" where
  "tx_sdus cfg w sn = map_option ti_sdu (tx_look cfg w sn)"

definition tx_moved :: "rlc_tx_am_config \<Rightarrow> rlc_tx_am_entity \<Rightarrow> rlc_tx_am_entity \<Rightarrow> bool" where
  "tx_moved cfg e e' \<longleftrightarrow>
    (\<exists>s. queue_sdus (amtx_sdu_queue e) = s # queue_sdus (amtx_sdu_queue e') \<and>
      tx_sdus cfg (tx_window e) (tx_next (amtx_st e)) = None \<and>
      tx_sdus cfg (tx_window e') = (tx_sdus cfg (tx_window e))(tx_next (amtx_st e) \<mapsto> sdu_buf s))"

definition tx_same :: "rlc_tx_am_config \<Rightarrow> rlc_tx_am_entity \<Rightarrow> rlc_tx_am_entity \<Rightarrow> bool" where
  "tx_same cfg e e' \<longleftrightarrow>
    queue_sdus (amtx_sdu_queue e') = queue_sdus (amtx_sdu_queue e) \<and>
    tx_sdus cfg (tx_window e') = tx_sdus cfg (tx_window e)"

definition tx_pulled ::
  "rlc_tx_am_config \<Rightarrow> u32 \<Rightarrow> rlc_tx_am_entity \<Rightarrow> bytes \<Rightarrow> rlc_tx_am_entity \<Rightarrow> bool" where
  "tx_pulled cfg g e pdu e' \<longleftrightarrow>
    amtx_inv cfg e' \<and> length pdu \<le> unat g \<and> tx_next_ack (amtx_st e') = tx_next_ack (amtx_st e) \<and>
    (tx_moved cfg e e' \<or> tx_same cfg e e') \<and>
    (pdu = [] \<or> (\<exists>sn so len. carries_part cfg (rq_queue (retx_queue e) = []) e' pdu sn so len))"

lemma tx_same_refl [simp]: "tx_same cfg e e"
  by (simp add: tx_same_def)

lemma tx_pulled_nothing:
  "amtx_inv cfg e' \<Longrightarrow> tx_next_ack (amtx_st e') = tx_next_ack (amtx_st e) \<Longrightarrow> tx_same cfg e e' \<Longrightarrow>
    tx_pulled cfg g e [] e'"
  by (simp add: tx_pulled_def)

lemma tx_sdus_upd:
  "tx_look cfg w' = (tx_look cfg w)(sn \<mapsto> i) \<Longrightarrow> tx_sdus cfg w' = (tx_sdus cfg w)(sn \<mapsto> ti_sdu i)"
  by (auto simp: tx_sdus_def)

text \<open>The element \<open>build_new_pdu\<close> puts into the window.\<close>

definition new_info :: "rlc_sdu \<Rightarrow> rlc_tx_am_sdu_info" where
  "new_info s = \<lparr>ti_sdu = sdu_buf s, ti_pdcp_sn = sdu_pdcp_sn s, ti_next_so = 0,
    ti_retx_count = RETX_COUNT_NOT_STARTED\<rparr>"

lemma new_added:
  assumes inv: "amtx_inv cfg e" and retx: "rq_queue (retx_queue e) = []"
    and seg: "sn_under_segmentation e = INVALID_RLC_SN" and full: "\<not> win_full (txam_size cfg) (tx_window e)"
  obtains w where "win_add_sn (txam_size cfg) (tx_next (amtx_st e)) i (tx_window e) = Inr w"
    "tx_look cfg w = (tx_look cfg (tx_window e))(tx_next (amtx_st e) \<mapsto> i)"
    "win_ok (txam_size cfg) (tx_next_ack (amtx_st e)) w"
    "tx_look cfg (tx_window e) (tx_next (amtx_st e)) = None"
    "tx_off cfg (tx_next_ack (amtx_st e)) (tx_next (amtx_st e)) < tx_W cfg"
proof -
  let ?b = "tx_next_ack (amtx_st e)" and ?n = "tx_next (amtx_st e)"
  have inv': "tx_inv cfg ?b ?n (amtx_sdu_queue e) INVALID_RLC_SN [] (tx_window e)"
    using inv retx seg by (simp add: amtx_inv_def)
  have room: "tx_off cfg ?b ?n < tx_W cfg" by (rule tx_not_full [OF inv' full])
  have "dom (tx_look cfg (tx_window e)) = sns_below (amtx_mod cfg) ?b ?n"
    using inv' by (simp add: tx_inv_def)
  then have none: "tx_look cfg (tx_window e) ?n = None" by (auto simp: sns_below_def)
  have "win_ok (txam_size cfg) ?b (tx_window e)" "?n < am_mod (txam_size cfg)"
    "sn_off (am_mod (txam_size cfg)) ?b ?n < win_slots (txam_size cfg)"
    using inv' room by (simp_all add: tx_inv_def amtx_mod_def win_slots_tx)
  from win_add_ok [OF this(1) none this(2,3), of i] obtain w where
    "win_add_sn (txam_size cfg) ?n i (tx_window e) = Inr w"
    "tx_look cfg w = (tx_look cfg (tx_window e))(?n \<mapsto> i)" "win_ok (txam_size cfg) ?b w"
    by blast
  with none room that show thesis by blast
qed

text \<open>A new SDU \<open>s\<close> was read, leaving the queue \<open>q'\<close>, and there is room in grant and window.\<close>

definition new_ready :: "rlc_tx_am_config \<Rightarrow> u32 \<Rightarrow> rlc_sdu \<Rightarrow> rlc_sdu_queue \<Rightarrow> rlc_tx_am_entity \<Rightarrow> bool" where
  "new_ready cfg g s q' e \<longleftrightarrow>
    amtx_inv cfg e \<and> rq_queue (retx_queue e) = [] \<and> sn_under_segmentation e = INVALID_RLC_SN \<and>
    head_min_size cfg < g \<and> \<not> win_full (txam_size cfg) (tx_window e) \<and>
    sdu_queue_read (amtx_sdu_queue e) = Inr (Some s, q') \<and> sdu_queue_inv q' \<and>
    queue_sdus (amtx_sdu_queue e) = s # queue_sdus q' \<and> tx_info_ok (new_info s)"

lemma new_ready_facts:
  assumes "new_ready cfg g s q' e"
  shows "amtx_inv cfg e" "rq_queue (retx_queue e) = []" "sn_under_segmentation e = INVALID_RLC_SN"
    "\<not> win_full (txam_size cfg) (tx_window e)" "head_min_size cfg < g" "\<not> g \<le> head_min_size cfg"
    "sdu_queue_read (amtx_sdu_queue e) = Inr (Some s, q')" "queue_sdus (amtx_sdu_queue e) = s # queue_sdus q'"
    "tx_info_ok (new_info s)"
    "tx_inv cfg (tx_next_ack (amtx_st e)) (tx_next (amtx_st e)) q' INVALID_RLC_SN [] (tx_window e)"
proof -
  have "tx_inv cfg (tx_next_ack (amtx_st e)) (tx_next (amtx_st e)) (amtx_sdu_queue e) INVALID_RLC_SN [] (tx_window e)"
  proof -
    have "amtx_inv cfg e" "rq_queue (retx_queue e) = []" "sn_under_segmentation e = INVALID_RLC_SN"
      using assms by (simp_all add: new_ready_def)
    then show ?thesis by (simp add: amtx_inv_def)
  qed
  then show "tx_inv cfg (tx_next_ack (amtx_st e)) (tx_next (amtx_st e)) q' INVALID_RLC_SN [] (tx_window e)"
    by (rule tx_inv_queue) (use assms in \<open>simp add: new_ready_def\<close>)
qed (use assms in \<open>auto simp: new_ready_def\<close>)

lemma build_new_segmented:
  assumes r: "new_ready cfg g s q' e" and long: "unat g < length (sdu_buf s) + unat (head_min_size cfg)"
  shows "\<exists>pdu evs e'. build_new_pdu cfg g e = Inr (pdu, evs, e') \<and> tx_pulled cfg g e pdu e'"
proof -
  let ?b = "tx_next_ack (amtx_st e)" and ?n = "tx_next (amtx_st e)" and ?i = "new_info s"
  note rf = new_ready_facts [OF r]
  obtain w where w: "win_add_sn (txam_size cfg) ?n ?i (tx_window e) = Inr w"
    "tx_look cfg w = (tx_look cfg (tx_window e))(?n \<mapsto> ?i)" "win_ok (txam_size cfg) ?b w"
    "tx_look cfg (tx_window e) ?n = None" "tx_off cfg ?b ?n < tx_W cfg"
    by (rule new_added [OF rf(1-4), of ?i])
  define e1 where "e1 = e\<lparr>amtx_sdu_queue := q', tx_window := w\<rparr>"
  have e1: "tx_window e1 = w" "amtx_st e1 = amtx_st e" "amtx_sdu_queue e1 = q'" "retx_queue e1 = retx_queue e"
    and i: "ti_next_so ?i = 0" "unat g < length (ti_sdu ?i) + unat (head_min_size cfg)"
    using long by (simp_all add: e1_def new_info_def)
  have l: "tx_look cfg w ?n = Some ?i" using w(2) by simp
  obtain pdu e2 where e2: "build_first_sdu_segment cfg ?n g e1 = Inr (pdu, e2)"
    "tx_next_ack (amtx_st e2) = ?b" "tx_next (amtx_st e2) = ?n" "amtx_sdu_queue e2 = q'"
    "retx_queue e2 = retx_queue e" "sn_under_segmentation e2 = ?n"
    "tx_look cfg (tx_window e2) = (tx_look cfg w)(?n \<mapsto> ?i\<lparr>ti_next_so := g - head_min_size cfg\<rparr>)"
    "win_ok (txam_size cfg) ?b (tx_window e2)" "length pdu \<le> unat g"
    "carries_part cfg True e2 pdu ?n 0 (unat (g - head_min_size cfg))"
    using build_first_ok [of cfg e1 ?n ?i ?b g, unfolded e1, OF l w(3) i(1) rf(9) refl rf(5) i(2)] by blast
  have look: "tx_look cfg (tx_window e2) =
      (tx_look cfg (tx_window e))(?n \<mapsto> ?i\<lparr>ti_next_so := g - head_min_size cfg\<rparr>)"
    using e2(7) w(2) by simp
  have "unat (g - head_min_size cfg) = unat g - unat (head_min_size cfg)"
    using rf(5) by (simp add: unat_sub)
  with long rf(5,9) have "tx_inv cfg ?b ?n q' ?n [] (tx_window e2)"
    by (intro tx_inv_first [OF rf(10) look e2(8)]) (auto simp: tx_info_ok_def new_info_def word_less_nat_alt)
  then have "tx_pulled cfg g e pdu e2"
    using e2 rf(2,8) w(4) tx_sdus_upd [OF look]
    by (auto simp: tx_pulled_def amtx_inv_def tx_moved_def tx_sdus_def new_info_def)
  moreover have "\<exists>evs. build_new_pdu cfg g e = Inr (pdu, evs, e2)"
    using rf(4,6,7) long w(1) e2(1) by (simp add: build_new_pdu_def new_info_def Let_def e1_def)
  ultimately show ?thesis by blast
qed

lemma build_new_whole:
  assumes r: "new_ready cfg g s q' e" and fits: "\<not> unat g < length (sdu_buf s) + unat (head_min_size cfg)"
  shows "\<exists>pdu evs e'. build_new_pdu cfg g e = Inr (pdu, evs, e') \<and> tx_pulled cfg g e pdu e'"
proof -
  let ?b = "tx_next_ack (amtx_st e)" and ?n = "tx_next (amtx_st e)" and ?i = "new_info s"
  note rf = new_ready_facts [OF r]
  obtain w where w: "win_add_sn (txam_size cfg) ?n ?i (tx_window e) = Inr w"
    "tx_look cfg w = (tx_look cfg (tx_window e))(?n \<mapsto> ?i)" "win_ok (txam_size cfg) ?b w"
    "tx_look cfg (tx_window e) ?n = None" "tx_off cfg ?b ?n < tx_W cfg"
    by (rule new_added [OF rf(1-4), of ?i])
  define pe where "pe = get_polling_bit cfg ?n False 0 (e\<lparr>amtx_sdu_queue := q', tx_window := w\<rparr>)"
  define e2 where "e2 = (snd pe)\<lparr>amtx_st := (amtx_st (snd pe))\<lparr>tx_next := (?n + 1) mod amtx_mod cfg\<rparr>\<rparr>"
  let ?pdu = "amtx_data_pdu cfg (fst pe) Full_sdu ?n 0 (sdu_buf s)"
  have c: "carries_part cfg True e2 ?pdu ?n 0 (length (sdu_buf s))"
    unfolding carries_part_def using w(2) rf(9) polling_bit_less
    by (intro exI [of _ "fst pe"] exI [of _ Full_sdu] exI [of _ ?i])
      (simp add: e2_def pe_def new_info_def tx_info_ok_def)
  have "tx_inv cfg ?b ((?n + 1) mod amtx_mod cfg) q' INVALID_RLC_SN [] w"
    by (rule tx_inv_full [OF rf(10) w(5,2,3) rf(9)])
  then have "tx_pulled cfg g e ?pdu e2"
    using c fits rf(2,3,8) w(4) tx_sdus_upd [OF w(2)]
    by (auto simp: tx_pulled_def amtx_inv_def tx_moved_def tx_sdus_def new_info_def e2_def pe_def
        length_data_pdu head_sizes)
  moreover have "\<exists>evs. build_new_pdu cfg g e = Inr (?pdu, evs, e2)"
    using rf(4,6,7) fits w(1)
    by (simp add: build_new_pdu_def new_info_def Let_def split_beta e2_def pe_def)
  ultimately show ?thesis by blast
qed

lemma build_new_ok:
  assumes inv: "amtx_inv cfg e" and retx: "rq_queue (retx_queue e) = []"
    and seg: "sn_under_segmentation e = INVALID_RLC_SN"
  shows "\<exists>pdu evs e'. build_new_pdu cfg g e = Inr (pdu, evs, e') \<and> tx_pulled cfg g e pdu e'"
proof (cases "g \<le> head_min_size cfg \<or> win_full (txam_size cfg) (tx_window e)")
  case True
  then have "build_new_pdu cfg g e = Inr ([], [], e)" by (auto simp: build_new_pdu_def)
  then show ?thesis using tx_pulled_nothing [OF inv] by simp
next
  case False
  let ?q = "amtx_sdu_queue e"
  have q: "sdu_queue_inv ?q" using inv by (simp add: amtx_inv_def tx_inv_def)
  show ?thesis
  proof (cases "queue_sdus ?q")
    case Nil
    with q obtain q' where q': "sdu_queue_read ?q = Inr (None, q')" "sdu_queue_inv q'" "queue_sdus q' = []"
      by (rule sq.read_empty)
    have "amtx_inv cfg (e\<lparr>amtx_sdu_queue := q'\<rparr>)"
      using tx_inv_queue [OF inv [unfolded amtx_inv_def] q'(2)] by (simp add: amtx_inv_def)
    with False Nil q' show ?thesis
      by (intro exI [of _ "[]"] exI [of _ "e\<lparr>amtx_sdu_queue := q'\<rparr>"])
        (simp add: build_new_pdu_def tx_pulled_def tx_same_def)
  next
    case (Cons s ss)
    with q obtain q' where "sdu_queue_read ?q = Inr (Some s, q')" "sdu_queue_inv q'" "queue_sdus q' = ss"
      "sdu_buf s \<noteq> []" "sdu_len s \<le> 65535"
      by (rule sq.read_next)
    moreover from False have "head_min_size cfg < g" "\<not> win_full (txam_size cfg) (tx_window e)" by auto
    ultimately have r: "new_ready cfg g s q' e"
      using inv retx seg Cons by (simp add: new_ready_def tx_info_ok_def new_info_def)
    show ?thesis using build_new_segmented [OF r] build_new_whole [OF r] by blast
  qed
qed

section \<open>Continued segments\<close>

lemma tx_inv_progress:
  assumes inv: "tx_inv cfg b n q n [] w" and look: "tx_look cfg w' = (tx_look cfg w)(n \<mapsto> i)"
    and ok: "win_ok (txam_size cfg) b w'" "tx_info_ok i" "0 < ti_next_so i" "unat (ti_next_so i) < length (ti_sdu i)"
  shows "tx_inv cfg b n q n [] w'"
proof -
  have n: "n \<noteq> INVALID_RLC_SN" using inv sn_not_invalid by (auto simp: tx_inv_def)
  then have "dom (tx_look cfg w') = dom (tx_look cfg w)" using inv by (auto simp: tx_inv_def look)
  with inv n ok show ?thesis unfolding tx_inv_def by (simp add: look)
qed

lemma tx_inv_last:
  assumes inv: "tx_inv cfg b n q n [] w" and look: "tx_look cfg w' = (tx_look cfg w)(n \<mapsto> i)"
    and ok: "win_ok (txam_size cfg) b w'" "tx_info_ok i"
  shows "tx_inv cfg b ((n + 1) mod amtx_mod cfg) q INVALID_RLC_SN [] w'"
proof -
  have n: "n < amtx_mod cfg" "n \<noteq> INVALID_RLC_SN" using inv sn_not_invalid by (auto simp: tx_inv_def)
  have parts: "sdu_queue_inv q" "b < amtx_mod cfg" "\<forall>sn i. tx_look cfg w sn = Some i \<longrightarrow> tx_info_ok i"
    "dom (tx_look cfg w) = sns_below (amtx_mod cfg) b n \<union> (if n = INVALID_RLC_SN then {} else {n})"
    using inv unfolding tx_inv_def by blast+
  then have dom: "dom (tx_look cfg w) = insert n (sns_below (amtx_mod cfg) b n)" using n(2) by simp
  have "\<exists>j. tx_look cfg w' n = Some j" by (simp add: look)
  then have room: "tx_off cfg b n < tx_W cfg" using win_ok_look [OF ok(1)] by blast
  then have s: "Suc (tx_off cfg b n) < unat (amtx_mod cfg)" using txsn.md_double [of cfg] by simp
  have "tx_off cfg b ((n + 1) mod amtx_mod cfg) \<le> tx_W cfg"
    using txsn.off_succ_less [OF s] room by simp
  then show ?thesis
    using ok parts(1-3) unfolding tx_inv_def
    by (simp add: look dom txsn.below_succ [OF n(1) s] txsn.less_md_iff)
qed

text \<open>The segment \<open>build_continued_sdu_segment\<close> sends next: its SI, length and the state it polls in.\<close>

definition next_segment ::
  "rlc_tx_am_config \<Rightarrow> u32 \<Rightarrow> rlc_tx_am_sdu_info \<Rightarrow> rlc_si_field \<times> u32" where
  "next_segment cfg g i =
    (let rem = of_nat (length (ti_sdu i)) - ti_next_so i in
     if rem + head_max_size cfg > g then (Middle_segment, g - head_max_size cfg) else (Last_segment, rem))"

lemma next_segment_spec:
  assumes i: "tx_info_ok i" "unat (ti_next_so i) < length (ti_sdu i)" and g: "head_max_size cfg < g"
    and n: "next_segment cfg g i = (si, len)"
  shows "si = Middle_segment \<or> si = Last_segment" "0 < unat len" "unat (head_max_size cfg) + unat len \<le> unat g"
    "unat (ti_next_so i) + unat len \<le> length (ti_sdu i)"
    "si = Last_segment \<longleftrightarrow> unat (ti_next_so i) + unat len = length (ti_sdu i)"
proof -
  let ?rem = "of_nat (length (ti_sdu i)) - ti_next_so i :: u32"
  have l: "unat (of_nat (length (ti_sdu i)) :: u32) = length (ti_sdu i)"
    using i by (simp add: tx_info_ok_def unat_of_nat)
  then have rem: "unat ?rem = length (ti_sdu i) - unat (ti_next_so i)"
    using i(2) by (simp add: unat_sub word_le_nat_alt)
  have h: "unat (head_max_size cfg) \<le> 5" by (cases "txam_size cfg") (simp_all add: head_sizes)
  with rem i have "unat ?rem + unat (head_max_size cfg) < 2 ^ 32"
    unfolding tx_info_ok_def rem by (auto intro: le_less_trans [of _ "65535 + 5"])
  then have add: "unat (?rem + head_max_size cfg) = unat ?rem + unat (head_max_size cfg)"
    by (rule unat_add_fits)
  have gl: "unat (g - head_max_size cfg) = unat g - unat (head_max_size cfg)" "unat (head_max_size cfg) < unat g"
    using unat_sub [OF less_imp_le [OF g]] g by (simp_all add: word_less_nat_alt)
  have "si = Middle_segment \<and> len = g - head_max_size cfg \<and> unat g < unat ?rem + unat (head_max_size cfg) \<or>
      si = Last_segment \<and> len = ?rem \<and> unat ?rem + unat (head_max_size cfg) \<le> unat g"
    using n add by (auto simp: next_segment_def Let_def word_less_nat_alt split: if_splits)
  then show "si = Middle_segment \<or> si = Last_segment" "0 < unat len"
    "unat (head_max_size cfg) + unat len \<le> unat g" "unat (ti_next_so i) + unat len \<le> length (ti_sdu i)"
    "si = Last_segment \<longleftrightarrow> unat (ti_next_so i) + unat len = length (ti_sdu i)"
    using rem gl i(2) by auto
qed

lemma build_continued_eq:
  assumes look: "tx_look cfg (tx_window e) sn = Some i" and i: "0 < ti_next_so i" "unat (ti_next_so i) < length (ti_sdu i)"
    and g: "head_max_size cfg < g" and n: "next_segment cfg g i = (si, len)"
    and len: "unat (ti_next_so i) + unat len \<le> length (ti_sdu i)" and ok: "tx_info_ok i"
    and w: "win_set (txam_size cfg) sn (i\<lparr>ti_next_so := ti_next_so i + len\<rparr>) (tx_window e) = Inr w'"
    and pe: "pe = get_polling_bit cfg (tx_next (amtx_st e)) False len
      (if si = Last_segment then e\<lparr>sn_under_segmentation := INVALID_RLC_SN\<rparr> else e)"
  shows "build_continued_sdu_segment cfg sn g e =
    Inr (amtx_data_pdu cfg (fst pe) si (tx_next (amtx_st e)) (ucast (ti_next_so i))
           (take (unat len) (drop (unat (ti_next_so i)) (ti_sdu i))),
         let e' = (snd pe)\<lparr>tx_window := w'\<rparr> in
         if si = Last_segment
         then e'\<lparr>amtx_st := (amtx_st e')\<lparr>tx_next := (tx_next (amtx_st e) + 1) mod amtx_mod cfg\<rparr>\<rparr> else e')"
proof -
  have so: "unat (ucast (ti_next_so i) :: u16) = unat (ti_next_so i)"
    using i ok by (simp add: unat_ucast_mod tx_info_ok_def)
  have sl: "buffer_slice (ti_sdu i) (unat (ti_next_so i)) (unat len) =
      Inr (take (unat len) (drop (unat (ti_next_so i)) (ti_sdu i)))"
    using len by (rule buffer_slice_ok)
  have ng: "ti_next_so i \<noteq> 0" "\<not> unat (ti_next_so i) \<ge> length (ti_sdu i)" "\<not> g \<le> head_max_size cfg"
    using i g by auto
  let ?rem = "of_nat (length (ti_sdu i)) - ti_next_so i :: u32"
  let ?e = "if si = Last_segment then e\<lparr>sn_under_segmentation := INVALID_RLC_SN\<rparr> else e"
  have t: "(if ?rem + head_max_size cfg > g then (Middle_segment, g - head_max_size cfg, e)
       else (Last_segment, ?rem, e\<lparr>sn_under_segmentation := INVALID_RLC_SN\<rparr>)) = (si, len, ?e)"
    using n by (auto simp: next_segment_def Let_def split: if_splits)
  have st: "tx_next (amtx_st ?e) = tx_next (amtx_st e)" "tx_window ?e = tx_window e" by simp_all
  show ?thesis
    unfolding build_continued_sdu_segment_def win_get_look look option.case sum.case if_not_P [OF ng(1)]
      if_not_P [OF ng(2)] if_not_P [OF ng(3)] Let_def t prod.case st split_beta fst_conv snd_conv so sl
      polling_frame pe w by simp
qed

lemma of_nat_so: "(of_nat (unat (x :: u32)) :: u16) = ucast x"
  by simp

lemma build_continued_ok:
  assumes inv: "amtx_inv cfg e" and retx: "rq_queue (retx_queue e) = []"
    and seg: "sn_under_segmentation e \<noteq> INVALID_RLC_SN"
  shows "\<exists>pdu e'. build_continued_sdu_segment cfg (sn_under_segmentation e) g e = Inr (pdu, e') \<and>
    tx_pulled cfg g e pdu e'"
proof -
  let ?b = "tx_next_ack (amtx_st e)" and ?n = "tx_next (amtx_st e)" and ?q = "amtx_sdu_queue e"
  have sn: "sn_under_segmentation e = ?n" and inv': "tx_inv cfg ?b ?n ?q ?n [] (tx_window e)"
    using inv retx seg by (auto simp: amtx_inv_def tx_inv_def)
  obtain i where look: "tx_look cfg (tx_window e) ?n = Some i" and i: "0 < ti_next_so i"
    "unat (ti_next_so i) < length (ti_sdu i)"
    using inv seg by (auto simp: amtx_inv_def tx_inv_def)
  have ok: "tx_info_ok i" "win_ok (txam_size cfg) ?b (tx_window e)" using inv' look by (auto simp: tx_inv_def)
  show ?thesis
  proof (cases "g \<le> head_max_size cfg")
    case True
    with look i have "build_continued_sdu_segment cfg ?n g e = Inr ([], e)"
      by (simp add: build_continued_sdu_segment_def win_get_look not_le)
    then show ?thesis using tx_pulled_nothing [OF inv] by (simp add: sn)
  next
    case False
    then have g: "head_max_size cfg < g" by simp
    obtain si len where n: "next_segment cfg g i = (si, len)" by (cases "next_segment cfg g i")
    note seg_spec = next_segment_spec [OF ok(1) i(2) g n]
    let ?i = "i\<lparr>ti_next_so := ti_next_so i + len\<rparr>"
    obtain w' where w': "win_set (txam_size cfg) ?n ?i (tx_window e) = Inr w'"
      "tx_look cfg w' = (tx_look cfg (tx_window e))(?n \<mapsto> ?i)" "win_ok (txam_size cfg) ?b w'"
      using win_set_ok [OF ok(2) look] by blast
    define pe where "pe = get_polling_bit cfg ?n False len
      (if si = Last_segment then e\<lparr>sn_under_segmentation := INVALID_RLC_SN\<rparr> else e)"
    let ?pdu = "amtx_data_pdu cfg (fst pe) si ?n (ucast (ti_next_so i))
      (take (unat len) (drop (unat (ti_next_so i)) (ti_sdu i)))"
    obtain e' where e': "build_continued_sdu_segment cfg ?n g e = Inr (?pdu, e')" "tx_window e' = w'"
      "tx_next_ack (amtx_st e') = ?b" "amtx_sdu_queue e' = ?q" "retx_queue e' = retx_queue e"
      "tx_next (amtx_st e') = (if si = Last_segment then (?n + 1) mod amtx_mod cfg else ?n)"
      "sn_under_segmentation e' = (if si = Last_segment then INVALID_RLC_SN else ?n)"
      using build_continued_eq [OF look i g n seg_spec(4) ok(1) w'(1) pe_def] sn by (simp add: pe_def Let_def)
    have c: "carries_part cfg True e' ?pdu ?n (unat (ti_next_so i)) (unat len)"
      unfolding carries_part_def using w'(2) e'(2) seg_spec i polling_bit_less
      by (intro exI [of _ "fst pe"] exI [of _ si] exI [of _ ?i]) (auto simp: pe_def unat_eq_zero)
    have oki: "tx_info_ok ?i" using ok(1) by (simp add: tx_info_ok_def)
    have "unat (ti_next_so i + len) = unat (ti_next_so i) + unat len"
      using seg_spec(4) ok(1) by (intro unat_add_fits) (simp add: tx_info_ok_def)
    with seg_spec i have prog: "si \<noteq> Last_segment \<Longrightarrow> 0 < ti_next_so ?i \<and> unat (ti_next_so ?i) < length (ti_sdu ?i)"
      by (auto simp: word_less_nat_alt)
    have "amtx_inv cfg e'"
      using tx_inv_last [OF inv' w'(2,3) oki] tx_inv_progress [OF inv' w'(2,3) oki] prog e' retx
      by (simp add: amtx_inv_def)
    moreover have "tx_same cfg e e'"
      using e'(2,4) tx_sdus_upd [OF w'(2)] look by (auto simp: tx_same_def tx_sdus_def)
    moreover have "length ?pdu \<le> unat g"
      using seg_spec(3,4) by (simp add: length_data_pdu head_sizes)
    ultimately show ?thesis
      using c e'(1,3) retx by (auto simp: tx_pulled_def sn)
  qed
qed

section \<open>Retransmissions\<close>

lemma drop_missing_spec:
  "set (rq_queue (drop_missing_retx sz w q)) \<subseteq> set (rq_queue q) \<and>
    (case rq_queue (drop_missing_retx sz w q) of [] \<Rightarrow> True | x # _ \<Rightarrow> win_look sz w (retx_sn x) \<noteq> None)"
proof (induction sz w q rule: drop_missing_retx.induct)
  case (1 sz w q)
  show ?case
  proof (cases "rq_queue q")
    case (Cons x xs)
    show ?thesis
    proof (cases "win_has_sn sz w (retx_sn x)")
      case True
      with Cons show ?thesis by (simp add: drop_missing_retx.simps [of sz w q] win_has_look)
    next
      case False
      have "set (rq_queue (retx_pop q)) \<subseteq> set (rq_queue q)" using Cons by (auto simp: retx_pop_def)
      with 1 [OF Cons False] Cons False show ?thesis by (auto simp: drop_missing_retx.simps [of sz w q])
    qed
  qed (simp add: drop_missing_retx.simps)
qed

lemma tx_inv_retx:
  "tx_inv cfg b n q seg xs w \<Longrightarrow> \<forall>x \<in> set ys. tx_retx_ok (tx_look cfg w) x \<Longrightarrow> tx_inv cfg b n q seg ys w"
  unfolding tx_inv_def by blast

text \<open>The payload length of the retransmission at the front, and the queue afterwards.\<close>

definition retx_payload :: "rlc_tx_am_config \<Rightarrow> u32 \<Rightarrow> rlc_tx_amd_retx \<Rightarrow> u32" where
  "retx_payload cfg g x = min (retx_length x) (g - get_retx_expected_hdr_len cfg x)"

lemma retx_payload_spec:
  assumes len: "0 < retx_length x" "unat (retx_so x) + unat (retx_length x) \<le> 65535"
    and g: "get_retx_expected_hdr_len cfg x < g"
  shows "0 < unat (retx_payload cfg g x)" "unat (retx_payload cfg g x) \<le> unat (retx_length x)"
    "unat (get_retx_expected_hdr_len cfg x) + unat (retx_payload cfg g x) \<le> unat g"
    "unat (retx_so (retx_remainder (retx_payload cfg g x) x)) = unat (retx_so x) + unat (retx_payload cfg g x)"
    "unat (retx_length (retx_remainder (retx_payload cfg g x) x)) = unat (retx_length x) - unat (retx_payload cfg g x)"
proof -
  let ?h = "get_retx_expected_hdr_len cfg x" and ?p = "retx_payload cfg g x"
  have d: "unat (g - ?h) = unat g - unat ?h" "unat ?h < unat g"
    using unat_sub [OF less_imp_le [OF g]] g by (simp_all add: word_less_nat_alt)
  have m: "unat ?p = min (unat (retx_length x)) (unat (g - ?h))"
    by (simp add: retx_payload_def min_def word_le_nat_alt)
  show p: "0 < unat ?p" "unat ?p \<le> unat (retx_length x)" "unat ?h + unat ?p \<le> unat g"
    using len(1) d m by (auto simp: word_less_nat_alt)
  show "unat (retx_so (retx_remainder ?p x)) = unat (retx_so x) + unat ?p"
    unfolding retx_remainder_def using p len by (simp add: unat_add_fits)
  show "unat (retx_length (retx_remainder ?p x)) = unat (retx_length x) - unat ?p"
    unfolding retx_remainder_def using p(2) by (simp add: unat_sub word_le_nat_alt)
qed

lemma expected_hdr_len:
  "unat (retx_so x) \<le> 65535 \<Longrightarrow>
    length (amtx_data_pdu cfg p si sn (ucast (retx_so x)) []) = unat (get_retx_expected_hdr_len cfg x)"
  by (auto simp: length_data_pdu get_retx_expected_hdr_len_def head_sizes unat_ucast_mod word_unat_eq_iff)

lemma build_retx_front:
  assumes q: "rq_queue q = x # xs" "q = drop_missing_retx (txam_size cfg) (tx_window e) (retx_queue e)"
    and look: "tx_look cfg (tx_window e) (retx_sn x) = Some i" and i: "tx_info_ok i"
    and x: "0 < retx_length x" "unat (retx_so x) + unat (retx_length x) \<le> length (ti_sdu i)"
    and g: "get_retx_expected_hdr_len cfg x < g"
  shows "\<exists>q' pe. build_retx_pdu cfg g e =
      Inr (amtx_data_pdu cfg (fst pe) (retx_si x (retx_payload cfg g x = retx_length x)) (retx_sn x)
             (ucast (retx_so x)) (take (unat (retx_payload cfg g x)) (drop (unat (retx_so x)) (ti_sdu i))), snd pe) \<and>
    pe = get_polling_bit cfg (retx_sn x) True 0 (e\<lparr>retx_queue := q'\<rparr>) \<and>
    rq_queue q' = (if retx_payload cfg g x = retx_length x then xs
      else retx_remainder (retx_payload cfg g x) x # xs)"
proof -
  let ?p = "retx_payload cfg g x"
  have so: "unat (retx_so x) + unat (retx_length x) \<le> 65535" using x i by (simp add: tx_info_ok_def)
  note ps = retx_payload_spec [OF x(1) so g]
  have sum: "unat (retx_so x + retx_length x) = unat (retx_so x) + unat (retx_length x)"
    using so by (intro unat_add_fits) simp
  have ng: "\<not> unat (retx_so x + retx_length x) > length (ti_sdu i)" "\<not> g \<le> get_retx_expected_hdr_len cfg x"
    using x(2) g sum by simp_all
  have us: "unat (ucast (retx_so x) :: u16) = unat (retx_so x)"
    using so by (simp add: unat_ucast_mod)
  have sl: "buffer_slice (ti_sdu i) (unat (retx_so x)) (unat ?p) =
      Inr (take (unat ?p) (drop (unat (retx_so x)) (ti_sdu i)))"
    using x(2) ps(2) by (intro buffer_slice_ok) simp
  have hdr: "length (amtx_data_pdu cfg p si sn (ucast (retx_so x)) []) = unat (get_retx_expected_hdr_len cfg x)" for p si sn
    using so by (intro expected_hdr_len) simp
  obtain q' where q': "(if ?p = retx_length x then Inr (retx_pop q)
        else retx_replace_front (retx_remainder ?p x) q) = (Inr q' :: rlc_retx_queue res)"
      "rq_queue q' = (if ?p = retx_length x then xs else retx_remainder ?p x # xs)"
  proof -
    have "\<exists>q'. (if ?p = retx_length x then Inr (retx_pop q) else retx_replace_front (retx_remainder ?p x) q) =
        (Inr q' :: rlc_retx_queue res) \<and>
        rq_queue q' = (if ?p = retx_length x then xs else retx_remainder ?p x # xs)"
      using q(1) by (cases "?p = retx_length x") (simp_all add: retx_pop_def retx_replace_front_def)
    then show ?thesis using that by blast
  qed
  let ?pe = "get_polling_bit cfg (retx_sn x) True 0 (e\<lparr>retx_queue := q'\<rparr>)"
  have ne: "\<not> retx_empty q" "retx_front q = Inr x" using q(1) by (simp_all add: retx_empty_def retx_front_def)
  have up: "e\<lparr>retx_queue := a, retx_queue := b\<rparr> = e\<lparr>retx_queue := b\<rparr>" for a b by simp
  have "build_retx_pdu cfg g e =
      Inr (amtx_data_pdu cfg (fst ?pe) (retx_si x (?p = retx_length x)) (retx_sn x)
             (ucast (retx_so x)) (take (unat ?p) (drop (unat (retx_so x)) (ti_sdu i))), snd ?pe)"
  proof -
    have nh: "\<not> length (amtx_data_pdu cfg p si sn (ucast (retx_so x)) []) \<noteq> unat (get_retx_expected_hdr_len cfg x)" for p si sn
      by (simp add: hdr)
    have sel: "retx_queue (e\<lparr>retx_queue := q\<rparr>) = q" "tx_window (e\<lparr>retx_queue := q\<rparr>) = tx_window e" by simp_all
    show ?thesis
      unfolding build_retx_pdu_def q(2) [symmetric] Let_def sel if_not_P [OF ne(1)] ne(2) sum.case win_get_look look
        option.case if_not_P [OF ng(1)] if_not_P [OF ng(2)] retx_payload_def [symmetric] q'(1) up split_beta
        if_not_P [OF nh] us sl ..
  qed
  with q'(2) show ?thesis by blast
qed

lemma retx_si_spec:
  "retx_si x c = Full_sdu \<or> retx_si x c = First_segment \<longleftrightarrow> retx_so x = 0"
  "retx_si x c = First_segment \<or> retx_si x c = Middle_segment \<longleftrightarrow> \<not> c"
  by (simp_all add: retx_si_def)

lemma tx_inv_keep:
  "amtx_inv cfg e \<Longrightarrow> \<forall>x \<in> set (rq_queue r). tx_retx_ok (tx_look cfg (tx_window e)) x \<Longrightarrow>
    amtx_inv cfg (e\<lparr>retx_queue := r\<rparr>)"
  using tx_inv_retx by (simp add: amtx_inv_def)

lemma build_retx_sent:
  assumes inv: "amtx_inv cfg e" and ne: "rq_queue (retx_queue e) \<noteq> []"
    and q: "rq_queue q = x # xs" "q = drop_missing_retx (txam_size cfg) (tx_window e) (retx_queue e)"
    and retx: "\<forall>x \<in> set (rq_queue q). tx_retx_ok (tx_look cfg (tx_window e)) x"
    and look: "tx_look cfg (tx_window e) (retx_sn x) = Some i" and i: "tx_info_ok i"
    and x: "0 < retx_length x" "unat (retx_so x) + unat (retx_length x) \<le> length (ti_sdu i)"
    and g: "get_retx_expected_hdr_len cfg x < g"
  shows "\<exists>pdu e'. build_retx_pdu cfg g e = Inr (pdu, e') \<and> tx_pulled cfg g e pdu e'"
proof -
  have so: "unat (retx_so x) + unat (retx_length x) \<le> 65535" using x i by (simp add: tx_info_ok_def)
  let ?p = "retx_payload cfg g x"
  note ps = retx_payload_spec [OF x(1) so g]
  obtain q' pe where b: "build_retx_pdu cfg g e =
      Inr (amtx_data_pdu cfg (fst pe) (retx_si x (?p = retx_length x)) (retx_sn x)
         (ucast (retx_so x)) (take (unat ?p) (drop (unat (retx_so x)) (ti_sdu i))), snd pe)"
    and pe: "pe = get_polling_bit cfg (retx_sn x) True 0 (e\<lparr>retx_queue := q'\<rparr>)"
    and q': "rq_queue q' = (if ?p = retx_length x then xs else retx_remainder ?p x # xs)"
    using build_retx_front [OF q look i x g] by blast
  have "?p \<noteq> retx_length x \<Longrightarrow> unat ?p < unat (retx_length x)"
    using ps(2) by (metis le_neq_implies_less word_unat_eq_iff)
  then have "?p \<noteq> retx_length x \<Longrightarrow> tx_retx_ok (tx_look cfg (tx_window e)) (retx_remainder ?p x)"
    using look ps(4,5) x(2) by (auto simp: tx_retx_ok_def retx_remainder_def word_less_nat_alt)
  with retx q(1) q' have "\<forall>y \<in> set (rq_queue q'). tx_retx_ok (tx_look cfg (tx_window e)) y"
    by (auto split: if_splits)
  then have "amtx_inv cfg (snd pe)" using tx_inv_keep [OF inv] by (simp add: pe amtx_inv_polling)
  moreover have "carries_part cfg False (snd pe) (amtx_data_pdu cfg (fst pe) (retx_si x (?p = retx_length x))
      (retx_sn x) (ucast (retx_so x)) (take (unat ?p) (drop (unat (retx_so x)) (ti_sdu i)))) (retx_sn x)
      (unat (retx_so x)) (unat ?p)"
    unfolding carries_part_def using look ps x \<open>_ \<Longrightarrow> unat ?p < _\<close> polling_bit_less retx_si_spec [of x]
    by (intro exI [of _ "fst pe"] exI [of _ "retx_si x (?p = retx_length x)"] exI [of _ i])
      (auto simp: pe unat_eq_zero)
  moreover have "length (amtx_data_pdu cfg (fst pe) (retx_si x (?p = retx_length x)) (retx_sn x)
      (ucast (retx_so x)) (take (unat ?p) (drop (unat (retx_so x)) (ti_sdu i)))) \<le> unat g"
    using ps(3) expected_hdr_len [of x cfg "fst pe"] so by (auto simp: length_data_pdu)
  ultimately show ?thesis using b ne by (auto simp: tx_pulled_def tx_same_def pe)
qed

lemma build_retx_ok:
  assumes inv: "amtx_inv cfg e" and ne: "rq_queue (retx_queue e) \<noteq> []"
  shows "\<exists>pdu e'. build_retx_pdu cfg g e = Inr (pdu, e') \<and> tx_pulled cfg g e pdu e'"
proof -
  define q where "q = drop_missing_retx (txam_size cfg) (tx_window e) (retx_queue e)"
  note inv' = inv [unfolded amtx_inv_def]
  have sub: "set (rq_queue q) \<subseteq> set (rq_queue (retx_queue e))"
    and hd: "case rq_queue q of [] \<Rightarrow> True | x # _ \<Rightarrow> tx_look cfg (tx_window e) (retx_sn x) \<noteq> None"
    using drop_missing_spec [of "txam_size cfg" "tx_window e" "retx_queue e"] by (simp_all add: q_def)
  have retx: "\<forall>x \<in> set (rq_queue q). tx_retx_ok (tx_look cfg (tx_window e)) x"
    using inv' sub unfolding tx_inv_def by blast
  show ?thesis
  proof (cases "rq_queue q")
    case Nil
    then have "build_retx_pdu cfg g e = Inr ([], e\<lparr>retx_queue := q\<rparr>)"
      by (simp add: build_retx_pdu_def retx_empty_def flip: q_def)
    then show ?thesis using tx_pulled_nothing [OF tx_inv_keep [OF inv retx], of e] by (auto simp: tx_same_def)
  next
    case (Cons x xs)
    with hd obtain i where look: "tx_look cfg (tx_window e) (retx_sn x) = Some i" by auto
    have i: "tx_info_ok i" using inv' look unfolding tx_inv_def by blast
    have x: "0 < retx_length x" "unat (retx_so x) + unat (retx_length x) \<le> length (ti_sdu i)"
      using retx Cons look by (auto simp: tx_retx_ok_def)
    then have "unat (retx_so x + retx_length x) = unat (retx_so x) + unat (retx_length x)"
      using i by (intro unat_add_fits) (simp add: tx_info_ok_def)
    with x have inside: "\<not> unat (retx_so x + retx_length x) > length (ti_sdu i)" by simp
    show ?thesis
    proof (cases "g \<le> get_retx_expected_hdr_len cfg x")
      case True
      with Cons look inside have "build_retx_pdu cfg g e = Inr ([], e\<lparr>retx_queue := q\<rparr>)"
        by (simp add: build_retx_pdu_def retx_empty_def retx_front_def win_get_look flip: q_def)
      then show ?thesis using tx_pulled_nothing [OF tx_inv_keep [OF inv retx], of e] by (auto simp: tx_same_def)
    next
      case False
      then have g: "get_retx_expected_hdr_len cfg x < g" by simp
      from inv ne Cons q_def retx look i x g show ?thesis by (rule build_retx_sent)
    qed
  qed
qed

lemma pull_data_ok:
  assumes inv: "amtx_inv cfg e"
  shows "\<exists>pdu evs e'. amtx_pull_data cfg g e = Inr (pdu, evs, e') \<and> tx_pulled cfg g e pdu e'"
proof (cases "rq_queue (retx_queue e) = []")
  case False
  with build_retx_ok [OF inv this, of g] show ?thesis by (auto simp: amtx_pull_data_def retx_empty_def)
next
  case retx: True
  show ?thesis
  proof (cases "sn_under_segmentation e = INVALID_RLC_SN")
    case True
    then have same: "e\<lparr>sn_under_segmentation := INVALID_RLC_SN\<rparr> = e" by simp
    show ?thesis
      using retx True build_new_ok [OF inv retx True, of g] tx_pulled_nothing [OF inv refl tx_same_refl, of g]
      by (auto simp: amtx_pull_data_def retx_empty_def Let_def same)
  next
    case False
    then have "win_has_sn (txam_size cfg) (tx_window e) (sn_under_segmentation e)"
      using inv by (auto simp: amtx_inv_def tx_inv_def win_has_look)
    with False retx build_continued_ok [OF inv retx False, of g] show ?thesis
      by (auto simp: amtx_pull_data_def retx_empty_def)
  qed
qed

section \<open>NACKs\<close>

lemma nack_offsets_spec:
  assumes "0 < len" "len \<le> 65535" "nack_offsets (of_nat len) nack = (a, z)"
  shows "unat a \<le> unat z" "unat z < len"
    and "has_so nack \<Longrightarrow> unat (so_start nack) \<le> unat (so_end nack) \<Longrightarrow> unat (so_end nack) < len \<Longrightarrow>
      a = so_start nack \<and> z = so_end nack"
    and "has_so nack \<Longrightarrow> unat (so_start nack) < len \<Longrightarrow> so_end nack = so_end_of_sdu \<Longrightarrow>
      a = so_start nack \<and> unat z = len - 1"
    and "\<not> has_so nack \<Longrightarrow> a = 0 \<and> unat z = len - 1"
proof -
  have l: "unat (of_nat len :: u32) = len" using assms(2) by (simp add: unat_of_nat)
  have m: "unat (ucast (of_nat len - 1 :: u32) :: u16) = len - 1"
  proof -
    have "unat (of_nat len - 1 :: u32) = len - 1"
      using l assms(1) by (subst unat_minus_one) (auto simp: word_unat_eq_iff)
    then show ?thesis using assms(2) by (simp add: unat_ucast_mod)
  qed
  have c: "(ucast x :: u32) \<ge> of_nat len \<longleftrightarrow> len \<le> unat x" for x :: u16
    using l by (simp add: word_le_nat_alt)
  have e: "unat so_end_of_sdu = 65535" by (simp add: so_end_of_sdu_def)
  note ds = nack_offsets_def Let_def c word_less_nat_alt [where 'a = 16] word_unat_eq_iff [where 'a = 16] m e
  show "unat a \<le> unat z" "unat z < len"
    using assms(1,3) m by (auto simp: ds split: if_splits)
  show "has_so nack \<Longrightarrow> unat (so_start nack) \<le> unat (so_end nack) \<Longrightarrow> unat (so_end nack) < len \<Longrightarrow>
      a = so_start nack \<and> z = so_end nack"
    using assms(2,3) by (auto simp: ds split: if_splits)
  show "has_so nack \<Longrightarrow> unat (so_start nack) < len \<Longrightarrow> so_end nack = so_end_of_sdu \<Longrightarrow>
      a = so_start nack \<and> unat z = len - 1"
    using assms by (auto simp: ds split: if_splits)
  show "\<not> has_so nack \<Longrightarrow> a = 0 \<and> unat z = len - 1"
    using assms by (auto simp: ds split: if_splits)
qed

text \<open>Only the retransmission queue differs.\<close>

definition tx_frame :: "rlc_tx_am_entity \<Rightarrow> rlc_tx_am_entity \<Rightarrow> bool" where
  "tx_frame e e' \<longleftrightarrow>
    amtx_st e' = amtx_st e \<and> amtx_sdu_queue e' = amtx_sdu_queue e \<and>
    sn_under_segmentation e' = sn_under_segmentation e \<and> tx_window e' = tx_window e"

text \<open>An SN whose NACK finds its SDU in the window.\<close>

definition nack_known :: "rlc_tx_am_config \<Rightarrow> rlc_tx_am_entity \<Rightarrow> u32 \<Rightarrow> bool" where
  "nack_known cfg e sn \<longleftrightarrow>
    sn < amtx_mod cfg \<and> (sn = tx_next (amtx_st e) \<longrightarrow> sn_under_segmentation e \<noteq> INVALID_RLC_SN)"

lemma nack_known_frame: "tx_frame e e' \<Longrightarrow> nack_known cfg e' sn = nack_known cfg e sn"
  by (simp add: tx_frame_def nack_known_def)

lemma amtx_inv_info: "amtx_inv cfg e \<Longrightarrow> tx_look cfg (tx_window e) sn = Some i \<Longrightarrow> tx_info_ok i"
  unfolding amtx_inv_def tx_inv_def by blast

lemma nack_known_look:
  assumes "amtx_inv cfg e" "nack_known cfg e sn"
    "tx_off cfg (tx_next_ack (amtx_st e)) sn \<le> tx_off cfg (tx_next_ack (amtx_st e)) (tx_next (amtx_st e))"
  shows "\<exists>i. tx_look cfg (tx_window e) sn = Some i \<and> tx_info_ok i"
proof -
  let ?b = "tx_next_ack (amtx_st e)" and ?n = "tx_next (amtx_st e)"
  have n: "?n < amtx_mod cfg" using assms(1) by (simp add: amtx_inv_def tx_inv_def)
  have "sn \<in> dom (tx_look cfg (tx_window e))"
  proof (cases "sn = ?n")
    case False
    then have "tx_off cfg ?b sn \<noteq> tx_off cfg ?b ?n"
      using txsn.off_eq_iff [of sn cfg ?n ?b] assms(2) n by (simp add: nack_known_def)
    then have "sn \<in> sns_below (amtx_mod cfg) ?b ?n"
      using assms(2,3) by (simp add: sns_below_def nack_known_def)
    then show ?thesis using assms(1) by (simp add: amtx_inv_def tx_inv_def)
  qed (use assms(1,2) in \<open>simp add: amtx_inv_def tx_inv_def nack_known_def\<close>)
  then show ?thesis using amtx_inv_info [OF assms(1)] by blast
qed

lemma handle_nack_ok:
  assumes inv: "amtx_inv cfg e" and known: "nack_known cfg e (nack_sn nack)"
  shows "\<exists>queued e'. handle_nack cfg nack e = Inr (queued, e') \<and> amtx_inv cfg e' \<and> tx_frame e e' \<and>
    (queued \<longrightarrow> nack_sn nack \<in> dom (tx_look cfg (tx_window e)))"
proof (cases "has_nack_range nack \<or> \<not> tx_mod_base cfg e (nack_sn nack) \<le> tx_mod_base cfg e (tx_next (amtx_st e))")
  case True
  then have "handle_nack cfg nack e = Inr (False, e)" by (auto simp: handle_nack_def)
  with inv show ?thesis by (intro exI [of _ False] exI [of _ e]) (simp add: tx_frame_def)
next
  case False
  have zero: "tx_mod_base cfg e (tx_next_ack (amtx_st e)) \<le> x" for x by (simp add: tx_mod_base_def)
  obtain i where look: "tx_look cfg (tx_window e) (nack_sn nack) = Some i" and i: "tx_info_ok i"
    using nack_known_look [OF inv known] False by (auto simp: tx_base_le)
  obtain a z where az: "nack_offsets (of_nat (length (ti_sdu i))) nack = (a, z)"
    by (cases "nack_offsets (of_nat (length (ti_sdu i))) nack")
  note spec = nack_offsets_spec [OF _ _ az]
  have le: "unat a \<le> unat z" "unat z < length (ti_sdu i)" using spec(1,2) i by (auto simp: tx_info_ok_def)
  define x where "x = \<lparr>retx_sn = nack_sn nack, retx_so = ucast a, retx_length = ucast z - ucast a + 1\<rparr>"
  have "unat (ucast z - ucast a :: u32) = unat z - unat a" using le by (simp add: unat_sub word_le_nat_alt)
  then have rl: "unat (retx_length x) = unat z - unat a + 1"
    using le i unat_add_fits [of "ucast z - ucast a" 1] by (auto simp: x_def tx_info_ok_def)
  then have "0 < retx_length x" by (simp add: word_less_nat_alt del: unat_gt_0)
  moreover have "retx_sn x = nack_sn nack" "unat (retx_so x) = unat a" by (simp_all add: x_def)
  ultimately have ok: "tx_retx_ok (tx_look cfg (tx_window e)) x"
    using look le rl by (simp add: tx_retx_ok_def)
  have "amtx_inv cfg (e\<lparr>retx_queue := retx_push x (retx_queue e)\<rparr>)"
    using tx_inv_keep [OF inv, of "retx_push x (retx_queue e)"] inv ok
    by (auto simp: retx_push_def amtx_inv_def tx_inv_def)
  with False look az inv show ?thesis
    by (auto simp: handle_nack_def zero win_get_look Let_def tx_frame_def simp flip: x_def)
qed

text \<open>NACKs processed one after the other, collecting the SNs queued.\<close>

definition nacks_done :: "rlc_tx_am_config \<Rightarrow> rlc_tx_am_entity \<Rightarrow> (u32 list \<times> rlc_tx_am_entity) res \<Rightarrow> bool" where
  "nacks_done cfg e r \<longleftrightarrow>
    (\<exists>sns e'. r = Inr (sns, e') \<and> amtx_inv cfg e' \<and> tx_frame e e' \<and>
      set sns \<subseteq> dom (tx_look cfg (tx_window e)))"

lemma tx_frame_refl [simp]: "tx_frame e e"
  by (simp add: tx_frame_def)

lemma nacks_done_trans:
  "tx_frame e e1 \<Longrightarrow> nacks_done cfg e1 r \<Longrightarrow> nacks_done cfg e r"
  by (auto simp: nacks_done_def tx_frame_def)

lemma handle_nack_into_ok:
  assumes "amtx_inv cfg e" "nack_known cfg e (nack_sn nack)" "set sns \<subseteq> dom (tx_look cfg (tx_window e))"
  shows "nacks_done cfg e (handle_nack_into cfg nack sns e)"
proof -
  obtain queued e' where h: "handle_nack cfg nack e = Inr (queued, e')" "amtx_inv cfg e'" "tx_frame e e'"
    "queued \<longrightarrow> nack_sn nack \<in> dom (tx_look cfg (tx_window e))"
    using handle_nack_ok [OF assms(1,2)] by blast
  then have "set (if queued then insort_insert (nack_sn nack) sns else sns) \<subseteq> dom (tx_look cfg (tx_window e))"
    using assms(3) by (cases queued) (simp_all add: set_insort_insert)
  with h show ?thesis unfolding nacks_done_def handle_nack_into_def by simp
qed

lemma range_nack_sn [simp]: "nack_sn (range_nack cfg r sn) = sn"
  by (simp add: range_nack_def Let_def)

lemma range_loop_ok:
  assumes "amtx_inv cfg e" "set sns \<subseteq> dom (tx_look cfg (tx_window e))" "j \<le> unat (nack_range r)"
    and "\<And>k. j \<le> k \<Longrightarrow> k < unat (nack_range r) \<Longrightarrow> nack_known cfg e ((nack_sn r + of_nat k) mod amtx_mod cfg)"
  shows "nacks_done cfg e (range_loop cfg ack_sn r ((nack_sn r + of_nat j) mod amtx_mod cfg) sns e)"
  using assms
proof (induction "unat (nack_range r) - j" arbitrary: j sns e)
  case 0
  then have "j = unat (nack_range r)" by simp
  then have "of_nat j = (ucast (nack_range r) :: u32)" by simp
  with 0(2,3) show ?case by (simp add: range_loop.simps nacks_done_def)
next
  case (Suc m)
  let ?sn = "(nack_sn r + of_nat j) mod amtx_mod cfg"
  have known: "nack_known cfg e ?sn" using Suc.prems(4) [of j] Suc.hyps(2) by simp
  show ?case
  proof (cases "?sn = (nack_sn r + ucast (nack_range r)) mod amtx_mod cfg \<or> ?sn = ack_sn")
    case True
    with Suc.prems(1,2) show ?thesis by (auto simp: range_loop.simps [of _ _ _ ?sn] nacks_done_def)
  next
    case False
    obtain sns1 e1 where h: "handle_nack_into cfg (range_nack cfg r ?sn) sns e = Inr (sns1, e1)"
      "amtx_inv cfg e1" "tx_frame e e1" "set sns1 \<subseteq> dom (tx_look cfg (tx_window e))"
      using handle_nack_into_ok [of cfg e "range_nack cfg r ?sn" sns] Suc.prems(1,2) known
      by (auto simp: nacks_done_def)
    have step: "(?sn + 1) mod amtx_mod cfg = (nack_sn r + of_nat (Suc j)) mod amtx_mod cfg"
      using txsn.mod_add_mod [of "nack_sn r + of_nat j" cfg 1] by (simp add: algebra_simps)
    have "nacks_done cfg e1 (range_loop cfg ack_sn r ((nack_sn r + of_nat (Suc j)) mod amtx_mod cfg) sns1 e1)"
    proof (rule Suc.hyps(1))
      show "m = unat (nack_range r) - Suc j" "Suc j \<le> unat (nack_range r)" using Suc.hyps(2) by simp_all
      show "nack_known cfg e1 ((nack_sn r + of_nat k) mod amtx_mod cfg)" if "Suc j \<le> k" "k < unat (nack_range r)" for k
        using Suc.prems(4) [of k] that nack_known_frame [OF h(3)] by simp
    qed (use h in \<open>simp_all add: tx_frame_def\<close>)
    with False h(1) nacks_done_trans [OF h(3)] show ?thesis
      by (simp add: range_loop.simps [of _ _ _ ?sn] step del: of_nat_Suc)
  qed
qed

text \<open>Every SN a NACK stands for is known.\<close>

definition nack_sns_known :: "rlc_tx_am_config \<Rightarrow> rlc_tx_am_entity \<Rightarrow> rlc_am_status_nack \<Rightarrow> bool" where
  "nack_sns_known cfg e nack \<longleftrightarrow>
    nack_sn nack < amtx_mod cfg \<and> (\<not> has_nack_range nack \<longrightarrow> nack_known cfg e (nack_sn nack)) \<and>
    (has_nack_range nack \<longrightarrow>
      (\<forall>k < unat (nack_range nack). nack_known cfg e ((nack_sn nack + of_nat k) mod amtx_mod cfg)))"

lemma nacks_loop_ok:
  assumes "amtx_inv cfg e" "set sns \<subseteq> dom (tx_look cfg (tx_window e))" "\<forall>nack \<in> set nacks. nack_sns_known cfg e nack"
  shows "nacks_done cfg e (nacks_loop cfg ack_sn nacks sns e)"
  using assms
proof (induction nacks arbitrary: sns e)
  case Nil
  then show ?case by (simp add: nacks_done_def)
next
  case (Cons nack nacks)
  let ?r = "if has_nack_range nack then range_loop cfg ack_sn nack (nack_sn nack) sns e
    else handle_nack_into cfg nack sns e"
  have known: "nack_sns_known cfg e nack" using Cons.prems(3) by simp
  then have sn: "nack_sn nack mod amtx_mod cfg = nack_sn nack"
    by (simp add: nack_sns_known_def word_unat_eq_iff unat_mod word_less_nat_alt)
  have "nacks_done cfg e ?r"
    using range_loop_ok [of cfg e sns 0 nack ack_sn] handle_nack_into_ok [of cfg e nack sns] known Cons.prems(1,2) sn
    by (simp add: nack_sns_known_def)
  then obtain sns1 e1 where h: "?r = Inr (sns1, e1)" "amtx_inv cfg e1" "tx_frame e e1"
    "set sns1 \<subseteq> dom (tx_look cfg (tx_window e))"
    unfolding nacks_done_def by blast
  have "\<forall>nack \<in> set nacks. nack_sns_known cfg e1 nack"
    using Cons.prems(3) nack_known_frame [OF h(3)] by (simp add: nack_sns_known_def)
  with Cons.IH [OF h(2)] h have "nacks_done cfg e1 (nacks_loop cfg ack_sn nacks sns1 e1)" by (simp add: tx_frame_def)
  with h(1) nacks_done_trans [OF h(3)] show ?case by simp
qed

section \<open>Acknowledgements\<close>

lemma tx_inv_ack:
  assumes inv: "tx_inv cfg b n q seg xs w" and b: "b \<noteq> n" and sub: "set ys \<subseteq> set xs"
    and look: "tx_look cfg w' = (tx_look cfg w)(b := None)" and ok: "win_ok (txam_size cfg) b w'"
  shows "tx_inv cfg ((b + 1) mod amtx_mod cfg) n q seg ys w'"
proof -
  let ?b = "(b + 1) mod amtx_mod cfg"
  have bn: "b < amtx_mod cfg" "n < amtx_mod cfg" and le: "tx_off cfg b n \<le> tx_W cfg"
    using inv by (simp_all add: tx_inv_def)
  have one: "tx_off cfg b ?b = 1"
    using txsn.md_double [of cfg] tx_mod_less [of cfg] by (simp add: txsn.off_succ)
  have "win_ok (txam_size cfg) ?b w'"
  proof (rule win_ok_advance [OF ok], intro ballI)
    fix sn
    assume "sn \<in> dom (tx_look cfg w')"
    then have "sn \<noteq> b" "sn < amtx_mod cfg"
      using win_ok_look [OF ok] by (auto simp: look)
    then show "sn_off (am_mod (txam_size cfg)) b ?b \<le> sn_off (am_mod (txam_size cfg)) b sn"
      using txsn.off_advance(2) [OF bn(1), of sn] one by (simp add: amtx_mod_def [symmetric])
  qed
  moreover have "dom (tx_look cfg w') =
      sns_below (amtx_mod cfg) ?b n \<union> (if seg = INVALID_RLC_SN then {} else {n})"
  proof -
    have "dom (tx_look cfg w) = sns_below (amtx_mod cfg) b n \<union> (if seg = INVALID_RLC_SN then {} else {n})"
      using inv by (simp add: tx_inv_def)
    then show ?thesis using txsn.below_advance [OF bn b [symmetric]] b by (auto simp: look)
  qed
  moreover have "\<forall>x \<in> set ys. tx_retx_ok (tx_look cfg w') x"
    using inv sub unfolding tx_inv_def by (auto simp: tx_retx_ok_def look)
  moreover have "tx_off cfg ?b n \<le> tx_W cfg"
    using txsn.off_advance [OF bn(1,2)] b le by simp
  moreover have "\<forall>sn i. tx_look cfg w' sn = Some i \<longrightarrow> tx_info_ok i"
    using inv unfolding tx_inv_def by (auto simp: look)
  moreover have "seg \<noteq> INVALID_RLC_SN \<longrightarrow> seg = n \<and> (\<exists>i. tx_look cfg w' n = Some i \<and> 0 < ti_next_so i \<and>
      unat (ti_next_so i) < length (ti_sdu i))"
  proof -
    have n: "tx_look cfg w' n = tx_look cfg w n" using b by (simp add: look)
    show ?thesis using inv unfolding tx_inv_def n by blast
  qed
  moreover have "sdu_queue_inv q" using inv by (simp add: tx_inv_def)
  ultimately show ?thesis
    using bn txsn.less_md_iff [of "b + 1" cfg] unfolding tx_inv_def by blast
qed

lemma remove_sn_subset: "set (rq_queue (snd (retx_remove_sn sn q))) \<subseteq> set (rq_queue q)"
proof -
  have "set (takeWhile P xs @ tl (dropWhile P xs)) \<subseteq> set xs" for P and xs :: "rlc_tx_amd_retx list"
    by (induction xs) auto
  then show ?thesis unfolding remove_queue by blast
qed

lemma ack_loop_ok:
  assumes "amtx_inv cfg e" "stop_sn < amtx_mod cfg"
    and "tx_off cfg (tx_next_ack (amtx_st e)) stop_sn \<le> tx_off cfg (tx_next_ack (amtx_st e)) (tx_next (amtx_st e))"
  shows "\<exists>d' e'. ack_loop cfg stop_sn (tx_next_ack (amtx_st e)) d e = Inr (d', e') \<and> amtx_inv cfg e' \<and>
    amtx_st e' = (amtx_st e)\<lparr>tx_next_ack := stop_sn\<rparr> \<and>
    amtx_sdu_queue e' = amtx_sdu_queue e \<and> sn_under_segmentation e' = sn_under_segmentation e \<and>
    tx_look cfg (tx_window e') =
      (\<lambda>sn. if sn \<in> sns_below (amtx_mod cfg) (tx_next_ack (amtx_st e)) stop_sn then None
            else tx_look cfg (tx_window e) sn)"
  using assms
proof (induction "tx_off cfg (tx_next_ack (amtx_st e)) stop_sn" arbitrary: d e)
  case 0
  have "tx_next_ack (amtx_st e) < amtx_mod cfg" using 0(2) by (simp add: amtx_inv_def tx_inv_def)
  then have "stop_sn = tx_next_ack (amtx_st e)"
    using 0(1,3) txsn.off_zero_iff [of stop_sn cfg "tx_next_ack (amtx_st e)"] by simp
  moreover have "amtx_st e = (amtx_st e)\<lparr>tx_next_ack := tx_next_ack (amtx_st e)\<rparr>" by simp
  ultimately show ?case using 0(2) by (simp add: ack_loop.simps)
next
  case (Suc m)
  let ?b = "tx_next_ack (amtx_st e)" and ?n = "tx_next (amtx_st e)"
  let ?b' = "(?b + 1) mod amtx_mod cfg"
  have inv: "tx_inv cfg ?b ?n (amtx_sdu_queue e) (sn_under_segmentation e) (rq_queue (retx_queue e)) (tx_window e)"
    using Suc.prems(1) by (simp add: amtx_inv_def)
  then have b: "?b < amtx_mod cfg" "?n < amtx_mod cfg" and ok: "win_ok (txam_size cfg) ?b (tx_window e)"
    by (simp_all add: tx_inv_def)
  have ne: "?b \<noteq> stop_sn" "?b \<noteq> ?n" using Suc.hyps(2) Suc.prems(3) by auto
  have "?b \<in> sns_below (amtx_mod cfg) ?b ?n" using b Suc.hyps(2) Suc.prems(3) by (simp add: sns_below_def)
  then obtain i where look: "tx_look cfg (tx_window e) ?b = Some i" using inv unfolding tx_inv_def by blast
  obtain w' where w': "win_remove_sn (txam_size cfg) ?b (tx_window e) = Inr w'"
    "tx_look cfg w' = (tx_look cfg (tx_window e))(?b := None)" "win_ok (txam_size cfg) ?b w'"
    using win_remove_ok [OF ok look] by blast
  define e1 where "e1 = e\<lparr>retx_queue := snd (retx_remove_sn ?b (retx_queue e)), tx_window := w',
     amtx_st := (amtx_st e)\<lparr>tx_next_ack := ?b'\<rparr>\<rparr>"
  define d1 where "d1 = (if ti_pdcp_sn i \<noteq> None then ti_pdcp_sn i else d)"
  have e1: "tx_next_ack (amtx_st e1) = ?b'" "tx_next (amtx_st e1) = ?n" "amtx_sdu_queue e1 = amtx_sdu_queue e"
    "sn_under_segmentation e1 = sn_under_segmentation e" "tx_window e1 = w'"
    by (simp_all add: e1_def)
  have step: "ack_loop cfg stop_sn ?b d e = ack_loop cfg stop_sn ?b' d1 e1"
    using Suc.hyps(2) look w'(1)
    by (subst ack_loop.simps) (simp add: tx_base_less win_has_look win_get_look e1_def d1_def)
  have inv1: "amtx_inv cfg e1"
    using tx_inv_ack [OF inv ne(2) remove_sn_subset w'(2,3)] by (simp add: amtx_inv_def e1_def)
  have off: "tx_off cfg ?b' stop_sn = m" "tx_off cfg ?b' stop_sn \<le> tx_off cfg ?b' ?n"
    using txsn.off_advance(1) [OF b(1) Suc.prems(2)] txsn.off_advance(1) [OF b(1,2)] ne Suc.hyps(2) Suc.prems(3)
    by simp_all
  have "\<exists>d' e'. ack_loop cfg stop_sn (tx_next_ack (amtx_st e1)) d1 e1 = Inr (d', e') \<and> amtx_inv cfg e' \<and>
    amtx_st e' = (amtx_st e1)\<lparr>tx_next_ack := stop_sn\<rparr> \<and>
    amtx_sdu_queue e' = amtx_sdu_queue e1 \<and> sn_under_segmentation e' = sn_under_segmentation e1 \<and>
    tx_look cfg (tx_window e') =
      (\<lambda>sn. if sn \<in> sns_below (amtx_mod cfg) (tx_next_ack (amtx_st e1)) stop_sn then None
            else tx_look cfg (tx_window e1) sn)"
    by (rule Suc.hyps(1)) (use inv1 Suc.prems(2) off in \<open>simp_all add: e1\<close>)
  then obtain d' e' where r: "ack_loop cfg stop_sn ?b' d1 e1 = Inr (d', e')" "amtx_inv cfg e'"
    "amtx_st e' = (amtx_st e1)\<lparr>tx_next_ack := stop_sn\<rparr>" "amtx_sdu_queue e' = amtx_sdu_queue e"
    "sn_under_segmentation e' = sn_under_segmentation e"
    "tx_look cfg (tx_window e') = (\<lambda>sn. if sn \<in> sns_below (amtx_mod cfg) ?b' stop_sn then None else tx_look cfg w' sn)"
    unfolding e1 by blast
  have "tx_look cfg (tx_window e') =
      (\<lambda>sn. if sn \<in> sns_below (amtx_mod cfg) ?b stop_sn then None else tx_look cfg (tx_window e) sn)"
  proof
    fix sn
    have "?b \<in> sns_below (amtx_mod cfg) ?b stop_sn" using Suc.hyps(2) b(1) by (simp add: sns_below_def)
    moreover have "sns_below (amtx_mod cfg) ?b' stop_sn = sns_below (amtx_mod cfg) ?b stop_sn - {?b}"
      by (rule txsn.below_advance [OF b(1) Suc.prems(2) ne(1) [symmetric]])
    ultimately show "tx_look cfg (tx_window e') sn =
        (if sn \<in> sns_below (amtx_mod cfg) ?b stop_sn then None else tx_look cfg (tx_window e) sn)"
      unfolding r(6) w'(2) by (cases "sn = ?b") simp_all
  qed
  moreover have "ack_loop cfg stop_sn ?b d e = Inr (d', e')" using step r(1) by (rule trans)
  moreover have "amtx_st e' = (amtx_st e)\<lparr>tx_next_ack := stop_sn\<rparr>" using r(3) by (simp add: e1_def)
  ultimately show ?case using r(2,4,5) by blast
qed

section \<open>Status reports\<close>

text \<open>Changing the retransmission count of an SDU keeps the invariant.\<close>

lemma tx_inv_count:
  assumes inv: "tx_inv cfg b n q seg xs w" and old: "tx_look cfg w sn = Some i"
    and look: "tx_look cfg w' = (tx_look cfg w)(sn \<mapsto> i\<lparr>ti_retx_count := c\<rparr>)" and ok: "win_ok (txam_size cfg) b w'"
  shows "tx_inv cfg b n q seg xs w'"
proof -
  have "dom (tx_look cfg w') = dom (tx_look cfg w)" using old by (auto simp: look)
  moreover have "\<forall>x \<in> set xs. tx_retx_ok (tx_look cfg w') x"
    using inv old unfolding tx_inv_def by (auto simp: tx_retx_ok_def look split: option.splits)
  moreover have "\<forall>sn i. tx_look cfg w' sn = Some i \<longrightarrow> tx_info_ok i"
    using inv old unfolding tx_inv_def by (auto simp: look tx_info_ok_def)
  moreover have "seg \<noteq> INVALID_RLC_SN \<longrightarrow> seg = n \<and> (\<exists>i. tx_look cfg w' n = Some i \<and> 0 < ti_next_so i \<and>
      unat (ti_next_so i) < length (ti_sdu i))"
    using inv old unfolding tx_inv_def by (auto simp: look)
  ultimately show ?thesis using inv ok unfolding tx_inv_def by metis
qed

lemma retx_count_loop_ok:
  assumes "amtx_inv cfg e" "set sns \<subseteq> dom (tx_look cfg (tx_window e))"
  shows "\<exists>evs e'. retx_count_loop cfg sns e = Inr (evs, e') \<and> amtx_inv cfg e' \<and> tx_same cfg e e' \<and>
    amtx_st e' = amtx_st e \<and> sn_under_segmentation e' = sn_under_segmentation e \<and>
    amtx_sdu_queue e' = amtx_sdu_queue e"
  using assms
proof (induction sns arbitrary: e)
  case (Cons sn sns)
  then obtain i where look: "tx_look cfg (tx_window e) sn = Some i" by auto
  have ok: "win_ok (txam_size cfg) (tx_next_ack (amtx_st e)) (tx_window e)"
    using Cons.prems(1) by (simp add: amtx_inv_def tx_inv_def)
  let ?i = "i\<lparr>ti_retx_count := (if ti_retx_count i = RETX_COUNT_NOT_STARTED then 0 else ti_retx_count i + 1)\<rparr>"
  obtain w' where w': "win_set (txam_size cfg) sn ?i (tx_window e) = Inr w'"
    "tx_look cfg w' = (tx_look cfg (tx_window e))(sn \<mapsto> ?i)" "win_ok (txam_size cfg) (tx_next_ack (amtx_st e)) w'"
    using win_set_ok [OF ok look] by blast
  let ?e = "e\<lparr>tx_window := w'\<rparr>"
  have inv: "amtx_inv cfg ?e"
    using tx_inv_count [OF Cons.prems(1) [unfolded amtx_inv_def] look w'(2,3)] by (simp add: amtx_inv_def)
  have same: "tx_same cfg e ?e"
    using tx_sdus_upd [OF w'(2)] look by (auto simp: tx_same_def tx_sdus_def)
  obtain evs where evs: "check_sn_reached_max_retx cfg sn ?e = Inr evs"
    using w'(2) by (simp add: check_sn_reached_max_retx_def win_get_look)
  have "set sns \<subseteq> dom (tx_look cfg (tx_window ?e))" using Cons.prems(2) by (auto simp: w'(2))
  then obtain evs' e' where e': "retx_count_loop cfg sns ?e = Inr (evs', e')" "amtx_inv cfg e'" "tx_same cfg ?e e'"
    "amtx_st e' = amtx_st e" "sn_under_segmentation e' = sn_under_segmentation e"
    "amtx_sdu_queue e' = amtx_sdu_queue e"
    using Cons.IH [OF inv] by auto
  then have "tx_same cfg e e'" using same by (simp add: tx_same_def)
  with e' look w'(1) evs show ?case by (simp add: win_get_look Let_def)
qed simp

lemma update_state_frame:
  "amtx_st (snd (amtx_update_mac_buffer_state cfg r e)) = amtx_st e"
  "amtx_sdu_queue (snd (amtx_update_mac_buffer_state cfg r e)) = amtx_sdu_queue e"
  "sn_under_segmentation (snd (amtx_update_mac_buffer_state cfg r e)) = sn_under_segmentation e"
  "retx_queue (snd (amtx_update_mac_buffer_state cfg r e)) = retx_queue e"
  "tx_window (snd (amtx_update_mac_buffer_state cfg r e)) = tx_window e"
  by (simp_all add: amtx_update_mac_buffer_state_def Let_def)

lemma update_state_inv: "amtx_inv cfg (snd (amtx_update_mac_buffer_state cfg r e)) = amtx_inv cfg e"
  by (simp add: amtx_inv_def update_state_frame)

text \<open>
  The peer reports on what was sent only: ACK_SN is at most TX_Next, or one more with a NACK while the
  SDU with SN TX_Next is under segmentation.  SNs have the configured width, as \<open>unpack\<close> ensures.
\<close>

definition status_known :: "rlc_tx_am_config \<Rightarrow> rlc_am_status_pdu \<Rightarrow> rlc_tx_am_entity \<Rightarrow> bool" where
  "status_known cfg status e \<longleftrightarrow>
    sp_ack_sn status < amtx_mod cfg \<and> list_all (\<lambda>nack. nack_sn nack < amtx_mod cfg) (sp_nacks status) \<and>
    (tx_mod_base cfg e (sp_ack_sn status) \<le> tx_mod_base cfg e (tx_next (amtx_st e)) \<or>
     sn_under_segmentation e \<noteq> INVALID_RLC_SN \<and> sp_nacks status \<noteq> [])"

lemma tx_W_large: "256 \<le> tx_W cfg"
  by (cases "txam_size cfg") (simp_all add: amtx_window_size_def)

lemma valid_nack_known:
  assumes inv: "amtx_inv cfg e" and v: "valid_nack cfg e ack nack" and ack: "valid_ack_sn cfg e ack"
    and sn: "nack_sn nack < amtx_mod cfg"
    and le: "sn_under_segmentation e = INVALID_RLC_SN \<Longrightarrow>
      tx_mod_base cfg e ack \<le> tx_mod_base cfg e (tx_next (amtx_st e))"
  shows "nack_sns_known cfg e nack"
proof (cases "sn_under_segmentation e = INVALID_RLC_SN")
  case False
  then show ?thesis
    using sn txsn.less_md_iff by (simp add: nack_sns_known_def nack_known_def)
next
  case seg: True
  let ?o = "tx_off cfg (tx_next_ack (amtx_st e))" and ?n = "tx_next (amtx_st e)"
  have a: "?o (nack_sn nack) < ?o ack" "?o ack \<le> ?o ?n" "?o ack \<le> tx_W cfg"
    using v le [OF seg] ack
    by (auto simp: valid_nack_def valid_ack_sn_def tx_base_le Let_def not_le tx_base_less word_le_nat_alt tx_base_off
        split: if_splits)
  have known: "nack_known cfg e (nack_sn nack)" using a sn by (auto simp: nack_known_def)
  have "nack_known cfg e ((nack_sn nack + of_nat k) mod amtx_mod cfg)"
    if r: "has_nack_range nack" and k: "k < unat (nack_range nack)" for k
  proof -
    have range: "unat (nack_range nack) < 256" using unsigned_less [of "nack_range nack", where 'a = nat] by simp
    have off: "?o (nack_sn nack + of_nat j) = ?o (nack_sn nack) + j" if "j < 256" for j
    proof -
      have "?o (nack_sn nack) + j < unat (amtx_mod cfg)" using a that tx_W_large [of cfg] txsn.md_double [of cfg] by simp
      then show ?thesis using that by (simp add: txsn.off_add unat_of_nat)
    qed
    have last: "nack_sn nack + ucast (nack_range nack) - 1 = nack_sn nack + of_nat (unat (nack_range nack) - 1)"
      using k by (simp add: of_nat_diff algebra_simps)
    have "?o (nack_sn nack + ucast (nack_range nack) - 1) < ?o ack"
      using v r by (auto simp: valid_nack_def Let_def tx_base_le split: if_splits)
    then have "?o (nack_sn nack) + (unat (nack_range nack) - 1) < ?o ack"
      unfolding last using range by (subst (asm) off) simp_all
    then have "?o ((nack_sn nack + of_nat k) mod amtx_mod cfg) < ?o ?n"
      using k range a by (simp add: txsn.off_mod off)
    then show ?thesis using txsn.less_md_iff [of "nack_sn nack + of_nat k" cfg] by (auto simp: nack_known_def)
  qed
  with known sn show ?thesis by (simp add: nack_sns_known_def)
qed

text \<open>The SDUs below the new TX_Next_Ack leave the window, all others and the SDU queue stay.\<close>

definition tx_acked :: "rlc_tx_am_config \<Rightarrow> rlc_tx_am_entity \<Rightarrow> rlc_tx_am_entity \<Rightarrow> bool" where
  "tx_acked cfg e e' \<longleftrightarrow>
    amtx_sdu_queue e' = amtx_sdu_queue e \<and> tx_next (amtx_st e') = tx_next (amtx_st e) \<and>
    sn_under_segmentation e' = sn_under_segmentation e \<and>
    tx_mod_base cfg e (tx_next_ack (amtx_st e')) \<le> tx_mod_base cfg e (tx_next (amtx_st e)) \<and>
    tx_sdus cfg (tx_window e') =
      (\<lambda>sn. if sn \<in> sns_below (amtx_mod cfg) (tx_next_ack (amtx_st e)) (tx_next_ack (amtx_st e')) then None
            else tx_sdus cfg (tx_window e) sn)"

lemma tx_acked_refl [simp]: "tx_acked cfg e e"
  by (simp add: tx_acked_def tx_mod_base_def)

lemma stop_timer_frame [simp]:
  "amtx_st (stop_poll_timer cfg a e) = amtx_st e" "amtx_sdu_queue (stop_poll_timer cfg a e) = amtx_sdu_queue e"
  "sn_under_segmentation (stop_poll_timer cfg a e) = sn_under_segmentation e"
  "retx_queue (stop_poll_timer cfg a e) = retx_queue e" "tx_window (stop_poll_timer cfg a e) = tx_window e"
  by (simp_all add: stop_poll_timer_def)

text \<open>The report passes the checks: where the ACK loop stops and what the NACKs refer to.\<close>

lemma status_stop:
  assumes inv: "amtx_inv cfg e" and known: "status_known cfg status e"
    and v: "valid_ack_sn cfg e (sp_ack_sn status)" "list_all (valid_nack cfg e (sp_ack_sn status)) (sp_nacks status)"
    and le: "\<not> tx_mod_base cfg e (sp_ack_sn status) > tx_mod_base cfg e (tx_next (amtx_st e) + 1)"
    and stop: "stop = (case sp_nacks status of [] \<Rightarrow> sp_ack_sn status | nack # _ \<Rightarrow> nack_sn nack)"
  shows "stop < amtx_mod cfg"
    "tx_off cfg (tx_next_ack (amtx_st e)) stop \<le> tx_off cfg (tx_next_ack (amtx_st e)) (tx_next (amtx_st e))"
    "\<forall>nack \<in> set (sp_nacks status). nack_sns_known cfg e nack"
proof -
  let ?o = "tx_off cfg (tx_next_ack (amtx_st e))" and ?n = "tx_next (amtx_st e)" and ?a = "sp_ack_sn status"
  have "?o ?n \<le> tx_W cfg" using inv by (simp add: amtx_inv_def tx_inv_def)
  then have "?o (?n + 1) = Suc (?o ?n)"
    using tx_W_large [of cfg] txsn.md_double [of cfg] by (simp add: txsn.off_add)
  with le have le1: "?o ?a \<le> Suc (?o ?n)" by (simp add: not_less tx_base_le)
  show "stop < amtx_mod cfg" using known stop by (cases "sp_nacks status") (simp_all add: status_known_def)
  show "?o stop \<le> ?o ?n"
  proof (cases "sp_nacks status")
    case Nil
    with known stop show ?thesis by (simp add: status_known_def tx_base_le)
  next
    case (Cons nack nacks)
    with v(2) have "?o (nack_sn nack) < ?o ?a"
      by (auto simp: valid_nack_def Let_def tx_base_le split: if_splits)
    with Cons stop le1 show ?thesis by simp
  qed
  show "\<forall>nack \<in> set (sp_nacks status). nack_sns_known cfg e nack"
  proof
    fix nack
    assume n: "nack \<in> set (sp_nacks status)"
    then have "valid_nack cfg e ?a nack" "nack_sn nack < amtx_mod cfg"
      using v(2) known by (simp_all add: list_all_iff status_known_def)
    then show "nack_sns_known cfg e nack"
      by (rule valid_nack_known [OF inv _ v(1)]) (use known in \<open>auto simp: status_known_def\<close>)
  qed
qed

lemma handle_status_ok:
  assumes inv: "amtx_inv cfg e" and known: "status_known cfg status e"
  shows "\<exists>evs e'. handle_status_pdu cfg status r e = Inr (evs, e') \<and> amtx_inv cfg e' \<and> tx_acked cfg e e' \<and>
    amtx_st e' = (amtx_st e)\<lparr>tx_next_ack := tx_next_ack (amtx_st e')\<rparr> \<and>
    (tx_next_ack (amtx_st e') = tx_next_ack (amtx_st e) \<or>
     valid_ack_sn cfg e (sp_ack_sn status) \<and> list_all (valid_nack cfg e (sp_ack_sn status)) (sp_nacks status) \<and>
     tx_next_ack (amtx_st e') = (case sp_nacks status of [] \<Rightarrow> sp_ack_sn status | nack # _ \<Rightarrow> nack_sn nack))"
proof -
  let ?a = "sp_ack_sn status" and ?nacks = "sp_nacks status" and ?b = "tx_next_ack (amtx_st e)"
  show ?thesis
  proof (cases "valid_ack_sn cfg e ?a \<and> \<not> tx_mod_base cfg e ?a > tx_mod_base cfg e (tx_next (amtx_st e) + 1) \<and>
      list_all (valid_nack cfg e ?a) ?nacks")
    case False
    then have "handle_status_pdu cfg status r e = Inr ([], e)"
      by (auto simp: handle_status_pdu_def Let_def)
    with inv show ?thesis by simp
  next
    case True
    let ?e = "stop_poll_timer cfg ?a e"
    define stop where "stop = (case ?nacks of [] \<Rightarrow> ?a | nack # _ \<Rightarrow> nack_sn nack)"
    have stop: "stop < amtx_mod cfg" "tx_off cfg ?b stop \<le> tx_off cfg ?b (tx_next (amtx_st e))"
      "\<forall>nack \<in> set ?nacks. nack_sns_known cfg e nack"
      using status_stop [OF inv known _ _ _ stop_def] True by auto
    have inv0: "amtx_inv cfg ?e" using inv by (simp add: amtx_inv_def)
    obtain d e1 where e1: "ack_loop cfg stop ?b None ?e = Inr (d, e1)" "amtx_inv cfg e1"
      "amtx_st e1 = (amtx_st e)\<lparr>tx_next_ack := stop\<rparr>"
      "amtx_sdu_queue e1 = amtx_sdu_queue e" "sn_under_segmentation e1 = sn_under_segmentation e"
      "tx_look cfg (tx_window e1) =
        (\<lambda>sn. if sn \<in> sns_below (amtx_mod cfg) ?b stop then None else tx_look cfg (tx_window e) sn)"
      using ack_loop_ok [OF inv0 stop(1), of None, unfolded stop_timer_frame, OF stop(2)] by blast
    have "\<forall>nack \<in> set ?nacks. nack_sns_known cfg e1 nack"
      using stop(3) e1(3,5) by (simp add: nack_sns_known_def nack_known_def)
    then obtain sns e2 where e2: "nacks_loop cfg ?a ?nacks [] e1 = Inr (sns, e2)" "amtx_inv cfg e2" "tx_frame e1 e2"
      "set sns \<subseteq> dom (tx_look cfg (tx_window e1))"
      using nacks_loop_ok [OF e1(2), of "[]" ?nacks ?a] unfolding nacks_done_def by auto
    obtain evs2 e3 where e3: "amtx_update_mac_buffer_state cfg r e2 = (evs2, e3)"
      by (cases "amtx_update_mac_buffer_state cfg r e2")
    note frame3 = update_state_frame [of cfg r e2, unfolded e3 snd_conv]
    have inv3: "amtx_inv cfg e3" using update_state_inv [of cfg r e2] e2(2) by (simp add: e3)
    obtain evs3 e4 where e4: "retx_count_loop cfg sns e3 = Inr (evs3, e4)" "amtx_inv cfg e4" "tx_same cfg e3 e4"
      "amtx_st e4 = amtx_st e3" "sn_under_segmentation e4 = sn_under_segmentation e3"
      "amtx_sdu_queue e4 = amtx_sdu_queue e3"
      using retx_count_loop_ok [OF inv3, of sns] e2(3,4) frame3(5) by (auto simp: tx_frame_def)
    have "\<exists>evs. handle_status_pdu cfg status r e = Inr (evs, e4)"
      using True e1(1) e2(1) e3 e4(1) unfolding handle_status_pdu_def Let_def
      by (simp add: stop_def)
    moreover have "tx_acked cfg e e4"
      using e1 e2(3) frame3 e4 stop(2)
      by (auto simp: tx_acked_def tx_frame_def tx_same_def tx_base_le tx_sdus_def)
    moreover have "amtx_st e4 = (amtx_st e)\<lparr>tx_next_ack := tx_next_ack (amtx_st e4)\<rparr>"
      using e1(3) e2(3) frame3(1) e4(4) by (simp add: tx_frame_def)
    moreover have "tx_next_ack (amtx_st e4) = (case ?nacks of [] \<Rightarrow> ?a | nack # _ \<Rightarrow> nack_sn nack)"
      using e1(3) e2(3) frame3(1) e4(4) by (simp add: tx_frame_def stop_def)
    ultimately show ?thesis using e4(2) True by blast
  qed
qed

section \<open>Poll timer and upper layer\<close>

lemma expired_poll_ok:
  assumes inv: "amtx_inv cfg e"
  shows "\<exists>evs e'. on_expired_poll_retransmit_timer cfg r e = Inr (evs, e') \<and> amtx_inv cfg e' \<and> tx_same cfg e e' \<and>
    amtx_st e' = amtx_st e"
proof -
  let ?b = "tx_next_ack (amtx_st e)"
  have flag: "amtx_inv cfg (x\<lparr>is_poll_retransmit_timer_expired := True\<rparr>) = amtx_inv cfg x" for x
    by (simp add: amtx_inv_def)
  show ?thesis
  proof (cases "amtx_cannot_tx cfg e \<and> \<not> cm_empty (tx_window e) \<and> win_has_sn (txam_size cfg) (tx_window e) ?b")
    case False
    then have "\<exists>e'. on_expired_poll_retransmit_timer cfg r e = Inr ([], e') \<and>
        (e' = e \<or> e' = e\<lparr>is_poll_retransmit_timer_expired := True\<rparr>)"
      by (auto simp: on_expired_poll_retransmit_timer_def Let_def)
    with inv show ?thesis by (auto simp: flag tx_same_def)
  next
    case True
    then obtain i where look: "tx_look cfg (tx_window e) ?b = Some i" by (auto simp: win_has_look)
    have i: "tx_info_ok i" by (rule amtx_inv_info [OF inv look])
    define x where "x = \<lparr>retx_sn = ?b, retx_so = 0, retx_length = of_nat (length (ti_sdu i))\<rparr>"
    have len: "unat (of_nat (length (ti_sdu i)) :: u32) = length (ti_sdu i)"
      using i by (simp add: tx_info_ok_def unat_of_nat)
    have "tx_retx_ok (tx_look cfg (tx_window e)) x"
      using look i len by (simp add: tx_retx_ok_def x_def tx_info_ok_def word_less_nat_alt)
    then have "amtx_inv cfg (e\<lparr>retx_queue := retx_push x (retx_queue e)\<rparr>)"
      using tx_inv_keep [OF inv, of "retx_push x (retx_queue e)"] inv
      by (auto simp: retx_push_def amtx_inv_def tx_inv_def)
    moreover have "on_expired_poll_retransmit_timer cfg r e =
        (case amtx_update_mac_buffer_state cfg r (e\<lparr>retx_queue := retx_push x (retx_queue e)\<rparr>) of
           (evs, e) \<Rightarrow> Inr (evs, e\<lparr>is_poll_retransmit_timer_expired := True\<rparr>))"
      using True look by (simp add: on_expired_poll_retransmit_timer_def win_get_look x_def Let_def)
    ultimately show ?thesis
      using update_state_inv [of cfg r "e\<lparr>retx_queue := retx_push x (retx_queue e)\<rparr>"]
        update_state_frame [of cfg r "e\<lparr>retx_queue := retx_push x (retx_queue e)\<rparr>"]
      by (simp add: split_beta flag tx_same_def)
  qed
qed

lemma amtx_handle_sdu_ok:
  assumes inv: "amtx_inv cfg e" and sdu: "sdu_buf sdu \<noteq> []" "sdu_len sdu \<le> 65535"
  shows "\<exists>ok e'. amtx_handle_sdu d sdu e = Inr (ok, e') \<and> amtx_inv cfg e' \<and> amtx_st e' = amtx_st e \<and>
    tx_window e' = tx_window e \<and> ok = (\<not> sdu_queue_is_full (amtx_sdu_queue e)) \<and>
    queue_sdus (amtx_sdu_queue e') = queue_sdus (amtx_sdu_queue e) @ (if ok then [sdu] else [])"
proof -
  have q: "sdu_queue_inv (amtx_sdu_queue e)" using inv by (simp add: amtx_inv_def tx_inv_def)
  obtain ok q' where q': "sdu_queue_write sdu (amtx_sdu_queue e) = Inr (ok, q')" "sdu_queue_inv q'"
    "ok = (\<not> sdu_queue_is_full (amtx_sdu_queue e))"
    "queue_sdus q' = (if ok then queue_sdus (amtx_sdu_queue e) @ [sdu] else queue_sdus (amtx_sdu_queue e))"
    using sq.write_law [OF q sdu] by blast
  have "tx_inv cfg (tx_next_ack (amtx_st e)) (tx_next (amtx_st e)) q' (sn_under_segmentation e)
      (rq_queue (retx_queue e)) (tx_window e)"
    by (rule tx_inv_queue [OF inv [unfolded amtx_inv_def] q'(2)])
  with q' show ?thesis by (cases ok) (simp_all add: amtx_handle_sdu_def amtx_inv_def)
qed

lemma amtx_discard_sdu_ok:
  assumes inv: "amtx_inv cfg e"
  shows "\<exists>ok e'. amtx_discard_sdu d sn e = Inr (ok, e') \<and> amtx_inv cfg e' \<and> amtx_st e' = amtx_st e \<and>
    tx_window e' = tx_window e \<and>
    queue_sdus (amtx_sdu_queue e') = remove_pdcp_sn sn (queue_sdus (amtx_sdu_queue e))"
proof -
  have q: "sdu_queue_inv (amtx_sdu_queue e)" using inv by (simp add: amtx_inv_def tx_inv_def)
  obtain ok q' where q': "sdu_queue_discard sn (amtx_sdu_queue e) = Inr (ok, q')" "sdu_queue_inv q'"
    "queue_sdus q' = remove_pdcp_sn sn (queue_sdus (amtx_sdu_queue e))"
    using sq.discard_law [OF q, of sn] by blast
  have "tx_inv cfg (tx_next_ack (amtx_st e)) (tx_next (amtx_st e)) q' (sn_under_segmentation e)
      (rq_queue (retx_queue e)) (tx_window e)"
    by (rule tx_inv_queue [OF inv [unfolded amtx_inv_def] q'(2)])
  with q' show ?thesis by (cases ok) (simp_all add: amtx_discard_sdu_def amtx_inv_def)
qed

section \<open>Counters of the poll\<close>

definition poll_counters_ok :: "rlc_tx_am_config \<Rightarrow> rlc_tx_am_state \<Rightarrow> bool" where
  "poll_counters_ok cfg st \<longleftrightarrow>
    (0 < txam_poll_pdu cfg \<longrightarrow> uint (pdu_without_poll st) < txam_poll_pdu cfg) \<and>
    (0 < txam_poll_byte cfg \<longrightarrow> uint (byte_without_poll st) < txam_poll_byte cfg)"

text \<open>The limits are 32-bit signed integers in the configuration.\<close>

definition poll_limits_ok :: "rlc_tx_am_config \<Rightarrow> bool" where
  "poll_limits_ok cfg \<longleftrightarrow> txam_poll_pdu cfg < 2 ^ 31 \<and> txam_poll_byte cfg < 2 ^ 31"

lemma poll_limit_word: "0 < x \<Longrightarrow> x < 2 ^ 31 \<Longrightarrow> \<not> word_of_int x \<le> (c :: u32) \<Longrightarrow> uint c < x"
  by (simp add: word_le_def uint_word_of_int not_le)

lemma polling_counters:
  assumes "poll_limits_ok cfg" "poll_counters_ok cfg (amtx_st e)"
  shows "poll_counters_ok cfg (amtx_st (snd (get_polling_bit cfg sn r n e)))"
proof -
  let ?st = "if r then amtx_st e else snd (count_without_poll cfg n (amtx_st e))"
  have "amtx_st (snd (get_polling_bit cfg sn r n e)) = ?st \<and> (r \<or> \<not> fst (count_without_poll cfg n (amtx_st e))) \<or>
      pdu_without_poll (amtx_st (snd (get_polling_bit cfg sn r n e))) = 0 \<and>
      byte_without_poll (amtx_st (snd (get_polling_bit cfg sn r n e))) = 0"
    by (simp add: get_polling_bit_def set_poll_def split_beta Let_def)
  moreover have "poll_counters_ok cfg (snd (count_without_poll cfg n (amtx_st e)))"
    if "\<not> fst (count_without_poll cfg n (amtx_st e))"
    using that assms(1) poll_limit_word
    by (auto simp: poll_counters_ok_def count_without_poll_def Let_def poll_limits_ok_def)
  ultimately show ?thesis using assms(2) by (auto simp: poll_counters_ok_def)
qed

lemma poll_counters_tx_next [simp]:
  "poll_counters_ok cfg (st\<lparr>tx_next := x\<rparr>) = poll_counters_ok cfg st"
  "poll_counters_ok cfg (st\<lparr>tx_next_ack := x\<rparr>) = poll_counters_ok cfg st"
  by (simp_all add: poll_counters_ok_def)

lemma build_counters:
  assumes lim: "poll_limits_ok cfg" and ok: "poll_counters_ok cfg (amtx_st e)"
  shows "build_first_sdu_segment cfg sn g e = Inr (pdu, e') \<Longrightarrow> poll_counters_ok cfg (amtx_st e')"
    and "build_continued_sdu_segment cfg sn g e = Inr (pdu, e') \<Longrightarrow> poll_counters_ok cfg (amtx_st e')"
    and "build_retx_pdu cfg g e = Inr (pdu, e') \<Longrightarrow> poll_counters_ok cfg (amtx_st e')"
proof -
  have st: "poll_counters_ok cfg (amtx_st (snd (get_polling_bit cfg sn r n x)))" if "amtx_st x = amtx_st e" for sn r n x
    using polling_counters [OF lim] ok that by simp
  show "build_first_sdu_segment cfg sn g e = Inr (pdu, e') \<Longrightarrow> poll_counters_ok cfg (amtx_st e')"
    using ok by (auto simp: build_first_sdu_segment_def Let_def split_beta st split: sum.splits if_splits)
  show "build_continued_sdu_segment cfg sn g e = Inr (pdu, e') \<Longrightarrow> poll_counters_ok cfg (amtx_st e')"
    using ok by (auto simp: build_continued_sdu_segment_def Let_def split_beta st split: sum.splits if_splits)
  show "build_retx_pdu cfg g e = Inr (pdu, e') \<Longrightarrow> poll_counters_ok cfg (amtx_st e')"
    using ok by (auto simp: build_retx_pdu_def Let_def split_beta st split: sum.splits if_splits)
qed

lemma build_new_counters:
  assumes "poll_limits_ok cfg" "poll_counters_ok cfg (amtx_st e)" "build_new_pdu cfg g e = Inr (pdu, evs, e')"
  shows "poll_counters_ok cfg (amtx_st e')"
proof -
  have first: "build_first_sdu_segment cfg sn g x = Inr (p, x') \<Longrightarrow> amtx_st x = amtx_st e \<Longrightarrow>
      poll_counters_ok cfg (amtx_st x')" for sn x p x'
    using build_counters(1) [OF assms(1), of x] assms(2) by simp
  have st: "poll_counters_ok cfg (amtx_st (snd (get_polling_bit cfg sn r n x)))" if "amtx_st x = amtx_st e" for sn r n x
    using polling_counters [OF assms(1)] assms(2) that by simp
  show ?thesis
    using assms(2,3)
    by (auto simp: build_new_pdu_def Let_def split_beta st dest: first split: sum.splits if_splits option.splits)
qed

lemma pull_data_counters:
  assumes "poll_limits_ok cfg" "poll_counters_ok cfg (amtx_st e)" "amtx_pull_data cfg g e = Inr (pdu, evs, e')"
  shows "poll_counters_ok cfg (amtx_st e')"
proof -
  let ?e = "e\<lparr>sn_under_segmentation := INVALID_RLC_SN\<rparr>"
  have st: "amtx_st ?e = amtx_st e" by simp
  consider p where "build_retx_pdu cfg g e = Inr (p, e')"
    | p sn where "build_continued_sdu_segment cfg sn g e = Inr (p, e')"
    | p es where "build_new_pdu cfg g ?e = Inr (p, es, e')" | "e' = ?e"
    using assms(3) by (auto simp: amtx_pull_data_def Let_def split: sum.splits if_splits)
  then show ?thesis
    by cases (use assms(1,2) st build_counters build_new_counters in metis)+
qed

end
