(* ===== verification/Rlc_Rx_Am_Inv.thy ===== *)
theory Rlc_Rx_Am_Inv
  imports Rlc_Rx_Am
begin

text \<open>
  The invariant of the receiving AM entity: what holds of the state variables, the window, the timer
  and the cached report between two calls, and that every handler keeps it without a failed
  assertion, for every PDU whose segment ends within the range of the 16-bit segment offset.
\<close>

section \<open>Distances from RX_Next\<close>

abbreviation rx_look :: "rlc_rx_am_config \<Rightarrow> rlc_rx_am_entity \<Rightarrow> u32 \<Rightarrow> rlc_rx_am_sdu_info option" where
  "rx_look cfg e \<equiv> win_look (rxam_sn_field_length cfg) (rx_window e)"

definition rx_off :: "rlc_rx_am_config \<Rightarrow> rlc_rx_am_entity \<Rightarrow> u32 \<Rightarrow> nat" where
  "rx_off cfg e x = sn_off (amrx_mod cfg) (rx_next e) x"

abbreviation rx_W :: "rlc_rx_am_config \<Rightarrow> nat" where
  "rx_W cfg \<equiv> win_slots (rxam_sn_field_length cfg)"

lemma rx_base_off: "unat (rx_mod_base cfg e x) = rx_off cfg e x"
  by (simp add: rx_mod_base_def rx_off_def sn_off_def)

lemma rx_base_less: "rx_mod_base cfg e x < rx_mod_base cfg e y \<longleftrightarrow> rx_off cfg e x < rx_off cfg e y"
  by (simp add: word_less_nat_alt rx_base_off)

lemma rx_base_eq: "rx_mod_base cfg e x = rx_mod_base cfg e y \<longleftrightarrow> rx_off cfg e x = rx_off cfg e y"
  by (simp add: word_unat_eq_iff rx_base_off)

lemma rx_base_ge: "rx_mod_base cfg e x \<ge> rx_mod_base cfg e y \<longleftrightarrow> rx_off cfg e y \<le> rx_off cfg e x"
  by (simp add: word_le_nat_alt rx_base_off)

lemma rx_mod_double: "unat (amrx_mod cfg) = 2 * rx_W cfg"
  by (simp only: amrx_mod_def win_slots_def am.md_double)

lemma rx_W_ge: "2048 \<le> rx_W cfg"
  by (cases "rxam_sn_field_length cfg") (simp_all add: win_slots_def)

lemma inside_off: "inside_rx_window cfg e x \<longleftrightarrow> rx_off cfg e x < rx_W cfg"
  by (simp add: inside_rx_window_def word_less_nat_alt rx_base_off amrx_window_size_def win_slots_def)

lemma valid_ack_off: "amrx_valid_ack_sn cfg e x \<longleftrightarrow> 0 < rx_off cfg e x \<and> rx_off cfg e x \<le> rx_W cfg"
  by (simp add: amrx_valid_ack_sn_def word_less_nat_alt word_le_nat_alt rx_base_off amrx_window_size_def
      win_slots_def)

lemma rx_off_self [simp]: "rx_off cfg e (rx_next e) = 0"
  by (simp only: rx_off_def amrx_mod_def am.off_self)

lemma rx_off_less: "rx_off cfg e x < unat (amrx_mod cfg)"
  by (simp only: rx_off_def amrx_mod_def am.off_less)

lemma rx_off_succ:
  "Suc (rx_off cfg e x) < unat (amrx_mod cfg) \<Longrightarrow> rx_off cfg e ((x + 1) mod amrx_mod cfg) = Suc (rx_off cfg e x)"
  unfolding rx_off_def amrx_mod_def by (rule am.off_succ_less)

lemma rx_off_plus1: "rx_off cfg e (rx_next e + 1) = 1"
  using rx_W_ge [of cfg] rx_mod_double [of cfg]
  by (simp add: rx_off_def amrx_mod_def am.off_add)

lemma rx_mod_less: "x mod amrx_mod cfg < amrx_mod cfg"
  by (simp only: amrx_mod_def am.less_md_iff)

lemma rx_off_inj: "x < amrx_mod cfg \<Longrightarrow> y < amrx_mod cfg \<Longrightarrow> rx_off cfg e x = rx_off cfg e y \<Longrightarrow> x = y"
  unfolding rx_off_def amrx_mod_def by (rule am.off_inj)

lemma rx_off_cong: "rx_next e = rx_next e' \<Longrightarrow> rx_off cfg e = rx_off cfg e'"
  by (intro ext) (simp add: rx_off_def)

lemma rx_off_upd [simp]:
  "rx_off cfg (e\<lparr>rx_next_status_trigger := a\<rparr>) = rx_off cfg e"
  "rx_off cfg (e\<lparr>rx_highest_status := a\<rparr>) = rx_off cfg e"
  "rx_off cfg (e\<lparr>rx_next_highest := a\<rparr>) = rx_off cfg e"
  "rx_off cfg (e\<lparr>do_status := b\<rparr>) = rx_off cfg e"
  "rx_off cfg (e\<lparr>rx_window := w\<rparr>) = rx_off cfg e"
  "rx_off cfg (e\<lparr>status_report := s\<rparr>) = rx_off cfg e"
  "rx_off cfg (e\<lparr>status_report_size := a\<rparr>) = rx_off cfg e"
  "rx_off cfg (e\<lparr>status_prohibit_timer_is_running := b\<rparr>) = rx_off cfg e"
  "rx_off cfg (e\<lparr>status_prohibit_timer := b\<rparr>) = rx_off cfg e"
  "rx_off cfg (e\<lparr>deferred_prohibit_starts := n\<rparr>) = rx_off cfg e"
  "rx_off cfg (e\<lparr>reassembly_timer := b\<rparr>) = rx_off cfg e"
  by (rule rx_off_cong, simp)+

lemma rx_off_rebase:
  "rx_next e' = c \<Longrightarrow> rx_off cfg e' x =
    (if rx_off cfg e c \<le> rx_off cfg e x then rx_off cfg e x - rx_off cfg e c
     else rx_off cfg e x + unat (amrx_mod cfg) - rx_off cfg e c)"
  unfolding rx_off_def amrx_mod_def using am.off_rebase by blast

lemma complete_look: "amrx_complete cfg e sn \<longleftrightarrow> (\<exists>i. rx_look cfg e sn = Some i \<and> ami_fully_received i)"
  by (auto simp: amrx_complete_def win_has_look win_get_look)

lemma has_gap_look: "amrx_has_gap cfg e sn \<longleftrightarrow> (\<exists>i. rx_look cfg e sn = Some i \<and> ami_has_gap i)"
  by (auto simp: amrx_has_gap_def win_has_look win_get_look)

section \<open>Invariant\<close>

definition rx_report_ok :: "rlc_rx_am_config \<Rightarrow> rlc_rx_am_entity \<Rightarrow> bool" where
  "rx_report_ok cfg e \<longleftrightarrow>
    status_wf (status_report e) \<and> sp_sn_size (status_report e) = rxam_sn_field_length cfg \<and>
    sp_ack_sn (status_report e) < amrx_mod cfg \<and> status_report_size e = sp_packed_size (status_report e)"

definition rx_vars_ok :: "rlc_rx_am_config \<Rightarrow> rlc_rx_am_entity \<Rightarrow> bool" where
  "rx_vars_ok cfg e \<longleftrightarrow>
    rx_next e < amrx_mod cfg \<and> rx_next_status_trigger e < amrx_mod cfg \<and>
    rx_highest_status e < amrx_mod cfg \<and> rx_next_highest e < amrx_mod cfg \<and>
    rx_off cfg e (rx_highest_status e) \<le> rx_off cfg e (rx_next_highest e) \<and>
    rx_off cfg e (rx_next_highest e) \<le> rx_W cfg"

definition rx_window_ok :: "rlc_rx_am_config \<Rightarrow> rlc_rx_am_entity \<Rightarrow> bool" where
  "rx_window_ok cfg e \<longleftrightarrow>
    win_ok (rxam_sn_field_length cfg) (rx_next e) (rx_window e) \<and>
    (\<forall>sn i. rx_look cfg e sn = Some i \<longrightarrow> info_inv i \<and> rx_off cfg e sn < rx_off cfg e (rx_next_highest e)) \<and>
    (rx_off cfg e (rx_next_highest e) = 0 \<or>
     (\<exists>sn \<in> dom (rx_look cfg e). Suc (rx_off cfg e sn) = rx_off cfg e (rx_next_highest e)))"

text \<open>A running timer has its trigger above RX_Next, just behind an SDU of the window.\<close>

definition rx_trigger_ok :: "rlc_rx_am_config \<Rightarrow> rlc_rx_am_entity \<Rightarrow> bool" where
  "rx_trigger_ok cfg e \<longleftrightarrow>
    (\<exists>sn \<in> dom (rx_look cfg e). Suc (rx_off cfg e sn) = rx_off cfg e (rx_next_status_trigger e))"

definition amrx_inv :: "rlc_rx_am_config \<Rightarrow> rlc_rx_am_entity \<Rightarrow> bool" where
  "amrx_inv cfg e \<longleftrightarrow>
    rx_vars_ok cfg e \<and> rx_window_ok cfg e \<and> rx_report_ok cfg e \<and>
    \<not> amrx_complete cfg e (rx_next e) \<and> \<not> amrx_complete cfg e (rx_highest_status e) \<and>
    (reassembly_timer e \<longrightarrow> rx_trigger_ok cfg e)"

lemma amrx_inv_init: "amrx_inv cfg (rlc_rx_am_entity_init cfg)"
proof -
  have "0 < amrx_mod cfg" using rx_mod_double [of cfg] by (simp add: word_less_nat_alt)
  moreover have "rx_off cfg (rlc_rx_am_entity_init cfg) 0 = 0"
    using rx_off_self [of cfg "rlc_rx_am_entity_init cfg"]
    by (simp add: rlc_rx_am_entity_init_def Let_def)
  ultimately show ?thesis
    by (simp add: amrx_inv_def rx_vars_ok_def rx_window_ok_def rx_report_ok_def complete_look
        rlc_rx_am_entity_init_def Let_def) (simp add: rlc_am_status_pdu_init_def)
qed

lemma dom_mod_less: "rx_window_ok cfg e \<Longrightarrow> rx_look cfg e sn = Some i \<Longrightarrow> sn < amrx_mod cfg"
  by (auto simp: rx_window_ok_def win_ok_def amrx_mod_def)

lemma complete_below: "rx_window_ok cfg e \<Longrightarrow> amrx_complete cfg e sn \<Longrightarrow>
    rx_off cfg e sn < rx_off cfg e (rx_next_highest e)"
  by (auto simp: complete_look rx_window_ok_def)

section \<open>The SN loops\<close>

lemma first_incomplete_spec:
  assumes "sn < amrx_mod cfg" "rx_off cfg e sn \<le> rx_off cfg e (rx_next_highest e)" "rx_window_ok cfg e"
  shows "amrx_first_incomplete cfg e sn < amrx_mod cfg \<and>
    rx_off cfg e sn \<le> rx_off cfg e (amrx_first_incomplete cfg e sn) \<and>
    rx_off cfg e (amrx_first_incomplete cfg e sn) \<le> rx_off cfg e (rx_next_highest e) \<and>
    \<not> amrx_complete cfg e (amrx_first_incomplete cfg e sn)"
  using assms
proof (induction cfg e sn rule: amrx_first_incomplete.induct)
  case (1 cfg e sn)
  let ?s = "(sn + 1) mod amrx_mod cfg"
  show ?case
  proof (cases "rx_off cfg e sn < rx_off cfg e (rx_next_highest e) \<and> amrx_complete cfg e sn")
    case True
    then have c: "rx_mod_base cfg e sn < rx_mod_base cfg e (rx_next_highest e)" "amrx_complete cfg e sn"
      by (simp_all add: rx_base_less)
    have s: "rx_off cfg e ?s = Suc (rx_off cfg e sn)"
      using True rx_off_less [of cfg e "rx_next_highest e"] by (intro rx_off_succ) simp
    have "amrx_first_incomplete cfg e sn = amrx_first_incomplete cfg e ?s"
      using c by (subst amrx_first_incomplete.simps) simp
    with "1.IH" [OF c] "1.prems" True s show ?thesis by (simp add: rx_mod_less)
  next
    case False
    then have "amrx_first_incomplete cfg e sn = sn"
      by (subst amrx_first_incomplete.simps) (auto simp: rx_base_less)
    moreover have "\<not> amrx_complete cfg e sn"
      using False "1.prems" complete_below by blast
    ultimately show ?thesis using "1.prems" by simp
  qed
qed

lemma remove_received_spec:
  assumes "sn < amrx_mod cfg" "rx_off cfg e sn \<le> rx_off cfg e (rx_next_highest e)"
    "win_ok (rxam_sn_field_length cfg) (rx_next e) (rx_window e)"
    "\<forall>x \<in> dom (rx_look cfg e). rx_off cfg e sn \<le> rx_off cfg e x \<and> rx_off cfg e x < rx_off cfg e (rx_next_highest e)"
  shows "\<exists>r w. amrx_remove_received cfg e sn = Inr (r, e\<lparr>rx_window := w\<rparr>) \<and> r < amrx_mod cfg \<and>
    rx_off cfg e sn \<le> rx_off cfg e r \<and> rx_off cfg e r \<le> rx_off cfg e (rx_next_highest e) \<and>
    win_look (rxam_sn_field_length cfg) w =
      (\<lambda>x. if rx_off cfg e x < rx_off cfg e r then None else rx_look cfg e x) \<and>
    win_ok (rxam_sn_field_length cfg) (rx_next e) w \<and> \<not> amrx_complete cfg e r \<and>
    (\<forall>x. x < amrx_mod cfg \<longrightarrow> rx_off cfg e sn \<le> rx_off cfg e x \<longrightarrow> rx_off cfg e x < rx_off cfg e r \<longrightarrow>
      amrx_complete cfg e x)"
  using assms
proof (induction cfg e sn rule: amrx_remove_received.induct)
  case (1 cfg e sn)
  let ?sz = "rxam_sn_field_length cfg" and ?s = "(sn + 1) mod amrx_mod cfg" and ?o = "rx_off cfg e"
  show ?case
  proof (cases "?o sn < ?o (rx_next_highest e) \<and> amrx_complete cfg e sn")
    case False
    then have "amrx_remove_received cfg e sn = Inr (sn, e\<lparr>rx_window := rx_window e\<rparr>)"
      by (subst amrx_remove_received.simps) (auto simp: rx_base_less)
    moreover have "\<not> amrx_complete cfg e sn"
      using False "1.prems"(4) by (auto simp: complete_look)
    moreover have "rx_look cfg e = (\<lambda>x. if ?o x < ?o sn then None else rx_look cfg e x)"
    proof
      fix x
      have "rx_look cfg e x = None" if "?o x < ?o sn"
        using that "1.prems"(4) by (meson domIff not_le)
      then show "rx_look cfg e x = (if ?o x < ?o sn then None else rx_look cfg e x)" by simp
    qed
    ultimately show ?thesis
      using "1.prems"(1-3) by (intro exI [of _ sn] exI [of _ "rx_window e"]) auto
  next
    case True
    then have c: "rx_mod_base cfg e sn < rx_mod_base cfg e (rx_next_highest e)" "amrx_complete cfg e sn"
      by (simp_all add: rx_base_less)
    then obtain i where i: "rx_look cfg e sn = Some i" by (auto simp: complete_look)
    obtain w1 where w1: "win_remove_sn ?sz sn (rx_window e) = Inr w1"
      "win_look ?sz w1 = (rx_look cfg e)(sn := None)" "win_ok ?sz (rx_next e) w1"
      using win_remove_ok [OF "1.prems"(3) i] by blast
    let ?e1 = "e\<lparr>rx_window := w1\<rparr>"
    have o1: "rx_off cfg ?e1 = ?o" by (rule rx_off_cong) simp
    have s: "?o ?s = Suc (?o sn)"
      using True rx_off_less [of cfg e "rx_next_highest e"] by (intro rx_off_succ) simp
    have low: "?o ?s \<le> ?o x" if "x \<in> dom (rx_look cfg e)" "x \<noteq> sn" for x
    proof -
      have "x < amrx_mod cfg" using "1.prems"(3) that(1) by (auto simp: win_ok_def amrx_mod_def)
      with that(2) "1.prems"(1) have "?o x \<noteq> ?o sn" using rx_off_inj by blast
      moreover have "?o sn \<le> ?o x" using "1.prems"(4) that(1) by blast
      ultimately show ?thesis using s by simp
    qed
    have "\<forall>x \<in> dom (rx_look cfg ?e1). rx_off cfg ?e1 ?s \<le> rx_off cfg ?e1 x \<and>
        rx_off cfg ?e1 x < rx_off cfg ?e1 (rx_next_highest ?e1)"
      using low "1.prems"(4) by (auto simp: o1 w1(2))
    from "1.IH" [OF c w1(1) _ _ _ this] w1 True s obtain r w where
      r: "amrx_remove_received cfg ?e1 ?s = Inr (r, ?e1\<lparr>rx_window := w\<rparr>)" "r < amrx_mod cfg"
      "Suc (?o sn) \<le> ?o r" "?o r \<le> ?o (rx_next_highest e)"
      "win_look ?sz w = (\<lambda>x. if ?o x < ?o r then None else rx_look cfg ?e1 x)" "win_ok ?sz (rx_next e) w"
      "\<not> amrx_complete cfg ?e1 r"
      "\<forall>x. x < amrx_mod cfg \<longrightarrow> Suc (?o sn) \<le> ?o x \<longrightarrow> ?o x < ?o r \<longrightarrow> amrx_complete cfg ?e1 x"
      by (auto simp: o1 rx_mod_less)
    have "amrx_remove_received cfg e sn = Inr (r, e\<lparr>rx_window := w\<rparr>)"
      using c w1(1) r(1) by (subst amrx_remove_received.simps) simp
    moreover have "win_look ?sz w = (\<lambda>x. if ?o x < ?o r then None else rx_look cfg e x)"
      using r(3) unfolding r(5) by (auto simp: w1(2))
    moreover have "\<not> amrx_complete cfg e r" using r(3,7) by (auto simp: complete_look w1(2) split: if_splits)
    moreover have "amrx_complete cfg e x" if "x < amrx_mod cfg" "?o sn \<le> ?o x" "?o x < ?o r" for x
    proof (cases "x = sn")
      case False
      then have "?o x \<noteq> ?o sn" using that(1) "1.prems"(1) rx_off_inj by blast
      with that r(8) show ?thesis by (auto simp: complete_look w1(2) split: if_splits)
    qed (use True in simp)
    ultimately show ?thesis using r by (intro exI [of _ r] exI [of _ w]) auto
  qed
qed

section \<open>Storing a PDU\<close>

lemma find_or_add_spec:
  assumes "win_ok (rxam_sn_field_length cfg) (rx_next e) (rx_window e)" "sn < amrx_mod cfg"
    "rx_off cfg e sn < rx_W cfg"
  shows "\<exists>i w. amrx_find_or_add cfg sn e = Inr (i, e\<lparr>rx_window := w\<rparr>) \<and>
    i = (case rx_look cfg e sn of None \<Rightarrow> rlc_rx_am_sdu_info_init | Some i \<Rightarrow> i) \<and>
    win_look (rxam_sn_field_length cfg) w = (rx_look cfg e)(sn \<mapsto> i) \<and>
    win_ok (rxam_sn_field_length cfg) (rx_next e) w"
proof (cases "rx_look cfg e sn")
  case None
  then show ?thesis
    using win_add_ok [OF assms(1) None, of rlc_rx_am_sdu_info_init] assms(2,3)
    by (auto simp: amrx_find_or_add_def win_has_look amrx_mod_def rx_off_def)
next
  case (Some i)
  then have "amrx_find_or_add cfg sn e = Inr (i, e\<lparr>rx_window := rx_window e\<rparr>)"
    by (simp add: amrx_find_or_add_def win_has_look win_get_look)
  with Some assms(1) show ?thesis
    by (intro exI [of _ i] exI [of _ "rx_window e"]) (simp add: fun_upd_idem)
qed

lemma write_info_spec:
  assumes "win_ok (rxam_sn_field_length cfg) (rx_next e) (rx_window e)" "rx_look cfg e sn = Some j"
  shows "\<exists>w. amrx_write_info cfg sn i e = Inr (e\<lparr>rx_window := w\<rparr>) \<and>
    win_look (rxam_sn_field_length cfg) w = (rx_look cfg e)(sn \<mapsto> i) \<and>
    win_ok (rxam_sn_field_length cfg) (rx_next e) w"
  using win_set_ok [OF assms, of i] by (auto simp: amrx_write_info_def)

text \<open>What a data PDU makes of the element of its SN.\<close>

definition amrx_new_info ::
  "rlc_am_pdu_header \<Rightarrow> bytes \<Rightarrow> rlc_rx_am_sdu_info \<Rightarrow> bool \<times> rlc_rx_am_sdu_info" where
  "amrx_new_info header payload i =
    (if am_si header = Full_sdu
     then (True, i\<lparr>ami_segments := [], ami_sdu := payload, ami_fully_received := True, ami_has_gap := False\<rparr>)
     else amrx_store_segment \<lparr>ams_si = am_si header, ams_so = am_so header, ams_payload = payload\<rparr> i)"

definition rx_old_info :: "rlc_rx_am_config \<Rightarrow> rlc_rx_am_entity \<Rightarrow> u32 \<Rightarrow> rlc_rx_am_sdu_info" where
  "rx_old_info cfg e sn = (case rx_look cfg e sn of None \<Rightarrow> rlc_rx_am_sdu_info_init | Some i \<Rightarrow> i)"

lemma store_pdu_spec:
  assumes "win_ok (rxam_sn_field_length cfg) (rx_next e) (rx_window e)" "am_sn h < amrx_mod cfg"
    "rx_off cfg e (am_sn h) < rx_W cfg" "amrx_new_info h payload (rx_old_info cfg e (am_sn h)) = (ch, i)"
  shows "\<exists>w. (if am_si h = Full_sdu then handle_full_data_sdu cfg h payload e
      else handle_segment_data_sdu cfg h payload e) = Inr (ch, e\<lparr>rx_window := w\<rparr>) \<and>
    win_look (rxam_sn_field_length cfg) w = (rx_look cfg e)(am_sn h \<mapsto> i) \<and>
    win_ok (rxam_sn_field_length cfg) (rx_next e) w"
proof -
  let ?sz = "rxam_sn_field_length cfg" and ?i0 = "rx_old_info cfg e (am_sn h)"
  obtain w0 where w0: "amrx_find_or_add cfg (am_sn h) e = Inr (?i0, e\<lparr>rx_window := w0\<rparr>)"
    "win_look ?sz w0 = (rx_look cfg e)(am_sn h \<mapsto> ?i0)" "win_ok ?sz (rx_next e) w0"
    using find_or_add_spec [OF assms(1-3)] by (auto simp: rx_old_info_def)
  obtain w where w: "amrx_write_info cfg (am_sn h) i (e\<lparr>rx_window := w0\<rparr>) = Inr (e\<lparr>rx_window := w\<rparr>)"
    "win_look ?sz w = (rx_look cfg e)(am_sn h \<mapsto> i)" "win_ok ?sz (rx_next e) w"
    using write_info_spec [of cfg "e\<lparr>rx_window := w0\<rparr>" "am_sn h" ?i0 i] w0 by auto
  show ?thesis
    using w0(1) w assms(4)
    by (cases "am_si h = Full_sdu")
      (auto simp: handle_full_data_sdu_def handle_segment_data_sdu_def amrx_new_info_def)
qed

lemma new_info_inv:
  assumes "info_inv i" "\<not> ami_fully_received i" "amrx_new_info h payload i = (ch, i')" "payload \<noteq> []"
    "am_si h \<noteq> Full_sdu \<Longrightarrow> unat (am_so h) + length payload \<le> 65535"
  shows "info_inv i'"
proof (cases "am_si h = Full_sdu")
  case True
  with assms show ?thesis by (auto simp: amrx_new_info_def info_inv_def)
next
  case False
  with assms(3) have "amrx_store_segment \<lparr>ams_si = am_si h, ams_so = am_so h, ams_payload = payload\<rparr> i = (ch, i')"
    by (simp add: amrx_new_info_def)
  with assms False show ?thesis
    by (intro store_segment_inv [OF assms(1,2)]) (simp_all add: seg_ok_def seg_end_def)
qed

section \<open>A complete SDU\<close>

lemma deliver_spec:
  assumes "win_ok (rxam_sn_field_length cfg) (rx_next e) (rx_window e)" "rx_look cfg e sn = Some i"
  shows "\<exists>w. amrx_deliver cfg sn e = Inr ([Am_new_sdu (ami_sdu i)], e\<lparr>rx_window := w\<rparr>) \<and>
    win_look (rxam_sn_field_length cfg) w = (rx_look cfg e)(sn \<mapsto> i\<lparr>ami_sdu := []\<rparr>) \<and>
    win_ok (rxam_sn_field_length cfg) (rx_next e) w"
  using write_info_spec [OF assms, of "i\<lparr>ami_sdu := []\<rparr>"] assms(2)
  by (auto simp: amrx_deliver_def win_get_look)

text \<open>The state between storing a PDU and the update of the state variables.\<close>

definition rx_mid :: "rlc_rx_am_config \<Rightarrow> u32 \<Rightarrow> rlc_rx_am_entity \<Rightarrow> bool" where
  "rx_mid cfg sn e \<longleftrightarrow>
    rx_vars_ok cfg e \<and> rx_window_ok cfg e \<and> rx_report_ok cfg e \<and> sn < amrx_mod cfg \<and>
    (amrx_complete cfg e (rx_next e) \<longrightarrow> sn = rx_next e) \<and>
    (amrx_complete cfg e (rx_highest_status e) \<longrightarrow> sn = rx_highest_status e) \<and>
    (reassembly_timer e \<longrightarrow> rx_trigger_ok cfg e)"

lemma rx_window_upd:
  assumes "rx_look cfg e sn = Some i" "info_inv j"
    "win_look (rxam_sn_field_length cfg) w = (rx_look cfg e)(sn \<mapsto> j)"
    "win_ok (rxam_sn_field_length cfg) (rx_next e) w" "rx_window_ok cfg e"
  shows "rx_window_ok cfg (e\<lparr>rx_window := w\<rparr>)"
proof -
  have o: "rx_off cfg (e\<lparr>rx_window := w\<rparr>) = rx_off cfg e" by (rule rx_off_cong) simp
  show ?thesis
    using assms by (auto simp: rx_window_ok_def o split: if_splits)
qed

lemma highest_status_spec:
  assumes mid: "rx_mid cfg sn e" and c: "amrx_complete cfg e sn"
  shows "\<exists>h. amrx_update_highest_status cfg sn e = e\<lparr>rx_highest_status := h\<rparr> \<and> h < amrx_mod cfg \<and>
    rx_off cfg e h \<le> rx_off cfg e (rx_next_highest e) \<and> \<not> amrx_complete cfg e h"
proof (cases "rx_off cfg e sn = rx_off cfg e (rx_highest_status e)")
  case True
  let ?h = "rx_highest_status e" and ?o = "rx_off cfg e"
  have vars: "rx_vars_ok cfg e" "rx_window_ok cfg e" using mid by (simp_all add: rx_mid_def)
  have lt: "?o ?h < ?o (rx_next_highest e)" using complete_below [OF vars(2) c] True by simp
  then have s: "?o ((?h + 1) mod amrx_mod cfg) = Suc (?o ?h)"
    using rx_off_less [of cfg e "rx_next_highest e"] by (intro rx_off_succ) simp
  have "amrx_update_highest_status cfg sn e =
      e\<lparr>rx_highest_status := amrx_first_incomplete cfg e ((?h + 1) mod amrx_mod cfg)\<rparr>"
    using True by (simp add: amrx_update_highest_status_def rx_base_eq)
  with first_incomplete_spec [of "(?h + 1) mod amrx_mod cfg" cfg e] s lt vars(2) show ?thesis
    by (intro exI [of _ "amrx_first_incomplete cfg e ((?h + 1) mod amrx_mod cfg)"]) (simp add: rx_mod_less)
next
  case False
  then have "amrx_update_highest_status cfg sn e = e\<lparr>rx_highest_status := rx_highest_status e\<rparr>"
    by (simp add: amrx_update_highest_status_def rx_base_eq)
  with mid False show ?thesis
    by (intro exI [of _ "rx_highest_status e"]) (auto simp: rx_mid_def rx_vars_ok_def)
qed

lemma update_next_spec:
  assumes win: "rx_window_ok cfg e" and vars: "rx_vars_ok cfg e" and sn: "sn < amrx_mod cfg"
    and nc: "amrx_complete cfg e (rx_next e) \<Longrightarrow> sn = rx_next e"
  shows "\<exists>r w. amrx_update_next cfg sn e = Inr (e\<lparr>rx_window := w, rx_next := r\<rparr>) \<and> r < amrx_mod cfg \<and>
    rx_off cfg e r \<le> rx_off cfg e (rx_next_highest e) \<and>
    win_look (rxam_sn_field_length cfg) w =
      (\<lambda>x. if rx_off cfg e x < rx_off cfg e r then None else rx_look cfg e x) \<and>
    win_ok (rxam_sn_field_length cfg) r w \<and> \<not> amrx_complete cfg e r \<and>
    (\<forall>x. x < amrx_mod cfg \<longrightarrow> rx_off cfg e x < rx_off cfg e r \<longrightarrow> amrx_complete cfg e x)"
proof -
  let ?sz = "rxam_sn_field_length cfg" and ?o = "rx_off cfg e"
  have n: "rx_next e < amrx_mod cfg" using vars by (simp add: rx_vars_ok_def)
  then have nm: "rx_next e mod amrx_mod cfg = rx_next e"
    by (simp add: word_unat_eq_iff unat_mod word_less_nat_alt)
  have wok: "win_ok ?sz (rx_next e) (rx_window e)" using win by (simp add: rx_window_ok_def)
  show ?thesis
  proof (cases "sn = rx_next e")
    case True
    have "\<forall>x \<in> dom (rx_look cfg e). ?o (rx_next e) \<le> ?o x \<and> ?o x < ?o (rx_next_highest e)"
      using win by (auto simp: rx_window_ok_def)
    then obtain r w where r: "amrx_remove_received cfg e (rx_next e) = Inr (r, e\<lparr>rx_window := w\<rparr>)"
      "r < amrx_mod cfg" "?o r \<le> ?o (rx_next_highest e)"
      "win_look ?sz w = (\<lambda>x. if ?o x < ?o r then None else rx_look cfg e x)" "win_ok ?sz (rx_next e) w"
      "\<not> amrx_complete cfg e r"
      "\<forall>x. x < amrx_mod cfg \<longrightarrow> ?o x < ?o r \<longrightarrow> amrx_complete cfg e x"
      using remove_received_spec [OF n _ wok] by auto
    have "amrx_update_next cfg sn e = Inr (e\<lparr>rx_window := w, rx_next := r\<rparr>)"
      using True r(1) by (simp add: amrx_update_next_def nm)
    moreover have "win_ok ?sz r w"
      using r(4) by (intro win_ok_advance [OF r(5)])
        (auto simp: rx_off_def amrx_mod_def not_less split: if_splits)
    ultimately show ?thesis using r by (intro exI [of _ r] exI [of _ w]) simp
  next
    case False
    then have "?o sn \<noteq> 0" using rx_off_inj [OF sn n, of e] by auto
    then have "amrx_update_next cfg sn e = Inr (e\<lparr>rx_window := rx_window e, rx_next := rx_next e\<rparr>)"
      by (simp add: amrx_update_next_def rx_base_eq)
    with False n wok nc show ?thesis
      by (intro exI [of _ "rx_next e"] exI [of _ "rx_window e"]) auto
  qed
qed

text \<open>
  The three updates together: the window loses the SDUs before the new RX_Next, which are all
  complete, and the state variables are in order again.
\<close>

definition rx_settled :: "rlc_rx_am_config \<Rightarrow> rlc_rx_am_entity \<Rightarrow> bool" where
  "rx_settled cfg e \<longleftrightarrow>
    rx_vars_ok cfg e \<and> rx_window_ok cfg e \<and> rx_report_ok cfg e \<and>
    \<not> amrx_complete cfg e (rx_next e) \<and> \<not> amrx_complete cfg e (rx_highest_status e) \<and>
    (reassembly_timer e \<longrightarrow> rx_trigger_ok cfg e \<or> rx_off cfg e (rx_next_status_trigger e) = 0 \<or>
      rx_W cfg \<le> rx_off cfg e (rx_next_status_trigger e))"

lemma advance_settled:
  assumes vars: "rx_vars_ok cfg e" and win: "rx_window_ok cfg e" and rep: "rx_report_ok cfg e"
    and trig: "reassembly_timer e \<longrightarrow> rx_trigger_ok cfg e" and nh: "\<not> amrx_complete cfg e (rx_highest_status e)"
    and r: "r < amrx_mod cfg" "rx_off cfg e r \<le> rx_off cfg e (rx_next_highest e)"
      "win_look (rxam_sn_field_length cfg) w =
        (\<lambda>x. if rx_off cfg e x < rx_off cfg e r then None else rx_look cfg e x)"
      "win_ok (rxam_sn_field_length cfg) r w" "\<not> amrx_complete cfg e r"
      "\<forall>x. x < amrx_mod cfg \<longrightarrow> rx_off cfg e x < rx_off cfg e r \<longrightarrow> amrx_complete cfg e x"
  shows "rx_settled cfg (e\<lparr>rx_window := w, rx_next := r\<rparr>)"
proof -
  let ?e = "e\<lparr>rx_window := w, rx_next := r\<rparr>" and ?o = "rx_off cfg e"
  have o: "rx_off cfg ?e x = (if ?o r \<le> ?o x then ?o x - ?o r else ?o x + unat (amrx_mod cfg) - ?o r)" for x
    by (rule rx_off_rebase) simp
  have v: "rx_highest_status e < amrx_mod cfg" "?o (rx_next_highest e) \<le> rx_W cfg"
    "?o (rx_highest_status e) \<le> ?o (rx_next_highest e)"
    using vars by (simp_all add: rx_vars_ok_def)
  have h: "?o r \<le> ?o (rx_highest_status e)"
    using r(6) v(1) nh by (metis not_less)
  have vars': "rx_vars_ok cfg ?e"
    using vars r(1,2) h by (auto simp: rx_vars_ok_def o)
  have keep: "rx_look cfg ?e x = Some i \<longleftrightarrow> rx_look cfg e x = Some i \<and> ?o r \<le> ?o x" for x i
    by (simp add: r(3) not_less)
  have last: "\<exists>x \<in> dom (rx_look cfg ?e). Suc (rx_off cfg ?e x) = ?o y - ?o r"
    if "x \<in> dom (rx_look cfg e)" "Suc (?o x) = ?o y" "?o r < ?o y" for x y
    using that by (intro bexI [of _ x]) (auto simp: o keep domIff r(3))
  have win': "rx_window_ok cfg ?e"
  proof -
    have "info_inv i \<and> rx_off cfg ?e x < rx_off cfg ?e (rx_next_highest e)" if "rx_look cfg ?e x = Some i" for x i
    proof -
      have "info_inv i" "?o x < ?o (rx_next_highest e)" "?o r \<le> ?o x"
        using that win unfolding keep rx_window_ok_def by blast+
      then show ?thesis using r(2) by (simp add: o diff_less_mono)
    qed
    moreover have "rx_off cfg ?e (rx_next_highest e) = 0 \<or>
        (\<exists>x \<in> dom (rx_look cfg ?e). Suc (rx_off cfg ?e x) = rx_off cfg ?e (rx_next_highest e))"
    proof (cases "?o r = ?o (rx_next_highest e)")
      case False
      with r(2) have lt: "?o r < ?o (rx_next_highest e)" by simp
      then obtain x where "x \<in> dom (rx_look cfg e)" "Suc (?o x) = ?o (rx_next_highest e)"
        using win by (auto simp: rx_window_ok_def)
      from last [OF this lt] lt show ?thesis by (simp only: o) simp
    qed (simp add: o)
    ultimately show ?thesis using r(4) by (simp add: rx_window_ok_def)
  qed
  have nc: "\<not> amrx_complete cfg ?e x" if "\<not> amrx_complete cfg e x" for x
    using that keep by (metis complete_look)
  have "rx_trigger_ok cfg ?e \<or> rx_off cfg ?e (rx_next_status_trigger e) = 0 \<or>
      rx_W cfg \<le> rx_off cfg ?e (rx_next_status_trigger e)" if "reassembly_timer e"
  proof -
    let ?t = "rx_next_status_trigger e"
    from that trig obtain x where x: "x \<in> dom (rx_look cfg e)" "Suc (?o x) = ?o ?t"
      by (auto simp: rx_trigger_ok_def)
    consider "?o r < ?o ?t" | "?o r = ?o ?t" | "?o ?t < ?o r" by linarith
    then show ?thesis
    proof cases
      case 1
      with last [OF x] show ?thesis by (auto simp: rx_trigger_ok_def o)
    next
      case 3
      then have "rx_W cfg \<le> rx_off cfg ?e ?t" using rx_mod_double [of cfg] r(2) v(2) by (simp add: o)
      then show ?thesis by simp
    qed (simp add: o)
  qed
  then show ?thesis
    using vars' win' rep nc [OF r(5)] nc [OF nh] by (simp add: rx_settled_def rx_report_ok_def)
qed

lemma sdu_complete_spec:
  assumes mid: "rx_mid cfg sn e" and i: "rx_look cfg e sn = Some i"
  shows "\<exists>r h w. amrx_sdu_complete cfg sn e =
      Inr (if ami_fully_received i then [Am_new_sdu (ami_sdu i)] else [],
           e\<lparr>rx_highest_status := h, rx_window := w, rx_next := r\<rparr>) \<and>
    rx_settled cfg (e\<lparr>rx_highest_status := h, rx_window := w, rx_next := r\<rparr>) \<and>
    win_look (rxam_sn_field_length cfg) w =
      (\<lambda>x. if rx_off cfg e x < rx_off cfg e r then None
        else ((rx_look cfg e)(sn \<mapsto> (if ami_fully_received i then i\<lparr>ami_sdu := []\<rparr> else i))) x) \<and>
    (\<forall>x. x < amrx_mod cfg \<longrightarrow> rx_off cfg e x < rx_off cfg e r \<longrightarrow> amrx_complete cfg e x) \<and>
    rx_off cfg e r \<le> rx_W cfg"
proof (cases "ami_fully_received i")
  case False
  then have nc: "\<not> amrx_complete cfg e sn" using i by (simp add: complete_look)
  then have "amrx_sdu_complete cfg sn e =
      Inr ([], e\<lparr>rx_highest_status := rx_highest_status e, rx_window := rx_window e, rx_next := rx_next e\<rparr>)"
    by (simp add: amrx_sdu_complete_def)
  moreover have "rx_settled cfg e" using mid nc by (auto simp: rx_mid_def rx_settled_def)
  ultimately show ?thesis
    using False i
    by (intro exI [of _ "rx_next e"] exI [of _ "rx_highest_status e"] exI [of _ "rx_window e"])
      (simp add: fun_upd_idem)
next
  case True
  let ?sz = "rxam_sn_field_length cfg" and ?i = "i\<lparr>ami_sdu := []\<rparr>"
  have c: "amrx_complete cfg e sn" using True i by (simp add: complete_look)
  have vars: "rx_vars_ok cfg e" and win: "rx_window_ok cfg e" using mid by (simp_all add: rx_mid_def)
  have wok: "win_ok ?sz (rx_next e) (rx_window e)" using win by (simp add: rx_window_ok_def)
  obtain w1 where w1: "amrx_deliver cfg sn e = Inr ([Am_new_sdu (ami_sdu i)], e\<lparr>rx_window := w1\<rparr>)"
    "win_look ?sz w1 = (rx_look cfg e)(sn \<mapsto> ?i)" "win_ok ?sz (rx_next e) w1"
    using deliver_spec [OF wok i] by blast
  let ?e1 = "e\<lparr>rx_window := w1\<rparr>"
  have o1: "rx_off cfg ?e1 = rx_off cfg e" by (rule rx_off_cong) simp
  have "info_inv ?i" using True win i by (auto simp: rx_window_ok_def info_inv_def)
  from rx_window_upd [OF i this w1(2,3) win] have win1: "rx_window_ok cfg ?e1" .
  have comp1: "amrx_complete cfg ?e1 = amrx_complete cfg e"
    using i True by (intro ext) (auto simp: complete_look w1(2))
  have mid1: "rx_mid cfg sn ?e1"
    using mid win1 i unfolding rx_mid_def comp1
    by (auto simp: rx_vars_ok_def o1 rx_report_ok_def rx_trigger_ok_def w1(2))
  obtain h where h: "amrx_update_highest_status cfg sn ?e1 = ?e1\<lparr>rx_highest_status := h\<rparr>" "h < amrx_mod cfg"
    "rx_off cfg e h \<le> rx_off cfg e (rx_next_highest e)" "\<not> amrx_complete cfg e h"
    using highest_status_spec [OF mid1] c unfolding comp1 o1 by auto
  let ?e2 = "e\<lparr>rx_window := w1, rx_highest_status := h\<rparr>"
  have o2: "rx_off cfg ?e2 = rx_off cfg e" by (rule rx_off_cong) simp
  have comp2: "amrx_complete cfg ?e2 = amrx_complete cfg e"
    using comp1 by (intro ext) (simp add: complete_look fun_eq_iff)
  have win2: "rx_window_ok cfg ?e2" using win1 by (simp add: rx_window_ok_def o1 o2)
  have vars2: "rx_vars_ok cfg ?e2" using vars h by (simp add: rx_vars_ok_def o2)
  have sn: "sn < amrx_mod cfg" and nx: "amrx_complete cfg e (rx_next e) \<Longrightarrow> sn = rx_next e"
    and rep: "rx_report_ok cfg ?e2" and tr: "reassembly_timer ?e2 \<longrightarrow> rx_trigger_ok cfg ?e2"
    using mid mid1 by (auto simp: rx_mid_def rx_report_ok_def rx_trigger_ok_def o1 o2)
  have "amrx_complete cfg e (rx_next ?e2) \<Longrightarrow> sn = rx_next ?e2" using nx by simp
  from update_next_spec [OF win2 vars2 sn, unfolded comp2 o2, OF this] obtain r w where
    r: "amrx_update_next cfg sn ?e2 = Inr (?e2\<lparr>rx_window := w, rx_next := r\<rparr>)" "r < amrx_mod cfg"
    "rx_off cfg e r \<le> rx_off cfg e (rx_next_highest ?e2)"
    "win_look ?sz w = (\<lambda>x. if rx_off cfg e x < rx_off cfg e r then None else rx_look cfg ?e2 x)"
    "win_ok ?sz r w" "\<not> amrx_complete cfg e r"
    "\<forall>x. x < amrx_mod cfg \<longrightarrow> rx_off cfg e x < rx_off cfg e r \<longrightarrow> amrx_complete cfg e x"
    by blast
  have "rx_settled cfg (?e2\<lparr>rx_window := w, rx_next := r\<rparr>)"
    using h(4) r by (intro advance_settled [OF vars2 win2 rep tr, unfolded comp2 o2]) simp_all
  moreover have "amrx_sdu_complete cfg sn e = Inr ([Am_new_sdu (ami_sdu i)], ?e2\<lparr>rx_window := w, rx_next := r\<rparr>)"
    using c w1(1) h(1) r(1) by (simp add: amrx_sdu_complete_def)
  moreover have "rx_off cfg e r \<le> rx_W cfg" using r(3) vars by (simp add: rx_vars_ok_def)
  moreover have "rx_look cfg ?e2 = (rx_look cfg e)(sn \<mapsto> ?i)" by (simp add: w1(2))
  note r(4) [unfolded this]
  moreover have "?e2\<lparr>rx_window := w, rx_next := r\<rparr> = e\<lparr>rx_highest_status := h, rx_window := w, rx_next := r\<rparr>"
    by simp
  ultimately show ?thesis
    using True r(7) by (intro exI [of _ r] exI [of _ h] exI [of _ w]) simp
qed

section \<open>The reassembly timer\<close>

lemma timer_stop_spec:
  assumes "rx_settled cfg e"
  shows "\<exists>b. amrx_timer_stop cfg e = Inr (e\<lparr>reassembly_timer := b\<rparr>) \<and> (b \<longrightarrow> rx_trigger_ok cfg e)"
proof (cases "reassembly_timer e")
  case False
  then have "amrx_timer_stop cfg e = Inr (e\<lparr>reassembly_timer := reassembly_timer e\<rparr>)"
    by (simp add: amrx_timer_stop_def)
  with False show ?thesis by (intro exI [of _ "reassembly_timer e"] conjI) simp_all
next
  case True
  let ?t = "rx_next_status_trigger e"
  have vars: "rx_next e < amrx_mod cfg" "?t < amrx_mod cfg" using assms by (simp_all add: rx_settled_def rx_vars_ok_def)
  have t1: "rx_mod_base cfg e ?t = rx_mod_base cfg e (rx_next e + 1) \<longleftrightarrow> rx_off cfg e ?t = 1"
    by (simp add: rx_base_eq rx_off_plus1)
  consider "rx_trigger_ok cfg e" | "rx_off cfg e ?t = 0" | "rx_W cfg \<le> rx_off cfg e ?t"
    using assms True by (auto simp: rx_settled_def)
  then show ?thesis
  proof cases
    case 1
    then obtain x where x: "x \<in> dom (rx_look cfg e)" "Suc (rx_off cfg e x) = rx_off cfg e ?t"
      by (auto simp: rx_trigger_ok_def)
    have "x < amrx_mod cfg" using x(1) assms dom_mod_less by (auto simp: rx_settled_def)
    then have "\<exists>i. rx_look cfg e (rx_next e) = Some i" if "rx_off cfg e ?t = 1"
      using that x rx_off_inj [OF _ vars(1), of x e] by auto
    then have "amrx_timer_stop cfg e = Inr (e\<lparr>reassembly_timer := False\<rparr>) \<or>
        amrx_timer_stop cfg e = Inr (e\<lparr>reassembly_timer := reassembly_timer e\<rparr>)"
      using True by (auto simp: amrx_timer_stop_def t1 win_get_look Let_def)
    with 1 show ?thesis by blast
  next
    case 2
    then have "?t = rx_next e" using rx_off_inj [OF vars(2,1), of e] by simp
    then have "amrx_timer_stop cfg e = Inr (e\<lparr>reassembly_timer := False\<rparr>)"
      using True by (simp add: amrx_timer_stop_def rx_base_eq rx_off_plus1)
    then show ?thesis by blast
  next
    case 3
    then have "amrx_timer_stop cfg e = Inr (e\<lparr>reassembly_timer := False\<rparr>)"
      using True rx_W_ge [of cfg] by (simp add: amrx_timer_stop_def t1 inside_off)
    then show ?thesis by blast
  qed
qed

lemma inv_timer_upd:
  assumes "rx_settled cfg e" "b \<longrightarrow> rx_trigger_ok cfg (e\<lparr>rx_next_status_trigger := t\<rparr>)" "t < amrx_mod cfg"
  shows "amrx_inv cfg (e\<lparr>reassembly_timer := b, rx_next_status_trigger := t\<rparr>)"
  using assms
  by (simp add: amrx_inv_def rx_settled_def rx_vars_ok_def rx_window_ok_def rx_report_ok_def complete_look
      rx_trigger_ok_def)

lemma timer_start_inv:
  assumes "rx_settled cfg e" "b \<longrightarrow> rx_trigger_ok cfg e"
  shows "amrx_inv cfg (amrx_timer_start cfg (e\<lparr>reassembly_timer := b\<rparr>))"
proof -
  let ?e = "e\<lparr>reassembly_timer := b\<rparr>"
  have o: "rx_off cfg ?e = rx_off cfg e" by (rule rx_off_cong) simp
  have vars: "rx_next_status_trigger e < amrx_mod cfg" "rx_next_highest e < amrx_mod cfg"
    using assms(1) by (simp_all add: rx_settled_def rx_vars_ok_def)
  show ?thesis
  proof (cases "amrx_timer_start cfg ?e = ?e")
    case True
    have "e\<lparr>rx_next_status_trigger := rx_next_status_trigger e\<rparr> = e" by simp
    with inv_timer_upd [OF assms(1) _ vars(1), of b] assms(2) True show ?thesis by simp
  next
    case False
    then have s: "amrx_timer_start cfg ?e = e\<lparr>reassembly_timer := True, rx_next_status_trigger := rx_next_highest e\<rparr>"
      and nz: "rx_off cfg e (rx_next_highest e) \<noteq> 0"
      using rx_off_plus1 [of cfg ?e]
      by (auto simp: amrx_timer_start_def rx_base_less rx_base_eq o split: if_splits)
    have "rx_off cfg (e\<lparr>rx_next_status_trigger := rx_next_highest e\<rparr>) = rx_off cfg e"
      by (rule rx_off_cong) simp
    then have "rx_trigger_ok cfg (e\<lparr>rx_next_status_trigger := rx_next_highest e\<rparr>)"
      using assms(1) nz by (simp add: rx_settled_def rx_window_ok_def rx_trigger_ok_def)
    with inv_timer_upd [OF assms(1) _ vars(2), of True] show ?thesis unfolding s by simp
  qed
qed

section \<open>The status report\<close>

lemma ucast_of_nat_u16 [simp]: "n \<le> 65535 \<Longrightarrow> unat (ucast (of_nat n :: u32) :: u16) = n"
  by (simp add: unat_ucast_mod unat_of_nat)

lemma nack_segments_spec:
  assumes "segs_ok ss" "\<forall>t \<in> set ss. n \<le> unat (ams_so t)" "n \<le> 65535" "status_wf s" "i < mod_nr s"
  shows "\<exists>l hl s'. nack_segments i ss (of_nat n) b s = Inr (of_nat l, hl, s') \<and> l \<le> 65535 \<and>
    status_wf s' \<and> sp_sn_size s' = sp_sn_size s"
  using assms
proof (induction ss arbitrary: n b s)
  case Nil
  then show ?case by auto
next
  case (Cons t ss)
  let ?nack = "rlc_am_status_nack_init\<lparr>nack_sn := i, has_so := True, so_start := ucast (of_nat n :: u32),
                                        so_end := ams_so t - 1\<rparr>"
  let ?s = "if ucast (ams_so t) \<noteq> (of_nat n :: u32) then push_nack s ?nack else s"
  have t: "seg_ok t" "n \<le> unat (ams_so t)" "seg_end t \<le> 65535" using Cons.prems by (simp_all add: seg_ok_def)
  have eq: "ucast (ams_so t) = (of_nat n :: u32) \<longleftrightarrow> unat (ams_so t) = n"
    using Cons.prems(3) by (simp add: word_unat_eq_iff unat_of_nat)
  have ok: "\<not> so_start ?nack > so_end ?nack" if "unat (ams_so t) \<noteq> n"
  proof -
    have "ams_so t \<noteq> 0" using that t(2) by auto
    then have "unat (ams_so t - 1) = unat (ams_so t) - 1" by (simp add: unat_minus_one)
    with that t(2) Cons.prems(3) show ?thesis by (simp add: word_less_nat_alt)
  qed
  have s: "status_wf ?s" "mod_nr ?s = mod_nr s" "sp_sn_size ?s = sp_sn_size s"
    using Cons.prems(4,5)
    by (auto intro!: status_wf_push simp: nack_canon_def rlc_am_status_nack_init_def)
  have nx: "ucast (ams_so t) + of_nat (length (ams_payload t)) = (of_nat (seg_end t) :: u32)"
    by (simp add: seg_end_def)
  have "nack_segments i (t # ss) (of_nat n) b s =
      nack_segments i ss (of_nat (seg_end t)) (b \<or> ams_si t = Last_segment) ?s"
    using ok by (simp only: nack_segments.simps Let_def eq nx) auto
  moreover have "\<exists>l hl s'. nack_segments i ss (of_nat (seg_end t)) (b \<or> ams_si t = Last_segment) ?s =
      Inr (of_nat l, hl, s') \<and> l \<le> 65535 \<and> status_wf s' \<and> sp_sn_size s' = sp_sn_size ?s"
    using Cons.prems(1,5) t s(1,2) by (intro Cons.IH) simp_all
  ultimately show ?case using s(3) by simp
qed

lemma nack_sdu_spec:
  assumes "rx_window_ok cfg e" "status_wf s" "i < mod_nr s"
  shows "\<exists>s'. nack_sdu cfg e i s = Inr s' \<and> status_wf s' \<and> sp_sn_size s' = sp_sn_size s"
proof (cases "rx_look cfg e i")
  case None
  then have "nack_sdu cfg e i s = Inr (push_nack s (rlc_am_status_nack_init\<lparr>nack_sn := i, has_so := False\<rparr>))"
    by (simp add: nack_sdu_def complete_look win_has_look)
  then show ?thesis
    using assms(2,3) by (auto intro!: status_wf_push simp: nack_canon_def rlc_am_status_nack_init_def)
next
  case (Some info)
  show ?thesis
  proof (cases "ami_fully_received info")
    case True
    with Some have "nack_sdu cfg e i s = Inr s" by (simp add: nack_sdu_def complete_look)
    with assms show ?thesis by simp
  next
    case False
    with Some assms(1) have "info_inv info" by (auto simp: rx_window_ok_def)
    with False have "segs_ok (ami_segments info)" by (simp add: info_inv_def)
    then obtain l hl s1 where l: "nack_segments i (ami_segments info) 0 False s = Inr (of_nat l, hl, s1)"
      "l \<le> 65535" "status_wf s1" "sp_sn_size s1 = sp_sn_size s"
      using nack_segments_spec [of "ami_segments info" 0 s i False] assms(2,3) by auto
    let ?n = "rlc_am_status_nack_init\<lparr>nack_sn := i, has_so := True, so_start := ucast (of_nat l :: u32),
        so_end := so_end_of_sdu\<rparr>"
    have "so_start ?n \<le> so_end ?n"
      using l(2) by (simp add: word_le_nat_alt so_end_of_sdu_def)
    then have r: "nack_sdu cfg e i s = Inr (if hl then s1 else push_nack s1 ?n)"
      using Some False l(1) by (simp add: nack_sdu_def complete_look win_has_look win_get_look)
    have "nack_canon (mod_nr s1) ?n"
      using assms(3) l(4) by (simp add: nack_canon_def rlc_am_status_nack_init_def mod_nr_def)
    then have "status_wf (push_nack s1 ?n)" by (rule status_wf_push [OF l(3)])
    with r l(3,4) show ?thesis by (cases hl) simp_all
  qed
qed

lemma nack_loop_spec:
  assumes "rx_window_ok cfg e" "status_wf s" "i < amrx_mod cfg" "sp_sn_size s = rxam_sn_field_length cfg"
  shows "\<exists>s'. nack_loop cfg e i s = Inr s' \<and> status_wf s' \<and> sp_sn_size s' = sp_sn_size s"
  using assms
proof (induction cfg e i s rule: nack_loop.induct)
  case (1 cfg e i s)
  have "i < mod_nr s" using "1.prems" by (simp add: mod_nr_def amrx_mod_def)
  then obtain s1 where s1: "nack_sdu cfg e i s = Inr s1" "status_wf s1" "sp_sn_size s1 = sp_sn_size s"
    using nack_sdu_spec "1.prems" by blast
  show ?case
  proof (cases "rx_mod_base cfg e i < rx_mod_base cfg e (rx_highest_status e)")
    case True
    then have "nack_loop cfg e i s = nack_loop cfg e ((i + 1) mod amrx_mod cfg) s1"
      using s1(1) by (subst nack_loop.simps) simp
    with "1.IH" [OF True s1(1)] "1.prems" s1(2,3) rx_mod_less show ?thesis by simp
  next
    case False
    then have "nack_loop cfg e i s = Inr s" by (subst nack_loop.simps) simp
    with "1.prems" show ?thesis by simp
  qed
qed

lemma status_init_sn_size: "sp_sn_size (rlc_am_status_pdu_init sz) = sz"
  by (simp add: rlc_am_status_pdu_init_def)

lemma refresh_spec:
  assumes "amrx_inv cfg e"
  shows "\<exists>s. refresh_status_report cfg e = Inr (store_status_report s e) \<and> amrx_inv cfg (store_status_report s e)"
proof -
  have win: "rx_window_ok cfg e" and vars: "rx_next e < amrx_mod cfg" "rx_highest_status e < amrx_mod cfg"
    using assms by (simp_all add: amrx_inv_def rx_vars_ok_def)
  obtain s where s: "nack_loop cfg e (rx_next e) (rlc_am_status_pdu_init (rxam_sn_field_length cfg)) = Inr s"
    "status_wf s" "sp_sn_size s = rxam_sn_field_length cfg"
    using nack_loop_spec [OF win status_wf_init vars(1) status_init_sn_size] status_init_sn_size by metis
  let ?s = "s\<lparr>sp_ack_sn := rx_highest_status e\<rparr>"
  have "refresh_status_report cfg e = Inr (store_status_report ?s e)"
    by (simp add: refresh_status_report_def s(1))
  moreover have "amrx_inv cfg (store_status_report ?s e)"
    using assms s(2,3) vars(2)
    by (simp add: store_status_report_def amrx_inv_def rx_vars_ok_def rx_window_ok_def rx_report_ok_def
        complete_look rx_trigger_ok_def)
  ultimately show ?thesis by blast
qed

section \<open>The handlers keep the invariant\<close>

text \<open>A PDU whose segment, if it is one, ends within the range of the segment offset.\<close>

definition am_pdu_fits :: "rlc_rx_am_config \<Rightarrow> bytes \<Rightarrow> bool" where
  "am_pdu_fits cfg buf \<longleftrightarrow>
    (case rlc_am_read_data_pdu_header buf (rxam_sn_field_length cfg) rlc_am_pdu_header_init of
       None \<Rightarrow> True
     | Some h \<Rightarrow> am_si h = Full_sdu \<or> unat (am_so h) + (length buf - am_get_packed_size h) \<le> 65535)"

text \<open>The state after a PDU is stored and RX_Next_Highest is updated.\<close>

definition rx_stored :: "rlc_rx_am_config \<Rightarrow> u32 \<Rightarrow> rlc_rx_am_sdu_info am_win \<Rightarrow> rlc_rx_am_entity \<Rightarrow> rlc_rx_am_entity" where
  "rx_stored cfg sn w e =
    (if rx_mod_base cfg e sn \<ge> rx_mod_base cfg e (rx_next_highest e)
     then e\<lparr>rx_window := w, rx_next_highest := (sn + 1) mod amrx_mod cfg\<rparr> else e\<lparr>rx_window := w\<rparr>)"

lemma rx_stored_sel [simp]:
  "rx_next (rx_stored cfg sn w e) = rx_next e" "rx_window (rx_stored cfg sn w e) = w"
  "rx_highest_status (rx_stored cfg sn w e) = rx_highest_status e"
  "rx_next_status_trigger (rx_stored cfg sn w e) = rx_next_status_trigger e"
  "reassembly_timer (rx_stored cfg sn w e) = reassembly_timer e"
  "status_report (rx_stored cfg sn w e) = status_report e"
  "status_report_size (rx_stored cfg sn w e) = status_report_size e"
  by (simp_all add: rx_stored_def)

lemma rx_stored_mid:
  assumes inv: "amrx_inv cfg e" and sn: "sn < amrx_mod cfg" "rx_off cfg e sn < rx_W cfg" and i: "info_inv i"
    and w: "win_look (rxam_sn_field_length cfg) w = (rx_look cfg e)(sn \<mapsto> i)"
      "win_ok (rxam_sn_field_length cfg) (rx_next e) w"
  shows "rx_mid cfg sn (rx_stored cfg sn w e)"
proof -
  let ?e = "rx_stored cfg sn w e" and ?o = "rx_off cfg e" and ?nh = "rx_next_highest e"
  have o: "rx_off cfg ?e = ?o" by (rule rx_off_cong) simp
  have vars: "rx_vars_ok cfg e" and win: "rx_window_ok cfg e" using inv by (simp_all add: amrx_inv_def)
  have s: "?o ((sn + 1) mod amrx_mod cfg) = Suc (?o sn)"
    using sn(2) rx_mod_double [of cfg] by (intro rx_off_succ) simp
  have nh: "rx_next_highest ?e = (if ?o ?nh \<le> ?o sn then (sn + 1) mod amrx_mod cfg else ?nh)"
    by (simp add: rx_stored_def rx_base_ge)
  have onh: "?o (rx_next_highest ?e) = (if ?o ?nh \<le> ?o sn then Suc (?o sn) else ?o ?nh)"
    by (simp add: nh s)
  have vars': "rx_vars_ok cfg ?e"
    using vars sn(2) rx_mod_less unfolding rx_vars_ok_def o onh by (auto simp: nh)
  have "rx_off cfg e x < ?o (rx_next_highest ?e) \<and> info_inv j" if "win_look (rxam_sn_field_length cfg) w x = Some j" for x j
  proof (cases "x = sn")
    case True
    with that i show ?thesis by (simp add: w(1) onh)
  next
    case False
    with that win have "info_inv j" "?o x < ?o ?nh" unfolding rx_window_ok_def by (auto simp: w(1))
    then show ?thesis by (simp add: onh)
  qed
  moreover have "\<exists>x \<in> dom (win_look (rxam_sn_field_length cfg) w). Suc (?o x) = ?o (rx_next_highest ?e)"
  proof (cases "?o ?nh \<le> ?o sn")
    case True
    then show ?thesis by (intro bexI [of _ sn]) (simp_all add: onh w(1))
  next
    case False
    then obtain x where "x \<in> dom (rx_look cfg e)" "Suc (?o x) = ?o ?nh"
      using win by (auto simp: rx_window_ok_def)
    with False show ?thesis by (intro bexI [of _ x]) (simp_all add: onh w(1))
  qed
  ultimately have win': "rx_window_ok cfg ?e" using w(2) unfolding rx_window_ok_def o by simp
  have comp: "amrx_complete cfg ?e x \<Longrightarrow> x = sn" if "\<not> amrx_complete cfg e x" for x
    using that by (auto simp: complete_look w(1) split: if_splits)
  have "rx_trigger_ok cfg e \<Longrightarrow> rx_trigger_ok cfg ?e"
    by (auto simp: rx_trigger_ok_def o w(1))
  then show ?thesis
    using inv vars' win' sn(1) comp by (auto simp: rx_mid_def amrx_inv_def rx_report_ok_def)
qed

text \<open>The states a data PDU leads through, for a PDU that is neither out of the window nor a duplicate.\<close>

lemma data_body_spec:
  assumes inv: "amrx_inv cfg e"
    and h: "rlc_am_read_data_pdu_header buf (rxam_sn_field_length cfg) rlc_am_pdu_header_init = Some h"
      "am_get_packed_size h < length buf"
    and fits: "am_si h = Full_sdu \<or> unat (am_so h) + (length buf - am_get_packed_size h) \<le> 65535"
    and fresh: "inside_rx_window cfg e (am_sn h)" "\<not> amrx_complete cfg e (am_sn h)"
    and new: "amrx_new_info h (drop (am_get_packed_size h) buf) (rx_old_info cfg e (am_sn h)) = (ch, i)"
  shows "\<exists>w r hs w' b. amrx_data_body cfg buf e =
      Inr (ch, am_p h \<noteq> 0, if ami_fully_received i then [Am_new_sdu (ami_sdu i)] else [],
        amrx_timer_start cfg ((rx_stored cfg (am_sn h) w e)
          \<lparr>rx_highest_status := hs, rx_window := w', rx_next := r, reassembly_timer := b\<rparr>)) \<and>
    amrx_inv cfg (amrx_timer_start cfg ((rx_stored cfg (am_sn h) w e)
          \<lparr>rx_highest_status := hs, rx_window := w', rx_next := r, reassembly_timer := b\<rparr>)) \<and>
    win_look (rxam_sn_field_length cfg) w = (rx_look cfg e)(am_sn h \<mapsto> i) \<and>
    win_look (rxam_sn_field_length cfg) w' =
      (\<lambda>x. if rx_off cfg e x < rx_off cfg e r then None
        else ((rx_look cfg e)(am_sn h \<mapsto> (if ami_fully_received i then i\<lparr>ami_sdu := []\<rparr> else i))) x) \<and>
    (\<forall>x. x < amrx_mod cfg \<longrightarrow> rx_off cfg e x < rx_off cfg e r \<longrightarrow>
      amrx_complete cfg (rx_stored cfg (am_sn h) w e) x) \<and>
    rx_off cfg e r \<le> rx_W cfg"
proof -
  let ?sz = "rxam_sn_field_length cfg" and ?sn = "am_sn h" and ?p = "drop (am_get_packed_size h) buf"
  have win: "rx_window_ok cfg e" and wok: "win_ok ?sz (rx_next e) (rx_window e)"
    using inv by (simp_all add: amrx_inv_def rx_window_ok_def)
  have sn: "?sn < amrx_mod cfg" using am_read_sn_bound [OF h(1)] by (simp add: amrx_mod_def)
  have off: "rx_off cfg e ?sn < rx_W cfg" using fresh(1) by (simp add: inside_off)
  have old: "info_inv (rx_old_info cfg e ?sn)" "\<not> ami_fully_received (rx_old_info cfg e ?sn)"
    using win fresh(2)
    by (auto simp: rx_old_info_def rx_window_ok_def complete_look rlc_rx_am_sdu_info_init_def
        info_inv_def split: option.splits)
  have inv_i: "info_inv i" using fits h(2) by (intro new_info_inv [OF old new]) auto
  obtain w where w: "(if am_si h = Full_sdu then handle_full_data_sdu cfg h ?p e
      else handle_segment_data_sdu cfg h ?p e) = Inr (ch, e\<lparr>rx_window := w\<rparr>)"
    "win_look ?sz w = (rx_look cfg e)(?sn \<mapsto> i)" "win_ok ?sz (rx_next e) w"
    using store_pdu_spec [OF wok sn off new] by blast
  define e2 where "e2 = rx_stored cfg ?sn w e"
  have mid: "rx_mid cfg ?sn e2" unfolding e2_def by (rule rx_stored_mid [OF inv sn off inv_i w(2,3)])
  have look2: "rx_look cfg e2 = (rx_look cfg e)(?sn \<mapsto> i)" by (simp add: e2_def w(2))
  have o2: "rx_off cfg e2 = rx_off cfg e" by (rule rx_off_cong) (simp add: e2_def)
  have "rx_look cfg e2 ?sn = Some i" by (simp add: look2)
  from sdu_complete_spec [OF mid this, unfolded o2 look2] obtain r hs w' where
    r: "amrx_sdu_complete cfg ?sn e2 = Inr (if ami_fully_received i then [Am_new_sdu (ami_sdu i)] else [],
           e2\<lparr>rx_highest_status := hs, rx_window := w', rx_next := r\<rparr>)"
    "rx_settled cfg (e2\<lparr>rx_highest_status := hs, rx_window := w', rx_next := r\<rparr>)"
    "win_look ?sz w' = (\<lambda>x. if rx_off cfg e x < rx_off cfg e r then None
        else ((rx_look cfg e)(?sn \<mapsto> i, ?sn \<mapsto> (if ami_fully_received i then i\<lparr>ami_sdu := []\<rparr> else i))) x)"
    "\<forall>x. x < amrx_mod cfg \<longrightarrow> rx_off cfg e x < rx_off cfg e r \<longrightarrow> amrx_complete cfg e2 x"
    "rx_off cfg e r \<le> rx_W cfg"
    by blast
  let ?e3 = "e2\<lparr>rx_highest_status := hs, rx_window := w', rx_next := r\<rparr>"
  obtain b where b: "amrx_timer_stop cfg ?e3 = Inr (?e3\<lparr>reassembly_timer := b\<rparr>)" "b \<longrightarrow> rx_trigger_ok cfg ?e3"
    using timer_stop_spec [OF r(2)] by blast
  have e2: "(let e = e\<lparr>rx_window := w\<rparr> in
      if rx_mod_base cfg e ?sn \<ge> rx_mod_base cfg e (rx_next_highest e)
      then e\<lparr>rx_next_highest := (?sn + 1) mod amrx_mod cfg\<rparr> else e) = e2"
    by (simp add: e2_def rx_stored_def)
  have "amrx_data_body cfg buf e =
      Inr (ch, am_p h \<noteq> 0, if ami_fully_received i then [Am_new_sdu (ami_sdu i)] else [],
        amrx_timer_start cfg (?e3\<lparr>reassembly_timer := b\<rparr>))"
    using h(1,2) fresh w(1) r(1) b(1) e2 by (simp add: amrx_data_body_def Let_def not_le)
  moreover have "amrx_inv cfg (amrx_timer_start cfg (?e3\<lparr>reassembly_timer := b\<rparr>))"
    using timer_start_inv [OF r(2) b(2)] .
  ultimately show ?thesis
    using w(2) r(3-5) unfolding e2_def fun_upd_upd
    apply -
    apply (rule exI [of _ w], rule exI [of _ r], rule exI [of _ hs], rule exI [of _ w'], rule exI [of _ b])
    apply (intro conjI; assumption)
    done
qed

lemma data_body_inv:
  assumes inv: "amrx_inv cfg e" and fits: "am_pdu_fits cfg buf"
  shows "\<exists>ch rq evs e'. amrx_data_body cfg buf e = Inr (ch, rq, evs, e') \<and> amrx_inv cfg e'"
proof (cases "rlc_am_read_data_pdu_header buf (rxam_sn_field_length cfg) rlc_am_pdu_header_init")
  case None
  with inv show ?thesis by (simp add: amrx_data_body_def)
next
  case (Some h)
  show ?thesis
  proof (cases "am_get_packed_size h < length buf \<and> inside_rx_window cfg e (am_sn h) \<and> \<not> amrx_complete cfg e (am_sn h)")
    case True
    obtain ch i where new: "amrx_new_info h (drop (am_get_packed_size h) buf) (rx_old_info cfg e (am_sn h)) = (ch, i)"
      by fastforce
    have "am_si h = Full_sdu \<or> unat (am_so h) + (length buf - am_get_packed_size h) \<le> 65535"
      using fits Some by (simp add: am_pdu_fits_def)
    with data_body_spec [OF inv Some _ _ _ _ new] True show ?thesis by blast
  next
    case False
    with Some inv show ?thesis
      by (cases "length buf \<le> am_get_packed_size h"; cases "inside_rx_window cfg e (am_sn h)")
        (auto simp: amrx_data_body_def Let_def)
  qed
qed

lemma inv_flags:
  "amrx_inv cfg (e\<lparr>do_status := a\<rparr>) \<longleftrightarrow> amrx_inv cfg e"
  "amrx_inv cfg (e\<lparr>status_prohibit_timer_is_running := a\<rparr>) \<longleftrightarrow> amrx_inv cfg e"
  "amrx_inv cfg (e\<lparr>status_prohibit_timer := a\<rparr>) \<longleftrightarrow> amrx_inv cfg e"
  "amrx_inv cfg (e\<lparr>deferred_prohibit_starts := n\<rparr>) \<longleftrightarrow> amrx_inv cfg e"
  by (simp_all add: amrx_inv_def rx_vars_ok_def rx_window_ok_def rx_report_ok_def complete_look rx_trigger_ok_def)

lemma handle_data_pdu_inv:
  assumes "amrx_inv cfg e" "am_pdu_fits cfg buf"
  shows "\<exists>evs e'. handle_data_pdu cfg buf e = Inr (evs, e') \<and> amrx_inv cfg e'"
proof -
  obtain ch rq evs e1 where b: "amrx_data_body cfg buf e = Inr (ch, rq, evs, e1)" "amrx_inv cfg e1"
    using data_body_inv [OF assms] by blast
  obtain e2 where e2: "(if ch then refresh_status_report cfg e1 else Inr e1) = Inr e2" "amrx_inv cfg e2"
    using refresh_spec [OF b(2)] b(2) by (cases ch) auto
  then show ?thesis
    using b(1) by (cases rq) (auto simp: handle_data_pdu_def Let_def inv_flags)
qed

lemma handle_pdu_inv:
  assumes "amrx_inv cfg e" "am_pdu_fits cfg buf"
  shows "\<exists>evs e'. amrx_handle_pdu cfg buf e = Inr (evs, e') \<and> amrx_inv cfg e'"
  using handle_data_pdu_inv [OF assms] assms(1)
  by (cases buf) (auto simp: amrx_handle_pdu_def is_control_pdu_def)

lemma expired_inv:
  assumes inv: "amrx_inv cfg (e\<lparr>reassembly_timer := True\<rparr>)"
  shows "\<exists>evs e'. on_expired_reassembly_timer cfg (e\<lparr>reassembly_timer := False\<rparr>) = Inr (evs, e') \<and> amrx_inv cfg e'"
proof -
  let ?e = "e\<lparr>reassembly_timer := False\<rparr>" and ?o = "rx_off cfg e" and ?t = "rx_next_status_trigger e"
  have vars: "rx_vars_ok cfg ?e" and win: "rx_window_ok cfg ?e" and rep: "rx_report_ok cfg ?e"
    and nc: "\<not> amrx_complete cfg ?e (rx_next e)"
    and trig: "rx_trigger_ok cfg ?e"
    using inv by (auto simp: amrx_inv_def rx_vars_ok_def rx_window_ok_def rx_report_ok_def complete_look
        rx_trigger_ok_def)
  obtain x where x: "x \<in> dom (rx_look cfg ?e)" "Suc (?o x) = ?o ?t"
    using trig by (auto simp: rx_trigger_ok_def)
  have xn: "?o x < ?o (rx_next_highest e)"
  proof -
    from x(1) obtain j where "rx_look cfg ?e x = Some j" by blast
    with win have "rx_off cfg ?e x < rx_off cfg ?e (rx_next_highest ?e)" unfolding rx_window_ok_def by blast
    then show ?thesis by simp
  qed
  have t: "?t < amrx_mod cfg" "?o ?t \<le> ?o (rx_next_highest e)" "?o (rx_next_highest e) \<le> rx_W cfg" "0 < ?o ?t"
    using vars x(2) xn by (simp_all add: rx_vars_ok_def)
  define u where "u = amrx_first_incomplete cfg ?e ?t"
  have u: "u < amrx_mod cfg" "?o ?t \<le> ?o u" "?o u \<le> ?o (rx_next_highest e)" "\<not> amrx_complete cfg ?e u"
    using first_incomplete_spec [OF t(1) _ win] t(2) by (simp_all add: u_def)
  have va: "amrx_valid_ack_sn cfg ?e ?t" "amrx_valid_ack_sn cfg ?e u"
    using t u by (simp_all add: valid_ack_off)
  let ?e1 = "?e\<lparr>rx_highest_status := u\<rparr>"
  have set1: "rx_settled cfg ?e1"
    using vars win rep nc u by (simp add: rx_settled_def rx_vars_ok_def rx_window_ok_def rx_report_ok_def complete_look)
  define c where "c \<longleftrightarrow> rx_mod_base cfg ?e1 (rx_next_highest ?e1) > rx_mod_base cfg ?e1 (rx_highest_status ?e1 + 1) \<or>
      rx_mod_base cfg ?e1 (rx_next_highest ?e1) = rx_mod_base cfg ?e1 (rx_highest_status ?e1 + 1) \<and>
        amrx_has_gap cfg ?e1 (rx_highest_status ?e1)"
  define e2 where "e2 = (if c then ?e1\<lparr>reassembly_timer := True, rx_next_status_trigger := rx_next_highest ?e1\<rparr> else ?e1)"
  have inv2: "amrx_inv cfg e2"
  proof (cases c)
    case True
    have "0 < ?o (rx_next_highest e)" using t by simp
    then have "rx_trigger_ok cfg (?e1\<lparr>rx_next_status_trigger := rx_next_highest ?e1\<rparr>)"
      using win by (simp add: rx_trigger_ok_def rx_window_ok_def)
    with inv_timer_upd [OF set1, of True "rx_next_highest ?e1"] vars True show ?thesis
      by (simp add: e2_def rx_vars_ok_def)
  next
    case False
    have "amrx_inv cfg (?e1\<lparr>reassembly_timer := False, rx_next_status_trigger := ?t\<rparr>)"
      by (rule inv_timer_upd [OF set1]) (simp_all add: t(1))
    moreover have "?e1\<lparr>reassembly_timer := False, rx_next_status_trigger := ?t\<rparr> = ?e1" by simp
    ultimately show ?thesis using False by (simp only: e2_def if_False)
  qed
  obtain s where s: "refresh_status_report cfg e2 = Inr (store_status_report s e2)" "amrx_inv cfg (store_status_report s e2)"
    using refresh_spec [OF inv2] by blast
  have "on_expired_reassembly_timer cfg ?e = (case refresh_status_report cfg e2 of
           Inl f \<Rightarrow> Inl f
         | Inr e \<Rightarrow> (let e = e\<lparr>do_status := True\<rparr> in Inr (notify_status_report_changed e, e)))"
    using va unfolding on_expired_reassembly_timer_def e2_def c_def u_def by (simp add: Let_def)
  then show ?thesis using s by (simp add: Let_def inv_flags)
qed

section \<open>Runs\<close>

text \<open>
  The calls the entity receives: PDUs from the lower layer, the transmitting entity fetching the
  status PDU, the deferred start of the prohibit timer and the expiry of a timer that is running.
\<close>

datatype amrx_call =
    Rx_pdu bytes
  | Rx_get_status bool
  | Rx_prohibit_start
  | Rx_prohibit_expiry
  | Rx_reassembly_expiry

fun amrx_step :: "rlc_rx_am_config \<Rightarrow> amrx_call \<Rightarrow> rlc_rx_am_entity \<Rightarrow> (rlc_am_rx_event list \<times> rlc_rx_am_entity) res" where
  "amrx_step cfg (Rx_pdu buf) e = amrx_handle_pdu cfg buf e"
| "amrx_step cfg (Rx_get_status defer_ok) e = Inr ([], snd (get_status_pdu cfg defer_ok e))"
| "amrx_step cfg Rx_prohibit_start e =
    Inr ([], if deferred_prohibit_starts e = 0 then e else amrx_run_prohibit_start e)"
| "amrx_step cfg Rx_prohibit_expiry e =
    (if status_prohibit_timer e
     then Inr (on_expired_status_prohibit_timer (e\<lparr>status_prohibit_timer := False\<rparr>)) else Inr ([], e))"
| "amrx_step cfg Rx_reassembly_expiry e =
    (if reassembly_timer e then on_expired_reassembly_timer cfg (e\<lparr>reassembly_timer := False\<rparr>) else Inr ([], e))"

fun amrx_run :: "rlc_rx_am_config \<Rightarrow> amrx_call list \<Rightarrow> rlc_rx_am_entity \<Rightarrow> (rlc_am_rx_event list \<times> rlc_rx_am_entity) res" where
  "amrx_run cfg [] e = Inr ([], e)"
| "amrx_run cfg (c # cs) e =
    (case amrx_step cfg c e of
       Inl f \<Rightarrow> Inl f
     | Inr (evs, e) \<Rightarrow>
         (case amrx_run cfg cs e of Inl f \<Rightarrow> Inl f | Inr (evs', e) \<Rightarrow> Inr (evs @ evs', e)))"

definition call_fits :: "rlc_rx_am_config \<Rightarrow> amrx_call \<Rightarrow> bool" where
  "call_fits cfg c = (case c of Rx_pdu buf \<Rightarrow> am_pdu_fits cfg buf | _ \<Rightarrow> True)"

lemma amrx_step_inv:
  assumes "amrx_inv cfg e" "call_fits cfg c"
  shows "\<exists>evs e'. amrx_step cfg c e = Inr (evs, e') \<and> amrx_inv cfg e'"
proof (cases c)
  case (Rx_pdu buf)
  with assms handle_pdu_inv show ?thesis by (simp add: call_fits_def)
next
  case Rx_reassembly_expiry
  show ?thesis
  proof (cases "reassembly_timer e")
    case True
    have "amrx_inv cfg (e\<lparr>reassembly_timer := reassembly_timer e\<rparr>)" using assms(1) by simp
    then have "amrx_inv cfg (e\<lparr>reassembly_timer := True\<rparr>)" by (simp only: True)
    with expired_inv [of cfg e] True Rx_reassembly_expiry show ?thesis by simp
  qed (use assms(1) Rx_reassembly_expiry in simp)
qed (use assms(1) in \<open>auto simp: get_status_pdu_def Let_def inv_flags amrx_run_prohibit_start_def
    on_expired_status_prohibit_timer_def\<close>)

lemma amrx_run_inv:
  "amrx_inv cfg e \<Longrightarrow> list_all (call_fits cfg) cs \<Longrightarrow>
    \<exists>evs e'. amrx_run cfg cs e = Inr (evs, e') \<and> amrx_inv cfg e'"
proof (induction cs arbitrary: e)
  case (Cons c cs)
  then obtain evs e1 where 1: "amrx_step cfg c e = Inr (evs, e1)" "amrx_inv cfg e1"
    using amrx_step_inv [of cfg e c] by auto
  with Cons obtain evs' e2 where "amrx_run cfg cs e1 = Inr (evs', e2)" "amrx_inv cfg e2" by fastforce
  with 1 show ?case by simp
qed simp

lemma sum_case_Inl: "(case r of Inl f \<Rightarrow> f = x | Inr _ \<Rightarrow> False) \<Longrightarrow> r = Inl x"
  by (cases r) simp_all

section \<open>Properties\<close>

text \<open>C7: Whatever PDUs arrive (any bytes, as long as a segment ends within the 16-bit offset range), however
  timers expire and status PDUs are fetched, the receiving AM entity never fails an assertion, and
  between any two calls its invariant holds: RX_Next and RX_Highest_Status are SNs not completely
  received, in the order RX_Next, RX_Highest_Status, RX_Next_Highest within one window, the window holds
  only SNs below RX_Next_Highest with disjoint segments, a running timer has a trigger inside the
  window, and the cached report is well formed with its size.\<close>

theorem am_rx_never_fails:
  assumes "list_all (call_fits cfg) cs"
  shows "\<exists>evs e. amrx_run cfg cs (rlc_rx_am_entity_init cfg) = Inr (evs, e) \<and> amrx_inv cfg e"
  using amrx_run_inv [OF amrx_inv_init assms] .

theorem am_rx_never_fails_witness:
  "let cfg = \<lparr>rxam_sn_field_length = Am_size12bits, rxam_t_reassembly = 35, rxam_t_status_prohibit = 10\<rparr> in
    \<exists>evs e. amrx_run cfg [Rx_pdu [0x80, 1, 7, 8], Rx_pdu [0xb0, 0, 0, 5, 9], Rx_reassembly_expiry]
      (rlc_rx_am_entity_init cfg) = Inr (evs, e)"
proof -
  let ?cfg = "\<lparr>rxam_sn_field_length = Am_size12bits, rxam_t_reassembly = 35, rxam_t_status_prohibit = 10\<rparr>"
  have "list_all (call_fits ?cfg) [Rx_pdu [0x80, 1, 7, 8], Rx_pdu [0xb0, 0, 0, 5, 9], Rx_reassembly_expiry]"
    by (simp add: call_fits_def am_pdu_fits_def rlc_am_read_data_pdu_header_def rlc_am_read_so_def
        si_of_number_def)
  from am_rx_never_fails [OF this] show ?thesis unfolding Let_def by blast
qed


end
