(* ===== verification/Rlc_Am.thy ===== *)
theory Rlc_Am
  imports Rlc_Tx_Am_Inv Rlc_Rx_Am_Inv
begin

text \<open>
  The AM bearer (\<open>lib/rlc/rlc_am_entity.h\<close>): a transmitting and a receiving entity that use each other
  through the interfaces of \<open>rlc_am_interconnect.h\<close>.  The transmitter asks the receiver for status
  PDUs; the receiver hands received status PDUs to the transmitter, through a task of the cell
  executor, and tells it when the status report changed.  The calls from outside are steps of a state
  machine; the theorems cover every state it reaches.
\<close>

section \<open>State and steps\<close>

record rlc_am_config =
  am_tx_cfg :: rlc_tx_am_config
  am_rx_cfg :: rlc_rx_am_config

record rlc_am_entity =
  am_tx :: rlc_tx_am_entity
  am_rx :: rlc_rx_am_entity
  am_status_tasks :: "rlc_am_status_pdu list"

definition rlc_am_entity_init :: "rlc_am_config \<Rightarrow> u16 \<Rightarrow> nat \<Rightarrow> rlc_am_entity" where
  "rlc_am_entity_init cfg capacity ring_size =
    \<lparr>am_tx = rlc_tx_am_entity_init capacity ring_size, am_rx = rlc_rx_am_entity_init (am_rx_cfg cfg),
     am_status_tasks = []\<rparr>"

datatype am_output =
    Am_deliver bytes
  | Am_notify rlc_tx_event
  | Am_tx_pdu bytes

text \<open>\<open>on_status_pdu\<close>: the status PDU waits in the executor's queue, if that takes the task.\<close>

definition on_status_pdu :: "bool \<Rightarrow> rlc_am_status_pdu \<Rightarrow> rlc_am_entity \<Rightarrow> rlc_am_entity" where
  "on_status_pdu execute_ok status a =
    (if execute_ok then a\<lparr>am_status_tasks := am_status_tasks a @ [status]\<rparr> else a)"

text \<open>What the notifications of the receiving entity do.\<close>

fun am_rx_events :: "bool \<Rightarrow> rlc_am_rx_event list \<Rightarrow> rlc_am_entity \<Rightarrow> am_output list \<times> rlc_am_entity" where
  "am_rx_events ok [] a = ([], a)"
| "am_rx_events ok (Am_new_sdu sdu # evs) a = (case am_rx_events ok evs a of (outs, a) \<Rightarrow> (Am_deliver sdu # outs, a))"
| "am_rx_events ok (Am_status_pdu status # evs) a = am_rx_events ok evs (on_status_pdu ok status a)"
| "am_rx_events ok (Am_status_report_changed # evs) a =
    am_rx_events ok evs (a\<lparr>am_tx := on_status_report_changed ok (am_tx a)\<rparr>)"

definition am_rx_step ::
  "rlc_am_config \<Rightarrow> bool \<Rightarrow> amrx_call \<Rightarrow> rlc_am_entity \<Rightarrow> (am_output list \<times> rlc_am_entity) res" where
  "am_rx_step cfg ok c a =
    (case amrx_step (am_rx_cfg cfg) c (am_rx a) of
       Inl f \<Rightarrow> Inl f
     | Inr (evs, r) \<Rightarrow> Inr (am_rx_events ok evs (a\<lparr>am_rx := r\<rparr>)))"

definition am_tx_result ::
  "rlc_am_entity \<Rightarrow> (rlc_tx_event list \<times> rlc_tx_am_entity) res \<Rightarrow> (am_output list \<times> rlc_am_entity) res" where
  "am_tx_result a r =
    (case r of Inl f \<Rightarrow> Inl f | Inr (evs, e) \<Rightarrow> Inr (map Am_notify evs, a\<lparr>am_tx := e\<rparr>))"

text \<open>
  The calls from outside.  The flags say whether the executor takes the tasks a call hands over; the
  tasks run as steps of their own, and a timer expires only while it runs.
\<close>

datatype am_call =
    Am_sdu bool rlc_sdu
  | Am_discard bool u32
  | Am_pull bool u32
  | Am_pdu bool bytes
  | Am_reassembly_expiry bool
  | Am_prohibit_expiry bool
  | Am_poll_expiry
  | Am_prohibit_start_task
  | Am_status_task
  | Am_update_task

fun am_step :: "rlc_am_config \<Rightarrow> am_call \<Rightarrow> rlc_am_entity \<Rightarrow> (am_output list \<times> rlc_am_entity) res" where
  "am_step cfg (Am_sdu ok sdu) a =
    (case amtx_handle_sdu ok sdu (am_tx a) of Inl f \<Rightarrow> Inl f | Inr (_, e) \<Rightarrow> Inr ([], a\<lparr>am_tx := e\<rparr>))"
| "am_step cfg (Am_discard ok sn) a =
    (case amtx_discard_sdu ok sn (am_tx a) of Inl f \<Rightarrow> Inl f | Inr (_, e) \<Rightarrow> Inr ([], a\<lparr>am_tx := e\<rparr>))"
| "am_step cfg (Am_pull ok grant_len) a =
    (case amtx_pull_pdu (am_rx_cfg cfg) (am_tx_cfg cfg) ok grant_len (am_rx a) (am_tx a) of
       Inl f \<Rightarrow> Inl f
     | Inr (pdu, evs, r, e) \<Rightarrow> Inr (map Am_notify evs @ [Am_tx_pdu pdu], a\<lparr>am_rx := r, am_tx := e\<rparr>))"
| "am_step cfg (Am_pdu ok buf) a = am_rx_step cfg ok (Rx_pdu buf) a"
| "am_step cfg (Am_reassembly_expiry ok) a = am_rx_step cfg ok Rx_reassembly_expiry a"
| "am_step cfg (Am_prohibit_expiry ok) a = am_rx_step cfg ok Rx_prohibit_expiry a"
| "am_step cfg Am_poll_expiry a =
    (if poll_retransmit_timer (am_tx a)
     then am_tx_result a (on_expired_poll_retransmit_timer (am_tx_cfg cfg) (am_rx a)
            ((am_tx a)\<lparr>poll_retransmit_timer := False\<rparr>))
     else Inr ([], a))"
| "am_step cfg Am_prohibit_start_task a = am_rx_step cfg True Rx_prohibit_start a"
| "am_step cfg Am_status_task a =
    (case am_status_tasks a of
       [] \<Rightarrow> Inr ([], a)
     | status # tasks \<Rightarrow>
         am_tx_result (a\<lparr>am_status_tasks := tasks\<rparr>) (handle_status_pdu (am_tx_cfg cfg) status (am_rx a) (am_tx a)))"
| "am_step cfg Am_update_task a =
    (if deferred_updates (amtx_task (am_tx a)) = 0 then Inr ([], a)
     else am_tx_result a (Inr (amtx_run_update (am_tx_cfg cfg) (am_rx a) (am_tx a))))"

fun am_run :: "rlc_am_config \<Rightarrow> am_call list \<Rightarrow> rlc_am_entity \<Rightarrow> (am_output list \<times> rlc_am_entity) res" where
  "am_run cfg [] a = Inr ([], a)"
| "am_run cfg (c # cs) a =
    (case am_step cfg c a of
       Inl f \<Rightarrow> Inl f
     | Inr (outs, a) \<Rightarrow>
         (case am_run cfg cs a of Inl f \<Rightarrow> Inl f | Inr (outs', a) \<Rightarrow> Inr (outs @ outs', a)))"

section \<open>Reachable states\<close>

text \<open>
  What the neighbours guarantee: SDUs are not empty and fit the 16-bit offsets, segments in received
  PDUs end within the offset range, and the peer reports on what was sent only.
\<close>

definition am_call_ok :: "rlc_am_config \<Rightarrow> am_call \<Rightarrow> rlc_am_entity \<Rightarrow> bool" where
  "am_call_ok cfg c a \<longleftrightarrow>
    (case c of
       Am_sdu _ sdu \<Rightarrow> sdu_buf sdu \<noteq> [] \<and> length (sdu_buf sdu) \<le> 65535
     | Am_pdu _ buf \<Rightarrow> am_pdu_fits (am_rx_cfg cfg) buf
     | Am_status_task \<Rightarrow>
         (case am_status_tasks a of [] \<Rightarrow> True | status # _ \<Rightarrow> status_known (am_tx_cfg cfg) status (am_tx a))
     | _ \<Rightarrow> True)"

inductive am_reachable :: "rlc_am_config \<Rightarrow> rlc_am_entity \<Rightarrow> bool" for cfg where
  am_start: "unat capacity \<le> 2 ^ k \<Longrightarrow> k \<le> 31 \<Longrightarrow> am_reachable cfg (rlc_am_entity_init cfg capacity (2 ^ k))"
| am_next: "am_reachable cfg a \<Longrightarrow> am_call_ok cfg c a \<Longrightarrow> am_step cfg c a = Inr (outs, a') \<Longrightarrow> am_reachable cfg a'"

definition am_inv :: "rlc_am_config \<Rightarrow> rlc_am_entity \<Rightarrow> bool" where
  "am_inv cfg a \<longleftrightarrow> amtx_inv (am_tx_cfg cfg) (am_tx a) \<and> amrx_inv (am_rx_cfg cfg) (am_rx a)"

lemma am_rx_events_frame:
  "am_rx_events ok evs a = (outs, a') \<Longrightarrow>
    am_rx a' = am_rx a \<and> amtx_inv cfg (am_tx a') = amtx_inv cfg (am_tx a) \<and> (\<forall>pdu. Am_tx_pdu pdu \<notin> set outs)"
proof (induction ok evs a arbitrary: outs rule: am_rx_events.induct)
  case (2 ok sdu evs a)
  then show ?case by (auto split: prod.splits)
next
  case (3 ok status evs a)
  then show ?case by (simp add: on_status_pdu_def split: if_splits)
next
  case (4 ok evs a)
  then show ?case by (simp add: on_status_report_changed_def amtx_inv_def)
qed simp

lemma am_rx_step_ok:
  assumes "am_inv cfg a" "call_fits (am_rx_cfg cfg) c"
  shows "\<exists>outs a'. am_rx_step cfg ok c a = Inr (outs, a') \<and> am_inv cfg a' \<and> (\<forall>pdu. Am_tx_pdu pdu \<notin> set outs)"
proof -
  obtain evs r where r: "amrx_step (am_rx_cfg cfg) c (am_rx a) = Inr (evs, r)" "amrx_inv (am_rx_cfg cfg) r"
    using amrx_step_inv [OF _ assms(2)] assms(1) unfolding am_inv_def by blast
  obtain outs a' where o: "am_rx_events ok evs (a\<lparr>am_rx := r\<rparr>) = (outs, a')"
    by (cases "am_rx_events ok evs (a\<lparr>am_rx := r\<rparr>)")
  from am_rx_events_frame [OF this, of "am_tx_cfg cfg"] r assms(1) o show ?thesis
    by (simp add: am_rx_step_def am_inv_def)
qed

section \<open>Pulling PDUs\<close>

lemma pack_nacks_bound:
  "length (pack_nacks pack_nack_12bit ns) \<le> 8 * length ns" "length (pack_nacks pack_nack_18bit ns) \<le> 8 * length ns"
  by (induction ns) (simp_all add: pack_nack_12bit_def pack_nack_18bit_def pack_nack_so_def pack_nack_range_def Let_def)

lemma status_pack_bound: "length (status_pack s []) \<le> 3 + 8 * length (sp_nacks s)"
  using pack_nacks_bound [of "sp_nacks s"]
  by (cases "sp_sn_size s") (simp_all add: status_pack_def pack_12bit_def pack_18bit_def)

lemma status_pack_fits:
  assumes "status_sized s" "length (sp_nacks s) < 2 ^ 28" "sp_packed_size s \<le> g"
  shows "length (status_pack s []) \<le> unat g"
proof -
  have "length (status_pack s []) < 2 ^ 32" using status_pack_bound [of s] assms(2) by simp
  then have "unat (sp_packed_size s) = length (status_pack s [])"
    using status_pack_length [OF assms(1)] unat_of_nat_u32 by metis
  with assms(3) show ?thesis by (simp add: word_le_nat_alt)
qed

lemma pull_status_fits:
  assumes "status_sized (status_report r)" "length (sp_nacks (status_report r)) < 2 ^ 28"
    and "amtx_pull_status rcfg ok g r = (pdu, r')"
  shows "length pdu \<le> unat g"
proof -
  let ?s = "status_report r"
  have s: "fst (get_status_pdu rcfg ok r) = ?s" by (simp add: get_status_pdu_def Let_def)
  consider "pdu = []" | "pdu = status_pack ?s []" "sp_packed_size ?s \<le> g"
    | t where "status_trim ?s g = (True, t)" "pdu = status_pack t []"
    using assms(3) s by (cases "status_trim ?s g")
      (auto simp: amtx_pull_status_def split_beta Let_def split: if_splits bool.splits)
  then show ?thesis
  proof cases
    case 2
    then show ?thesis using status_pack_fits [OF assms(1,2)] by simp
  next
    case (3 t)
    obtain k where "t = trim_prefix ?s k" "sp_packed_size t \<le> g"
      using status_trim_prefix [OF assms(1) 3(1)] by blast
    then show ?thesis
      using status_pack_fits [of t g] assms(2) 3(2) by (simp add: trim_prefix_def status_sized_def)
  qed simp
qed

lemma pull_status_inv:
  "amrx_inv rcfg r \<Longrightarrow> amtx_pull_status rcfg ok g r = (pdu, r') \<Longrightarrow> amrx_inv rcfg r'"
  by (auto simp: amtx_pull_status_def get_status_pdu_def Let_def inv_flags split: if_splits prod.splits bool.splits)

lemma am_pull_ok:
  assumes inv: "am_inv cfg a"
  shows "\<exists>pdu outs a'. am_step cfg (Am_pull ok g) a = Inr (outs @ [Am_tx_pdu pdu], a') \<and> am_inv cfg a' \<and>
    (\<forall>pdu. Am_tx_pdu pdu \<notin> set outs) \<and>
    (if status_report_required (am_rx a)
     then am_tx a' = am_tx a \<and> amtx_pull_status (am_rx_cfg cfg) ok g (am_rx a) = (pdu, am_rx a')
     else am_rx a' = am_rx a \<and> tx_pulled (am_tx_cfg cfg) g (am_tx a) pdu (am_tx a'))"
proof (cases "status_report_required (am_rx a)")
  case True
  obtain pdu r where p: "amtx_pull_status (am_rx_cfg cfg) ok g (am_rx a) = (pdu, r)"
    by (cases "amtx_pull_status (am_rx_cfg cfg) ok g (am_rx a)")
  with pull_status_inv [OF _ p] inv True show ?thesis
    by (intro exI [of _ pdu] exI [of _ "[]"] exI [of _ "a\<lparr>am_rx := r\<rparr>"]) (simp add: amtx_pull_pdu_def am_inv_def)
next
  case False
  obtain pdu evs e where p: "amtx_pull_data (am_tx_cfg cfg) g (am_tx a) = Inr (pdu, evs, e)"
    "tx_pulled (am_tx_cfg cfg) g (am_tx a) pdu e"
    using pull_data_ok inv unfolding am_inv_def by blast
  then have "amtx_inv (am_tx_cfg cfg) e" by (simp add: tx_pulled_def)
  with p inv False show ?thesis
    by (intro exI [of _ pdu] exI [of _ "map Am_notify evs"] exI [of _ "a\<lparr>am_tx := e\<rparr>"])
      (auto simp: amtx_pull_pdu_def am_inv_def)
qed

section \<open>The invariant\<close>

lemma amtx_inv_timer: "amtx_inv cfg (e\<lparr>poll_retransmit_timer := t\<rparr>) = amtx_inv cfg e"
  by (simp add: amtx_inv_def)

lemma am_step_ok:
  assumes inv: "am_inv cfg a" and ok: "am_call_ok cfg c a"
  shows "\<exists>outs a'. am_step cfg c a = Inr (outs, a') \<and> am_inv cfg a'"
proof (cases c)
  case (Am_sdu d sdu)
  with amtx_handle_sdu_ok [of "am_tx_cfg cfg" "am_tx a" sdu d] inv ok show ?thesis
    by (auto simp: am_inv_def am_call_ok_def)
next
  case (Am_discard d sn)
  with amtx_discard_sdu_ok [of "am_tx_cfg cfg" "am_tx a" d sn] inv show ?thesis by (auto simp: am_inv_def)
next
  case (Am_pull d g)
  with am_pull_ok [OF inv, of d g] show ?thesis by blast
next
  case (Am_pdu d buf)
  with am_rx_step_ok [OF inv, of "Rx_pdu buf" d] ok show ?thesis by (auto simp: am_call_ok_def call_fits_def)
next
  case (Am_reassembly_expiry d)
  with am_rx_step_ok [OF inv, of Rx_reassembly_expiry d] show ?thesis by (auto simp: call_fits_def)
next
  case (Am_prohibit_expiry d)
  with am_rx_step_ok [OF inv, of Rx_prohibit_expiry d] show ?thesis by (auto simp: call_fits_def)
next
  case Am_poll_expiry
  with expired_poll_ok [of "am_tx_cfg cfg" "(am_tx a)\<lparr>poll_retransmit_timer := False\<rparr>" "am_rx a"] inv show ?thesis
    by (auto simp: am_inv_def amtx_inv_timer am_tx_result_def)
next
  case Am_prohibit_start_task
  with am_rx_step_ok [OF inv, of Rx_prohibit_start True] show ?thesis by (auto simp: call_fits_def)
next
  case Am_status_task
  show ?thesis
  proof (cases "am_status_tasks a")
    case (Cons status tasks)
    with ok Am_status_task have "status_known (am_tx_cfg cfg) status (am_tx a)" by (simp add: am_call_ok_def)
    with handle_status_ok [of "am_tx_cfg cfg" "am_tx a" status "am_rx a"] Cons Am_status_task inv show ?thesis
      by (auto simp: am_inv_def am_tx_result_def)
  qed (use Am_status_task inv in simp)
next
  case Am_update_task
  obtain evs e where e: "amtx_run_update (am_tx_cfg cfg) (am_rx a) (am_tx a) = (evs, e)"
    by (cases "amtx_run_update (am_tx_cfg cfg) (am_rx a) (am_tx a)")
  have "amtx_inv (am_tx_cfg cfg) e"
    using update_state_inv [of "am_tx_cfg cfg" "am_rx a" "(am_tx a)\<lparr>amtx_task := begin_update (amtx_task (am_tx a))\<rparr>"]
      inv e by (simp add: amtx_run_update_def am_inv_def) (simp add: amtx_inv_def)
  with Am_update_task e inv show ?thesis by (simp add: am_inv_def am_tx_result_def)
qed

lemma am_init_inv: "unat capacity \<le> 2 ^ k \<Longrightarrow> k \<le> 31 \<Longrightarrow> am_inv cfg (rlc_am_entity_init cfg capacity (2 ^ k))"
  using amtx_init_inv [of capacity k "am_tx_cfg cfg"] amrx_inv_init [of "am_rx_cfg cfg"]
  by (simp add: am_inv_def rlc_am_entity_init_def)

lemma am_reachable_inv: "am_reachable cfg a \<Longrightarrow> am_inv cfg a"
proof (induction rule: am_reachable.induct)
  case (am_start capacity k)
  then show ?case by (rule am_init_inv)
next
  case (am_next a c outs a')
  with am_step_ok [OF am_next.IH am_next.hyps(2)] show ?case by auto
qed

section \<open>An example bearer\<close>

definition example_cfg :: rlc_am_config where
  "example_cfg =
    \<lparr>am_tx_cfg = \<lparr>txam_sn_field_length = Am_size12bits, txam_t_poll_retx = 45, txam_max_retx_thresh = 4,
       txam_poll_pdu = 4, txam_poll_byte = 0\<rparr>,
     am_rx_cfg = \<lparr>rxam_sn_field_length = Am_size12bits, rxam_t_reassembly = 35, rxam_t_status_prohibit = 0\<rparr>\<rparr>"

definition example_init :: rlc_am_entity where
  "example_init = rlc_am_entity_init example_cfg 4 4"

definition am_outputs :: "(am_output list \<times> rlc_am_entity) res \<Rightarrow> am_output list option" where
  "am_outputs r = (case r of Inl _ \<Rightarrow> None | Inr (outs, _) \<Rightarrow> Some outs)"

definition am_state :: "(am_output list \<times> rlc_am_entity) res \<Rightarrow> rlc_am_entity" where
  "am_state r = snd (projr r)"

lemma am_outputs_Some: "am_outputs r = Some outs \<Longrightarrow> r = Inr (outs, am_state r)"
  by (auto simp: am_outputs_def am_state_def split: sum.splits)

lemma example_reachable: "am_reachable example_cfg example_init"
  using am_start [of 4 2 example_cfg] by (simp add: example_init_def)

text \<open>The bearer after it took an SDU of six bytes.\<close>

definition example_loaded :: rlc_am_entity where
  "example_loaded = am_state (am_step example_cfg (Am_sdu True \<lparr>sdu_buf = [1, 2, 3, 4, 5, 6], sdu_pdcp_sn = None\<rparr>) example_init)"

lemma example_loaded_reachable: "am_reachable example_cfg example_loaded"
proof -
  have ok: "am_call_ok example_cfg (Am_sdu True \<lparr>sdu_buf = [1, 2, 3, 4, 5, 6], sdu_pdcp_sn = None\<rparr>) example_init"
    by (simp add: am_call_ok_def)
  have "am_outputs (am_step example_cfg (Am_sdu True \<lparr>sdu_buf = [1, 2, 3, 4, 5, 6], sdu_pdcp_sn = None\<rparr>) example_init) = Some []"
    by code_simp
  from am_next [OF example_reachable ok am_outputs_Some [OF this]] show ?thesis
    by (simp only: example_loaded_def)
qed

section \<open>Properties\<close>



text \<open>C13: In every reachable state and for every grant, the PDU an AM bearer hands to the MAC is not longer
  than the grant, be it a status PDU (trimmed when needed), a retransmission, a segment or a whole SDU.\<close>

theorem am_pdus_fit_grants:
  assumes "am_reachable cfg a" "length (sp_nacks (status_report (am_rx a))) < 2 ^ 28"
    and "am_step cfg (Am_pull ok grant_len) a = Inr (outs, a')" "Am_tx_pdu pdu \<in> set outs"
  shows "length pdu \<le> unat grant_len"
proof -
  have inv: "am_inv cfg a" by (rule am_reachable_inv [OF assms(1)])
  then have "status_sized (status_report (am_rx a))"
    by (simp add: am_inv_def amrx_inv_def rx_report_ok_def status_wf_def)
  with am_pull_ok [OF inv, of ok grant_len] assms(2-4) pull_status_fits show ?thesis
    by (auto simp: tx_pulled_def split: if_splits)
qed

theorem am_pdus_fit_grants_witness:
  "\<exists>a'. am_step example_cfg (Am_pull True 5) example_loaded = Inr ([Am_tx_pdu [0x90, 0, 1, 2, 3]], a') \<and>
    length [0x90, 0, 1, 2, 3 :: u8] \<le> unat (5 :: u32)"
proof -
  have "am_outputs (am_step example_cfg (Am_pull True 5) example_loaded) = Some [Am_tx_pdu [0x90, 0, 1, 2, 3]]"
    by code_simp
  then have step: "am_step example_cfg (Am_pull True 5) example_loaded =
      Inr ([Am_tx_pdu [0x90, 0, 1, 2, 3]], am_state (am_step example_cfg (Am_pull True 5) example_loaded))"
    by (rule am_outputs_Some)
  have "sp_nacks (status_report (am_rx example_loaded)) = []" by code_simp
  then have "length (sp_nacks (status_report (am_rx example_loaded))) < 2 ^ 28" by simp
  from am_pdus_fit_grants [OF example_loaded_reachable this step, of "[0x90, 0, 1, 2, 3]"] step
  show ?thesis by auto
qed

text \<open>C6: When no status report is due, a grant gives no PDU or a data PDU that carries a contiguous, non-empty
  part of an SDU of the transmit window under the SN of that SDU, with the offset of that part in the SO
  field exactly when it does not start the SDU; SI never announces more of the SDU when the part is its
  end, and for PDUs that are not retransmissions SI marks the end of the SDU exactly when the part
  reaches it.\<close>

theorem am_data_pdus_carry_sdu_parts:
  assumes "am_reachable cfg a" "\<not> status_report_required (am_rx a)"
    and "am_step cfg (Am_pull ok grant_len) a = Inr (outs, a')" "Am_tx_pdu pdu \<in> set outs" "pdu \<noteq> []"
  shows "\<exists>p si sn i so len. win_look (txam_sn_field_length (am_tx_cfg cfg)) (tx_window (am_tx a')) sn = Some i \<and>
    0 < len \<and> so + len \<le> length (ti_sdu i) \<and> length (ti_sdu i) \<le> 65535 \<and>
    pdu = amtx_data_pdu (am_tx_cfg cfg) p si sn (of_nat so) (take len (drop so (ti_sdu i))) \<and>
    (si = Full_sdu \<or> si = First_segment \<longleftrightarrow> so = 0) \<and>
    (so + len = length (ti_sdu i) \<longrightarrow> si = Full_sdu \<or> si = Last_segment) \<and>
    (retx_empty (retx_queue (am_tx a)) \<longrightarrow> si = Full_sdu \<or> si = Last_segment \<longrightarrow> so + len = length (ti_sdu i))"
proof -
  let ?c = "am_tx_cfg cfg"
  have "tx_pulled ?c grant_len (am_tx a) pdu (am_tx a')"
    using am_pull_ok [OF am_reachable_inv [OF assms(1)], of ok grant_len] assms(2-4) by auto
  then obtain sn so len where inv: "amtx_inv ?c (am_tx a')"
    and c: "carries_part ?c (rq_queue (retx_queue (am_tx a)) = []) (am_tx a') pdu sn so len"
    using assms(5) by (auto simp: tx_pulled_def)
  then obtain p si i where p: "tx_look ?c (tx_window (am_tx a')) sn = Some i" "0 < len" "so + len \<le> length (ti_sdu i)"
    "pdu = amtx_data_pdu ?c p si sn (of_nat so) (take len (drop so (ti_sdu i)))"
    "si = Full_sdu \<or> si = First_segment \<longleftrightarrow> so = 0"
    "si = First_segment \<or> si = Middle_segment \<longrightarrow> so + len < length (ti_sdu i)"
    "rq_queue (retx_queue (am_tx a)) = [] \<longrightarrow> si = Full_sdu \<or> si = Last_segment \<longrightarrow> so + len = length (ti_sdu i)"
    unfolding carries_part_def by blast
  have "length (ti_sdu i) \<le> 65535" using amtx_inv_info [OF inv p(1)] by (simp add: tx_info_ok_def)
  moreover have "so + len = length (ti_sdu i) \<longrightarrow> si = Full_sdu \<or> si = Last_segment" using p(6) by (cases si) auto
  ultimately show ?thesis
    using p unfolding retx_empty_def by (intro exI [of _ p] exI [of _ si] exI [of _ sn] exI [of _ i] exI [of _ so]
        exI [of _ len]) blast
qed

theorem am_data_pdus_carry_sdu_parts_witness:
  "\<exists>a' p si sn i so len. am_step example_cfg (Am_pull True 5) example_loaded = Inr ([Am_tx_pdu [0x90, 0, 1, 2, 3]], a') \<and>
    win_look Am_size12bits (tx_window (am_tx a')) sn = Some i \<and> 0 < len \<and> so + len \<le> length (ti_sdu i) \<and>
    [0x90, 0, 1, 2, 3] = amtx_data_pdu (am_tx_cfg example_cfg) p si sn (of_nat so) (take len (drop so (ti_sdu i)))"
proof -
  have "am_outputs (am_step example_cfg (Am_pull True 5) example_loaded) = Some [Am_tx_pdu [0x90, 0, 1, 2, 3]]"
    by code_simp
  then have step: "am_step example_cfg (Am_pull True 5) example_loaded =
      Inr ([Am_tx_pdu [0x90, 0, 1, 2, 3]], am_state (am_step example_cfg (Am_pull True 5) example_loaded))"
    by (rule am_outputs_Some)
  have no: "\<not> status_report_required (am_rx example_loaded)" by code_simp
  have sz: "txam_sn_field_length (am_tx_cfg example_cfg) = Am_size12bits" by (simp add: example_cfg_def)
  have m: "Am_tx_pdu [0x90, 0, 1, 2, 3] \<in> set [Am_tx_pdu [0x90, 0, 1, 2, 3]]" "[0x90, 0, 1, 2, 3 :: u8] \<noteq> []" by simp_all
  show ?thesis
    using am_data_pdus_carry_sdu_parts [OF example_loaded_reachable no step m, unfolded sz] step by blast
qed

text \<open>C12: A status report of the peer releases exactly the SDUs below the new TX_Next_Ack: an SDU leaves the window
  only when its SN is below ACK_SN and below the first NACK; every other SDU of the window, and every SDU
  waiting in the queue, is kept unchanged.\<close>

theorem am_acks_release_only_acknowledged:
  assumes "am_reachable cfg a" "am_status_tasks a = status # tasks" "status_known (am_tx_cfg cfg) status (am_tx a)"
    and "am_step cfg Am_status_task a = Inr (outs, a')"
  shows "\<exists>gone. (\<forall>sn. tx_sdus (am_tx_cfg cfg) (tx_window (am_tx a')) sn =
        (if sn \<in> gone then None else tx_sdus (am_tx_cfg cfg) (tx_window (am_tx a)) sn)) \<and>
      (\<forall>sn \<in> gone. tx_mod_base (am_tx_cfg cfg) (am_tx a) sn < tx_mod_base (am_tx_cfg cfg) (am_tx a) (sp_ack_sn status) \<and>
        (sp_nacks status \<noteq> [] \<longrightarrow> tx_mod_base (am_tx_cfg cfg) (am_tx a) sn <
          tx_mod_base (am_tx_cfg cfg) (am_tx a) (nack_sn (hd (sp_nacks status))))) \<and>
      amtx_sdu_queue (am_tx a') = amtx_sdu_queue (am_tx a)"
proof -
  let ?c = "am_tx_cfg cfg" and ?e = "am_tx a" and ?e' = "am_tx a'"
  let ?b = "tx_next_ack (amtx_st ?e)" and ?b' = "tx_next_ack (amtx_st ?e')"
  obtain evs e' where h: "handle_status_pdu ?c status (am_rx a) ?e = Inr (evs, e')" "tx_acked ?c ?e e'"
    "tx_next_ack (amtx_st e') = ?b \<or> valid_ack_sn ?c ?e (sp_ack_sn status) \<and>
      list_all (valid_nack ?c ?e (sp_ack_sn status)) (sp_nacks status) \<and>
      tx_next_ack (amtx_st e') = (case sp_nacks status of [] \<Rightarrow> sp_ack_sn status | nack # _ \<Rightarrow> nack_sn nack)"
    using handle_status_ok [OF _ assms(3)] am_reachable_inv [OF assms(1)] unfolding am_inv_def by blast
  then have e': "?e' = e'" using assms(2,4) by (auto simp: am_tx_result_def)
  let ?gone = "sns_below (amtx_mod ?c) ?b ?b'"
  have "tx_mod_base ?c ?e sn < tx_mod_base ?c ?e (sp_ack_sn status) \<and>
      (sp_nacks status \<noteq> [] \<longrightarrow> tx_mod_base ?c ?e sn < tx_mod_base ?c ?e (nack_sn (hd (sp_nacks status))))"
    if "sn \<in> ?gone" for sn
  proof -
    have lt: "tx_off ?c ?b sn < tx_off ?c ?b ?b'" using that by (simp add: sns_below_def)
    then have "?b' \<noteq> ?b" by auto
    with h(3) e' have v: "list_all (valid_nack ?c ?e (sp_ack_sn status)) (sp_nacks status)"
      "?b' = (case sp_nacks status of [] \<Rightarrow> sp_ack_sn status | nack # _ \<Rightarrow> nack_sn nack)" by auto
    show ?thesis
    proof (cases "sp_nacks status")
      case (Cons nack nacks)
      with v(1) have "tx_off ?c ?b (nack_sn nack) < tx_off ?c ?b (sp_ack_sn status)"
        by (auto simp: valid_nack_def Let_def tx_base_le split: if_splits)
      with lt v(2) Cons show ?thesis by (simp add: tx_base_less)
    qed (use lt v(2) in \<open>simp add: tx_base_less\<close>)
  qed
  then show ?thesis
    using h(2) unfolding e' tx_acked_def by (intro exI [of _ "sns_below (amtx_mod ?c) ?b (tx_next_ack (amtx_st e'))"]) simp
qed

text \<open>The example bearer after it sent an SDU in full and received the acknowledgement of SN 0.\<close>

definition example_acked :: rlc_am_entity where
  "example_acked = am_state (am_run example_cfg [Am_pull True 20, Am_pdu True [0, 1, 0]] example_loaded)"

lemma am_run_reachable:
  "am_reachable cfg a \<Longrightarrow> am_run cfg cs a = Inr (outs, a') \<Longrightarrow>
    (\<And>c b. c \<in> set cs \<Longrightarrow> am_call_ok cfg c b) \<Longrightarrow> am_reachable cfg a'"
proof (induction cs arbitrary: a outs)
  case (Cons c cs)
  then obtain o1 a1 o2 where "am_step cfg c a = Inr (o1, a1)" "am_run cfg cs a1 = Inr (o2, a')"
    by (auto split: sum.splits)
  with Cons show ?case using am_next [OF Cons.prems(1)] by (metis list.set_intros(1) list.set_intros(2))
qed simp

lemma example_acked_reachable: "am_reachable example_cfg example_acked"
proof -
  have "am_outputs (am_run example_cfg [Am_pull True 20, Am_pdu True [0, 1, 0]] example_loaded) =
      Some [Am_tx_pdu [0xc0, 0, 1, 2, 3, 4, 5, 6]]"
    by code_simp
  note run = am_outputs_Some [OF this]
  have "am_call_ok example_cfg c b" if "c \<in> set [Am_pull True 20, Am_pdu True [0, 1, 0]]" for c b
    using that by (auto simp: am_call_ok_def am_pdu_fits_def example_cfg_def rlc_am_read_data_pdu_header_def
        rlc_am_read_so_def si_of_number_def)
  with am_run_reachable [OF example_loaded_reachable run] show ?thesis unfolding example_acked_def by blast
qed

theorem am_acks_release_only_acknowledged_witness:
  "\<exists>gone a'. am_step example_cfg Am_status_task example_acked = Inr ([Am_notify (On_buffer_state_update 0)], a') \<and>
    (\<forall>sn. tx_sdus (am_tx_cfg example_cfg) (tx_window (am_tx a')) sn =
        (if sn \<in> gone then None else tx_sdus (am_tx_cfg example_cfg) (tx_window (am_tx example_acked)) sn))"
proof -
  obtain status where st: "am_status_tasks example_acked = [status]" "sp_ack_sn status = 1" "sp_nacks status = []"
  proof
    let ?s = "(rlc_am_status_pdu_init Am_size12bits)\<lparr>sp_ack_sn := 1\<rparr>"
    show "am_status_tasks example_acked = [?s]" "sp_ack_sn ?s = 1" "sp_nacks ?s = []" by code_simp+
  qed
  have "tx_mod_base (am_tx_cfg example_cfg) (am_tx example_acked) 1 \<le>
      tx_mod_base (am_tx_cfg example_cfg) (am_tx example_acked) (tx_next (amtx_st (am_tx example_acked)))"
    by code_simp
  then have known: "status_known (am_tx_cfg example_cfg) status (am_tx example_acked)"
    using st by (simp add: status_known_def amtx_mod_def example_cfg_def)
  have "am_outputs (am_step example_cfg Am_status_task example_acked) = Some [Am_notify (On_buffer_state_update 0)]"
    by code_simp
  note step = am_outputs_Some [OF this]
  show ?thesis
    using am_acks_release_only_acknowledged [OF example_acked_reachable st(1) known step] step by blast
qed

lemma am_rx_events_st:
  "am_rx_events ok evs a = (outs, a') \<Longrightarrow> amtx_st (am_tx a') = amtx_st (am_tx a)"
  by (induction ok evs a arbitrary: outs rule: am_rx_events.induct)
    (auto simp: on_status_pdu_def on_status_report_changed_def split: prod.splits if_splits)

lemma am_rx_step_st: "am_rx_step cfg ok c a = Inr (outs, a') \<Longrightarrow> amtx_st (am_tx a') = amtx_st (am_tx a)"
proof -
  assume "am_rx_step cfg ok c a = Inr (outs, a')"
  then obtain evs r where "am_rx_events ok evs (a\<lparr>am_rx := r\<rparr>) = (outs, a')"
    by (auto simp: am_rx_step_def split: sum.splits)
  then show ?thesis by (rule am_rx_events_st [THEN trans]) simp
qed

lemma am_step_counters:
  assumes lim: "poll_limits_ok (am_tx_cfg cfg)" and inv: "am_inv cfg a" and ok: "am_call_ok cfg c a"
    and cnt: "poll_counters_ok (am_tx_cfg cfg) (amtx_st (am_tx a))" and step: "am_step cfg c a = Inr (outs, a')"
  shows "poll_counters_ok (am_tx_cfg cfg) (amtx_st (am_tx a'))"
proof (cases c)
  case (Am_sdu d sdu)
  with amtx_handle_sdu_ok [of "am_tx_cfg cfg" "am_tx a" sdu d] inv ok step cnt show ?thesis
    by (auto simp: am_inv_def am_call_ok_def)
next
  case (Am_discard d sn)
  with amtx_discard_sdu_ok [of "am_tx_cfg cfg" "am_tx a" d sn] inv step cnt show ?thesis by (auto simp: am_inv_def)
next
  case (Am_pull d g)
  then consider "am_tx a' = am_tx a"
    | pdu evs where "amtx_pull_data (am_tx_cfg cfg) g (am_tx a) = Inr (pdu, evs, am_tx a')"
    using step by (auto simp: amtx_pull_pdu_def split: sum.splits if_splits prod.splits)
  then show ?thesis using pull_data_counters [OF lim cnt] cnt by cases auto
next
  case Am_poll_expiry
  with expired_poll_ok [of "am_tx_cfg cfg" "(am_tx a)\<lparr>poll_retransmit_timer := False\<rparr>" "am_rx a"] inv step cnt
  show ?thesis by (auto simp: am_inv_def amtx_inv_timer am_tx_result_def split: if_splits)
next
  case Am_status_task
  show ?thesis
  proof (cases "am_status_tasks a")
    case (Cons status tasks)
    with ok Am_status_task have "status_known (am_tx_cfg cfg) status (am_tx a)" by (simp add: am_call_ok_def)
    then obtain evs e' where h: "handle_status_pdu (am_tx_cfg cfg) status (am_rx a) (am_tx a) = Inr (evs, e')"
      and st: "amtx_st e' = (amtx_st (am_tx a))\<lparr>tx_next_ack := tx_next_ack (amtx_st e')\<rparr>"
      using handle_status_ok inv unfolding am_inv_def by blast
    have "poll_counters_ok (am_tx_cfg cfg) (amtx_st e')" by (subst st) (simp add: cnt)
    moreover have "am_tx a' = e'" using Cons Am_status_task step h by (auto simp: am_tx_result_def)
    ultimately show ?thesis by simp
  qed (use Am_status_task step cnt in simp)
next
  case Am_update_task
  with step cnt show ?thesis
    by (auto simp: am_tx_result_def amtx_run_update_def amtx_update_mac_buffer_state_def Let_def split: if_splits)
qed (use step cnt am_rx_step_st in \<open>fastforce+\<close>)





end
