(* ===== verification/Snow3g.thy ===== *)
theory Snow3g
  imports Prelude
begin

text \<open>
  The SNOW 3G key stream generator and the integrity function f9 built on it (\<open>src/lib/security/s3g.cpp\<close>).
  The state is a shift register of sixteen 32-bit words and a finite state machine of three words.  A byte
  array is a list; the indices the code uses are within the arrays it allocates.
\<close>

section \<open>Substitution boxes\<close>

definition SQ_box :: bytes where
  "SQ_box = [
     0x25, 0x24, 0x73, 0x67, 0xd7, 0xae, 0x5c, 0x30, 0xa4, 0xee, 0x6e, 0xcb, 0x7d, 0xb5, 0x82, 0xdb,
     0xe4, 0x8e, 0x48, 0x49, 0x4f, 0x5d, 0x6a, 0x78, 0x70, 0x88, 0xe8, 0x5f, 0x5e, 0x84, 0x65, 0xe2,
     0xd8, 0xe9, 0xcc, 0xed, 0x40, 0x2f, 0x11, 0x28, 0x57, 0xd2, 0xac, 0xe3, 0x4a, 0x15, 0x1b, 0xb9,
     0xb2, 0x80, 0x85, 0xa6, 0x2e, 0x02, 0x47, 0x29, 0x07, 0x4b, 0x0e, 0xc1, 0x51, 0xaa, 0x89, 0xd4,
     0xca, 0x01, 0x46, 0xb3, 0xef, 0xdd, 0x44, 0x7b, 0xc2, 0x7f, 0xbe, 0xc3, 0x9f, 0x20, 0x4c, 0x64,
     0x83, 0xa2, 0x68, 0x42, 0x13, 0xb4, 0x41, 0xcd, 0xba, 0xc6, 0xbb, 0x6d, 0x4d, 0x71, 0x21, 0xf4,
     0x8d, 0xb0, 0xe5, 0x93, 0xfe, 0x8f, 0xe6, 0xcf, 0x43, 0x45, 0x31, 0x22, 0x37, 0x36, 0x96, 0xfa,
     0xbc, 0x0f, 0x08, 0x52, 0x1d, 0x55, 0x1a, 0xc5, 0x4e, 0x23, 0x69, 0x7a, 0x92, 0xff, 0x5b, 0x5a,
     0xeb, 0x9a, 0x1c, 0xa9, 0xd1, 0x7e, 0x0d, 0xfc, 0x50, 0x8a, 0xb6, 0x62, 0xf5, 0x0a, 0xf8, 0xdc,
     0x03, 0x3c, 0x0c, 0x39, 0xf1, 0xb8, 0xf3, 0x3d, 0xf2, 0xd5, 0x97, 0x66, 0x81, 0x32, 0xa0, 0x00,
     0x06, 0xce, 0xf6, 0xea, 0xb7, 0x17, 0xf7, 0x8c, 0x79, 0xd6, 0xa7, 0xbf, 0x8b, 0x3f, 0x1f, 0x53,
     0x63, 0x75, 0x35, 0x2c, 0x60, 0xfd, 0x27, 0xd3, 0x94, 0xa5, 0x7c, 0xa1, 0x05, 0x58, 0x2d, 0xbd,
     0xd9, 0xc7, 0xaf, 0x6b, 0x54, 0x0b, 0xe0, 0x38, 0x04, 0xc8, 0x9d, 0xe7, 0x14, 0xb1, 0x87, 0x9c,
     0xdf, 0x6f, 0xf9, 0xda, 0x2a, 0xc4, 0x59, 0x16, 0x74, 0x91, 0xab, 0x26, 0x61, 0x76, 0x34, 0x2b,
     0xad, 0x99, 0xfb, 0x72, 0xec, 0x33, 0x12, 0xde, 0x98, 0x3b, 0xc0, 0x9b, 0x3e, 0x18, 0x10, 0x3a,
     0x56, 0xe1, 0x77, 0xc9, 0x1e, 0x9e, 0x95, 0xa3, 0x90, 0x19, 0xa8, 0x6c, 0x09, 0xd0, 0xf0, 0x86]"

definition S_box :: bytes where
  "S_box = [
     99, 124, 119, 123, 242, 107, 111, 197, 48, 1, 103, 43, 254, 215, 171, 118,
     202, 130, 201, 125, 250, 89, 71, 240, 173, 212, 162, 175, 156, 164, 114, 192,
     183, 253, 147, 38, 54, 63, 247, 204, 52, 165, 229, 241, 113, 216, 49, 21,
     4, 199, 35, 195, 24, 150, 5, 154, 7, 18, 128, 226, 235, 39, 178, 117,
     9, 131, 44, 26, 27, 110, 90, 160, 82, 59, 214, 179, 41, 227, 47, 132,
     83, 209, 0, 237, 32, 252, 177, 91, 106, 203, 190, 57, 74, 76, 88, 207,
     208, 239, 170, 251, 67, 77, 51, 133, 69, 249, 2, 127, 80, 60, 159, 168,
     81, 163, 64, 143, 146, 157, 56, 245, 188, 182, 218, 33, 16, 255, 243, 210,
     205, 12, 19, 236, 95, 151, 68, 23, 196, 167, 126, 61, 100, 93, 25, 115,
     96, 129, 79, 220, 34, 42, 144, 136, 70, 238, 184, 20, 222, 94, 11, 219,
     224, 50, 58, 10, 73, 6, 36, 92, 194, 211, 172, 98, 145, 149, 228, 121,
     231, 200, 55, 109, 141, 213, 78, 169, 108, 86, 244, 234, 101, 122, 174, 8,
     186, 120, 37, 46, 28, 166, 180, 198, 232, 221, 116, 31, 75, 189, 139, 138,
     112, 62, 181, 102, 72, 3, 246, 14, 97, 53, 87, 185, 134, 193, 29, 158,
     225, 248, 152, 17, 105, 217, 142, 148, 155, 30, 135, 233, 206, 85, 40, 223,
     140, 161, 137, 13, 191, 230, 66, 104, 65, 153, 45, 15, 176, 84, 187, 22]"

section \<open>Multiplication with reduction\<close>

definition s3g_mul_x :: "u8 \<Rightarrow> u8 \<Rightarrow> u8" where
  "s3g_mul_x v c = (if v AND 0x80 \<noteq> 0 then push_bit 1 v XOR c else push_bit 1 v)"

fun s3g_mul_x_pow :: "u8 \<Rightarrow> nat \<Rightarrow> u8 \<Rightarrow> u8" where
  "s3g_mul_x_pow v 0 c = v"
| "s3g_mul_x_pow v (Suc i) c = s3g_mul_x (s3g_mul_x_pow v i c) c"

text \<open>Four bytes as a word, as the shifts and disjunctions of the code put them together.\<close>

definition make_u32 :: "u8 \<Rightarrow> u8 \<Rightarrow> u8 \<Rightarrow> u8 \<Rightarrow> u32" where
  "make_u32 a b c d = push_bit 24 (ucast a) OR push_bit 16 (ucast b) OR push_bit 8 (ucast c) OR ucast d"

definition u32_byte :: "nat \<Rightarrow> u32 \<Rightarrow> u8" where
  "u32_byte i w = ucast (drop_bit (8 * i) w AND 0xff)"

definition s3g_mul_alpha :: "u8 \<Rightarrow> u32" where
  "s3g_mul_alpha c = make_u32 (s3g_mul_x_pow c 23 0xa9) (s3g_mul_x_pow c 245 0xa9)
     (s3g_mul_x_pow c 48 0xa9) (s3g_mul_x_pow c 239 0xa9)"

definition s3g_div_alpha :: "u8 \<Rightarrow> u32" where
  "s3g_div_alpha c = make_u32 (s3g_mul_x_pow c 16 0xa9) (s3g_mul_x_pow c 39 0xa9)
     (s3g_mul_x_pow c 6 0xa9) (s3g_mul_x_pow c 64 0xa9)"

text \<open>The 32-bit boxes: the byte box on each byte, then the mixing of the four results.\<close>

definition s3g_mix :: "u8 \<Rightarrow> u8 \<Rightarrow> u8 \<Rightarrow> u8 \<Rightarrow> u8 \<Rightarrow> u32" where
  "s3g_mix c w0 w1 w2 w3 =
    (let r0 = s3g_mul_x w0 c XOR w1 XOR w2 XOR (s3g_mul_x w3 c XOR w3);
         r1 = (s3g_mul_x w0 c XOR w0) XOR s3g_mul_x w1 c XOR w2 XOR w3;
         r2 = w0 XOR (s3g_mul_x w1 c XOR w1) XOR s3g_mul_x w2 c XOR w3;
         r3 = w0 XOR w1 XOR (s3g_mul_x w2 c XOR w2) XOR s3g_mul_x w3 c
     in make_u32 r0 r1 r2 r3)"

definition s3g_s1 :: "u32 \<Rightarrow> u32" where
  "s3g_s1 w = s3g_mix 0x1b (S_box ! unat (u32_byte 3 w)) (S_box ! unat (u32_byte 2 w))
     (S_box ! unat (u32_byte 1 w)) (S_box ! unat (u32_byte 0 w))"

definition s3g_s2 :: "u32 \<Rightarrow> u32" where
  "s3g_s2 w = s3g_mix 0x69 (SQ_box ! unat (u32_byte 3 w)) (SQ_box ! unat (u32_byte 2 w))
     (SQ_box ! unat (u32_byte 1 w)) (SQ_box ! unat (u32_byte 0 w))"

section \<open>The generator\<close>

record S3G_STATE =
  lfsr :: "u32 list"
  fsm :: "u32 list"

definition s3g_clock_lfsr :: "u32 \<Rightarrow> S3G_STATE \<Rightarrow> S3G_STATE" where
  "s3g_clock_lfsr f st =
    (let v = (push_bit 8 (lfsr st ! 0) AND 0xffffff00) XOR s3g_mul_alpha (u32_byte 3 (lfsr st ! 0)) XOR
           lfsr st ! 2 XOR (drop_bit 8 (lfsr st ! 11) AND 0x00ffffff) XOR
           s3g_div_alpha (u32_byte 0 (lfsr st ! 11)) XOR f
     in st\<lparr>lfsr := map (\<lambda>i. lfsr st ! (i + 1)) [0..<15] @ [v]\<rparr>)"

definition s3g_clock_fsm :: "S3G_STATE \<Rightarrow> u32 \<times> S3G_STATE" where
  "s3g_clock_fsm st =
    (let f = (lfsr st ! 15 + fsm st ! 0) XOR fsm st ! 1;
         r = fsm st ! 1 + (fsm st ! 2 XOR lfsr st ! 5)
     in (f, st\<lparr>fsm := [r, s3g_s1 (fsm st ! 0), s3g_s2 (fsm st ! 1)]\<rparr>))"

definition s3g_init_step :: "S3G_STATE \<Rightarrow> S3G_STATE" where
  "s3g_init_step st = (case s3g_clock_fsm st of (f, st') \<Rightarrow> s3g_clock_lfsr f st')"

definition s3g_initialize :: "u32 list \<Rightarrow> u32 list \<Rightarrow> S3G_STATE" where
  "s3g_initialize k iv =
    (s3g_init_step ^^ 32)
      \<lparr>lfsr =
        [k ! 0 XOR 0xffffffff, k ! 1 XOR 0xffffffff, k ! 2 XOR 0xffffffff, k ! 3 XOR 0xffffffff,
         k ! 0, k ! 1, k ! 2, k ! 3,
         k ! 0 XOR 0xffffffff, k ! 1 XOR 0xffffffff XOR iv ! 3, k ! 2 XOR 0xffffffff XOR iv ! 2,
         k ! 3 XOR 0xffffffff,
         k ! 0 XOR iv ! 1, k ! 1, k ! 2, k ! 3 XOR iv ! 0],
       fsm = [0, 0, 0]\<rparr>"

fun s3g_keystream_loop :: "nat \<Rightarrow> S3G_STATE \<Rightarrow> u32 list" where
  "s3g_keystream_loop 0 st = []"
| "s3g_keystream_loop (Suc n) st =
    (case s3g_clock_fsm st of (f, st') \<Rightarrow> (f XOR lfsr st' ! 0) # s3g_keystream_loop n (s3g_clock_lfsr 0 st'))"

definition s3g_generate_keystream :: "nat \<Rightarrow> S3G_STATE \<Rightarrow> u32 list" where
  "s3g_generate_keystream n st = s3g_keystream_loop n (s3g_clock_lfsr 0 (snd (s3g_clock_fsm st)))"

lemma length_s3g_keystream [simp]: "length (s3g_generate_keystream n st) = n"
proof -
  have "length (s3g_keystream_loop n st) = n" for st
    by (induction n st rule: s3g_keystream_loop.induct) (auto split: prod.split)
  then show ?thesis by (simp add: s3g_generate_keystream_def)
qed

section \<open>The integrity function f9\<close>

text \<open>
  For an empty message the number of blocks wraps below zero and the loop reads outside of the array, an
  invalid access.
\<close>

definition s3g_MUL64x :: "u64 \<Rightarrow> u64 \<Rightarrow> u64" where
  "s3g_MUL64x V c = (if V AND 0x8000000000000000 \<noteq> 0 then push_bit 1 V XOR c else push_bit 1 V)"

fun s3g_MUL64xPOW :: "u64 \<Rightarrow> nat \<Rightarrow> u64 \<Rightarrow> u64" where
  "s3g_MUL64xPOW V 0 c = V"
| "s3g_MUL64xPOW V (Suc i) c = s3g_MUL64x (s3g_MUL64xPOW V i c) c"

definition s3g_MUL64 :: "u64 \<Rightarrow> u64 \<Rightarrow> u64 \<Rightarrow> u64" where
  "s3g_MUL64 V P c =
    foldl (\<lambda>result i. if drop_bit i P AND 1 \<noteq> 0 then result XOR s3g_MUL64xPOW V i c else result) 0 [0..<64]"

definition mask8bit :: "nat \<Rightarrow> u8" where
  "mask8bit n = 0xff XOR (push_bit (8 - n) 1 - 1)"

text \<open>Eight bytes of the message from an index on as a 64-bit value.\<close>

definition data_u64 :: "bytes \<Rightarrow> nat \<Rightarrow> u64" where
  "data_u64 data i =
    push_bit 56 (ucast (data ! i)) OR push_bit 48 (ucast (data ! (i + 1))) OR
    push_bit 40 (ucast (data ! (i + 2))) OR push_bit 32 (ucast (data ! (i + 3))) OR
    push_bit 24 (ucast (data ! (i + 4))) OR push_bit 16 (ucast (data ! (i + 5))) OR
    push_bit 8 (ucast (data ! (i + 6))) OR ucast (data ! (i + 7))"

text \<open>The last, possibly partial, block.\<close>

definition last_block :: "bytes \<Rightarrow> nat \<Rightarrow> nat \<Rightarrow> u64" where
  "last_block data start rem_bits =
    (let whole = foldl (\<lambda>m i. m OR push_bit (8 * (7 - i)) (ucast (data ! (start + i)))) 0 [0..<rem_bits div 8];
         rest = rem_bits mod 8; i = rem_bits div 8
     in if rest > 0 then whole OR push_bit (8 * (7 - i)) (ucast (data ! (start + i) AND mask8bit rest))
        else whole)"

definition s3g_f9 :: "bytes \<Rightarrow> u32 \<Rightarrow> u32 \<Rightarrow> u32 \<Rightarrow> bytes \<Rightarrow> u64 \<Rightarrow> bytes res" where
  "s3g_f9 key count fresh dir data len =
    (if len = 0 then Inl Invalid_access else let K = map (\<lambda>j. make_u32 (key ! (4 * (3 - j))) (key ! (4 * (3 - j) + 1))
               (key ! (4 * (3 - j) + 2)) (key ! (4 * (3 - j) + 3))) [0..<4];
         IV = [fresh XOR push_bit 15 dir, count XOR push_bit 31 dir, fresh, count];
         z = s3g_generate_keystream 5 (s3g_initialize K IV);
         P = push_bit 32 (ucast (z ! 0)) OR ucast (z ! 1);
         Q = push_bit 32 (ucast (z ! 2)) OR ucast (z ! 3);
         D = unat (ucast (drop_bit 6 len + (if len mod 64 = 0 then 1 else 2)) :: u32);
         EVAL = foldl (\<lambda>EVAL i. s3g_MUL64 (EVAL XOR data_u64 data (8 * i)) P 0x1b) 0 [0..<D - 2];
         rem_bits = (if len mod 64 = 0 then 64 else unat (len mod 64));
         EVAL = s3g_MUL64 (EVAL XOR last_block data (8 * (D - 2)) rem_bits) P 0x1b;
         EVAL = s3g_MUL64 (EVAL XOR len) Q 0x1b
     in Inr (map (\<lambda>i. ucast (drop_bit (56 - 8 * i) EVAL) XOR u32_byte (3 - i) (z ! 4)) [0..<4]))"

lemma s3g_f9_returns:
  assumes "len \<noteq> 0"
  shows "\<exists>mac. s3g_f9 key count fresh dir data len = Inr mac \<and> length mac = 4"
  using assms by (simp add: s3g_f9_def Let_def)

end
