(* ===== verification/Zuc.thy ===== *)
theory Zuc
  imports Prelude
begin

text \<open>
  The ZUC key stream generator (\<open>src/lib/security/zuc.cpp\<close>): a shift register of sixteen elements of the
  field with \<open>2 ^ 31 - 1\<close> elements, the bit reorganisation and the nonlinear function F.  The field element
  zero is represented by \<open>2 ^ 31 - 1\<close> in the specification; the code has no test for zero.  The last part
  shows that it needs none: the registers stay between 1 and \<open>2 ^ 31 - 1\<close> and hold the elements the
  recurrence of the specification gives.
\<close>

section \<open>Tables\<close>

definition S0_box :: bytes where
  "S0_box = [
     0x3e, 0x72, 0x5b, 0x47, 0xca, 0xe0, 0x00, 0x33, 0x04, 0xd1, 0x54, 0x98, 0x09, 0xb9, 0x6d, 0xcb,
     0x7b, 0x1b, 0xf9, 0x32, 0xaf, 0x9d, 0x6a, 0xa5, 0xb8, 0x2d, 0xfc, 0x1d, 0x08, 0x53, 0x03, 0x90,
     0x4d, 0x4e, 0x84, 0x99, 0xe4, 0xce, 0xd9, 0x91, 0xdd, 0xb6, 0x85, 0x48, 0x8b, 0x29, 0x6e, 0xac,
     0xcd, 0xc1, 0xf8, 0x1e, 0x73, 0x43, 0x69, 0xc6, 0xb5, 0xbd, 0xfd, 0x39, 0x63, 0x20, 0xd4, 0x38,
     0x76, 0x7d, 0xb2, 0xa7, 0xcf, 0xed, 0x57, 0xc5, 0xf3, 0x2c, 0xbb, 0x14, 0x21, 0x06, 0x55, 0x9b,
     0xe3, 0xef, 0x5e, 0x31, 0x4f, 0x7f, 0x5a, 0xa4, 0x0d, 0x82, 0x51, 0x49, 0x5f, 0xba, 0x58, 0x1c,
     0x4a, 0x16, 0xd5, 0x17, 0xa8, 0x92, 0x24, 0x1f, 0x8c, 0xff, 0xd8, 0xae, 0x2e, 0x01, 0xd3, 0xad,
     0x3b, 0x4b, 0xda, 0x46, 0xeb, 0xc9, 0xde, 0x9a, 0x8f, 0x87, 0xd7, 0x3a, 0x80, 0x6f, 0x2f, 0xc8,
     0xb1, 0xb4, 0x37, 0xf7, 0x0a, 0x22, 0x13, 0x28, 0x7c, 0xcc, 0x3c, 0x89, 0xc7, 0xc3, 0x96, 0x56,
     0x07, 0xbf, 0x7e, 0xf0, 0x0b, 0x2b, 0x97, 0x52, 0x35, 0x41, 0x79, 0x61, 0xa6, 0x4c, 0x10, 0xfe,
     0xbc, 0x26, 0x95, 0x88, 0x8a, 0xb0, 0xa3, 0xfb, 0xc0, 0x18, 0x94, 0xf2, 0xe1, 0xe5, 0xe9, 0x5d,
     0xd0, 0xdc, 0x11, 0x66, 0x64, 0x5c, 0xec, 0x59, 0x42, 0x75, 0x12, 0xf5, 0x74, 0x9c, 0xaa, 0x23,
     0x0e, 0x86, 0xab, 0xbe, 0x2a, 0x02, 0xe7, 0x67, 0xe6, 0x44, 0xa2, 0x6c, 0xc2, 0x93, 0x9f, 0xf1,
     0xf6, 0xfa, 0x36, 0xd2, 0x50, 0x68, 0x9e, 0x62, 0x71, 0x15, 0x3d, 0xd6, 0x40, 0xc4, 0xe2, 0x0f,
     0x8e, 0x83, 0x77, 0x6b, 0x25, 0x05, 0x3f, 0x0c, 0x30, 0xea, 0x70, 0xb7, 0xa1, 0xe8, 0xa9, 0x65,
     0x8d, 0x27, 0x1a, 0xdb, 0x81, 0xb3, 0xa0, 0xf4, 0x45, 0x7a, 0x19, 0xdf, 0xee, 0x78, 0x34, 0x60]"

definition S1_box :: bytes where
  "S1_box = [
     0x55, 0xc2, 0x63, 0x71, 0x3b, 0xc8, 0x47, 0x86, 0x9f, 0x3c, 0xda, 0x5b, 0x29, 0xaa, 0xfd, 0x77,
     0x8c, 0xc5, 0x94, 0x0c, 0xa6, 0x1a, 0x13, 0x00, 0xe3, 0xa8, 0x16, 0x72, 0x40, 0xf9, 0xf8, 0x42,
     0x44, 0x26, 0x68, 0x96, 0x81, 0xd9, 0x45, 0x3e, 0x10, 0x76, 0xc6, 0xa7, 0x8b, 0x39, 0x43, 0xe1,
     0x3a, 0xb5, 0x56, 0x2a, 0xc0, 0x6d, 0xb3, 0x05, 0x22, 0x66, 0xbf, 0xdc, 0x0b, 0xfa, 0x62, 0x48,
     0xdd, 0x20, 0x11, 0x06, 0x36, 0xc9, 0xc1, 0xcf, 0xf6, 0x27, 0x52, 0xbb, 0x69, 0xf5, 0xd4, 0x87,
     0x7f, 0x84, 0x4c, 0xd2, 0x9c, 0x57, 0xa4, 0xbc, 0x4f, 0x9a, 0xdf, 0xfe, 0xd6, 0x8d, 0x7a, 0xeb,
     0x2b, 0x53, 0xd8, 0x5c, 0xa1, 0x14, 0x17, 0xfb, 0x23, 0xd5, 0x7d, 0x30, 0x67, 0x73, 0x08, 0x09,
     0xee, 0xb7, 0x70, 0x3f, 0x61, 0xb2, 0x19, 0x8e, 0x4e, 0xe5, 0x4b, 0x93, 0x8f, 0x5d, 0xdb, 0xa9,
     0xad, 0xf1, 0xae, 0x2e, 0xcb, 0x0d, 0xfc, 0xf4, 0x2d, 0x46, 0x6e, 0x1d, 0x97, 0xe8, 0xd1, 0xe9,
     0x4d, 0x37, 0xa5, 0x75, 0x5e, 0x83, 0x9e, 0xab, 0x82, 0x9d, 0xb9, 0x1c, 0xe0, 0xcd, 0x49, 0x89,
     0x01, 0xb6, 0xbd, 0x58, 0x24, 0xa2, 0x5f, 0x38, 0x78, 0x99, 0x15, 0x90, 0x50, 0xb8, 0x95, 0xe4,
     0xd0, 0x91, 0xc7, 0xce, 0xed, 0x0f, 0xb4, 0x6f, 0xa0, 0xcc, 0xf0, 0x02, 0x4a, 0x79, 0xc3, 0xde,
     0xa3, 0xef, 0xea, 0x51, 0xe6, 0x6b, 0x18, 0xec, 0x1b, 0x2c, 0x80, 0xf7, 0x74, 0xe7, 0xff, 0x21,
     0x5a, 0x6a, 0x54, 0x1e, 0x41, 0x31, 0x92, 0x35, 0xc4, 0x33, 0x07, 0x0a, 0xba, 0x7e, 0x0e, 0x34,
     0x88, 0xb1, 0x98, 0x7c, 0xf3, 0x3d, 0x60, 0x6c, 0x7b, 0xca, 0xd3, 0x1f, 0x32, 0x65, 0x04, 0x28,
     0x64, 0xbe, 0x85, 0x9b, 0x2f, 0x59, 0x8a, 0xd7, 0xb0, 0x25, 0xac, 0xaf, 0x12, 0x03, 0xe2, 0xf2]"

definition EK_d :: "u32 list" where
  "EK_d = [0x44d7, 0x26bc, 0x626b, 0x135e, 0x5789, 0x35e2, 0x7135, 0x09af, 0x4d78, 0x2f13, 0x6bc4, 0x1af1, 0x5e26, 0x3c4d, 0x789a, 0x47ac]"

section \<open>The generator\<close>

record zuc_state_t =
  LFSR_S0 :: u32
  LFSR_S1 :: u32
  LFSR_S2 :: u32
  LFSR_S3 :: u32
  LFSR_S4 :: u32
  LFSR_S5 :: u32
  LFSR_S6 :: u32
  LFSR_S7 :: u32
  LFSR_S8 :: u32
  LFSR_S9 :: u32
  LFSR_S10 :: u32
  LFSR_S11 :: u32
  LFSR_S12 :: u32
  LFSR_S13 :: u32
  LFSR_S14 :: u32
  LFSR_S15 :: u32
  F_R1 :: u32
  F_R2 :: u32
  BRC_X0 :: u32
  BRC_X1 :: u32
  BRC_X2 :: u32
  BRC_X3 :: u32

definition MAKEU32 :: "u8 \<Rightarrow> u8 \<Rightarrow> u8 \<Rightarrow> u8 \<Rightarrow> u32" where
  "MAKEU32 a b c d = push_bit 24 (ucast a) OR push_bit 16 (ucast b) OR push_bit 8 (ucast c) OR ucast d"

definition MulByPow2 :: "u32 \<Rightarrow> nat \<Rightarrow> u32" where
  "MulByPow2 x k = (push_bit k x OR drop_bit (31 - k) x) AND 0x7fffffff"

definition MAKEU31 :: "u8 \<Rightarrow> u32 \<Rightarrow> u8 \<Rightarrow> u32" where
  "MAKEU31 a b c = push_bit 23 (ucast a) OR push_bit 8 b OR ucast c"

definition ROT :: "u32 \<Rightarrow> nat \<Rightarrow> u32" where
  "ROT a k = push_bit k a OR drop_bit (32 - k) a"

definition AddM :: "u32 \<Rightarrow> u32 \<Rightarrow> u32" where
  "AddM a b = (let c = a + b in (c AND 0x7fffffff) + drop_bit 31 c)"

definition lfsr_feedback :: "zuc_state_t \<Rightarrow> u32" where
  "lfsr_feedback st =
    (let f = LFSR_S0 st;
         f = AddM f (MulByPow2 (LFSR_S0 st) 8);
         f = AddM f (MulByPow2 (LFSR_S4 st) 20);
         f = AddM f (MulByPow2 (LFSR_S10 st) 21);
         f = AddM f (MulByPow2 (LFSR_S13 st) 17)
     in AddM f (MulByPow2 (LFSR_S15 st) 15))"

definition lfsr_shift :: "u32 \<Rightarrow> zuc_state_t \<Rightarrow> zuc_state_t" where
  "lfsr_shift f st =
    st\<lparr>LFSR_S0 := LFSR_S1 st, LFSR_S1 := LFSR_S2 st, LFSR_S2 := LFSR_S3 st, LFSR_S3 := LFSR_S4 st, LFSR_S4 := LFSR_S5 st, LFSR_S5 := LFSR_S6 st, LFSR_S6 := LFSR_S7 st, LFSR_S7 := LFSR_S8 st,
      LFSR_S8 := LFSR_S9 st, LFSR_S9 := LFSR_S10 st, LFSR_S10 := LFSR_S11 st, LFSR_S11 := LFSR_S12 st, LFSR_S12 := LFSR_S13 st, LFSR_S13 := LFSR_S14 st, LFSR_S14 := LFSR_S15 st, LFSR_S15 := f\<rparr>"

definition LFSRWithInitialisationMode :: "u32 \<Rightarrow> zuc_state_t \<Rightarrow> zuc_state_t" where
  "LFSRWithInitialisationMode u st = lfsr_shift (AddM (lfsr_feedback st) u) st"

definition LFSRWithWorkMode :: "zuc_state_t \<Rightarrow> zuc_state_t" where
  "LFSRWithWorkMode st = lfsr_shift (lfsr_feedback st) st"

definition BitReorganization :: "zuc_state_t \<Rightarrow> zuc_state_t" where
  "BitReorganization st =
    st\<lparr>BRC_X0 := push_bit 1 (LFSR_S15 st AND 0x7fff8000) OR (LFSR_S14 st AND 0xffff),
       BRC_X1 := push_bit 16 (LFSR_S11 st AND 0xffff) OR drop_bit 15 (LFSR_S9 st),
       BRC_X2 := push_bit 16 (LFSR_S7 st AND 0xffff) OR drop_bit 15 (LFSR_S5 st),
       BRC_X3 := push_bit 16 (LFSR_S2 st AND 0xffff) OR drop_bit 15 (LFSR_S0 st)\<rparr>"

definition L1 :: "u32 \<Rightarrow> u32" where
  "L1 X = X XOR ROT X 2 XOR ROT X 10 XOR ROT X 18 XOR ROT X 24"

definition L2 :: "u32 \<Rightarrow> u32" where
  "L2 X = X XOR ROT X 8 XOR ROT X 14 XOR ROT X 22 XOR ROT X 30"

text \<open>The four boxes on the bytes of a word.\<close>

definition zuc_boxes :: "u32 \<Rightarrow> u32" where
  "zuc_boxes u = MAKEU32 (S0_box ! unat (drop_bit 24 u)) (S1_box ! unat (drop_bit 16 u AND 0xff))
     (S0_box ! unat (drop_bit 8 u AND 0xff)) (S1_box ! unat (u AND 0xff))"

definition zuc_F :: "zuc_state_t \<Rightarrow> u32 \<times> zuc_state_t" where
  "zuc_F st =
    (let W = (BRC_X0 st XOR F_R1 st) + F_R2 st;
         W1 = F_R1 st + BRC_X1 st;
         W2 = F_R2 st XOR BRC_X2 st;
         u = L1 (push_bit 16 W1 OR drop_bit 16 W2);
         v = L2 (push_bit 16 W2 OR drop_bit 16 W1)
     in (W, st\<lparr>F_R1 := zuc_boxes u, F_R2 := zuc_boxes v\<rparr>))"

definition zuc_load :: "bytes \<Rightarrow> bytes \<Rightarrow> zuc_state_t" where
  "zuc_load k iv =
    \<lparr>LFSR_S0 = MAKEU31 (k ! 0) (EK_d ! 0) (iv ! 0), LFSR_S1 = MAKEU31 (k ! 1) (EK_d ! 1) (iv ! 1),
      LFSR_S2 = MAKEU31 (k ! 2) (EK_d ! 2) (iv ! 2), LFSR_S3 = MAKEU31 (k ! 3) (EK_d ! 3) (iv ! 3),
      LFSR_S4 = MAKEU31 (k ! 4) (EK_d ! 4) (iv ! 4), LFSR_S5 = MAKEU31 (k ! 5) (EK_d ! 5) (iv ! 5),
      LFSR_S6 = MAKEU31 (k ! 6) (EK_d ! 6) (iv ! 6), LFSR_S7 = MAKEU31 (k ! 7) (EK_d ! 7) (iv ! 7),
      LFSR_S8 = MAKEU31 (k ! 8) (EK_d ! 8) (iv ! 8), LFSR_S9 = MAKEU31 (k ! 9) (EK_d ! 9) (iv ! 9),
      LFSR_S10 = MAKEU31 (k ! 10) (EK_d ! 10) (iv ! 10), LFSR_S11 = MAKEU31 (k ! 11) (EK_d ! 11) (iv ! 11),
      LFSR_S12 = MAKEU31 (k ! 12) (EK_d ! 12) (iv ! 12), LFSR_S13 = MAKEU31 (k ! 13) (EK_d ! 13) (iv ! 13),
      LFSR_S14 = MAKEU31 (k ! 14) (EK_d ! 14) (iv ! 14), LFSR_S15 = MAKEU31 (k ! 15) (EK_d ! 15) (iv ! 15),
      F_R1 = 0, F_R2 = 0, BRC_X0 = 0, BRC_X1 = 0, BRC_X2 = 0, BRC_X3 = 0\<rparr>"

definition zuc_init_step :: "zuc_state_t \<Rightarrow> zuc_state_t" where
  "zuc_init_step st =
    (case zuc_F (BitReorganization st) of (w, st') \<Rightarrow> LFSRWithInitialisationMode (drop_bit 1 w) st')"

definition zuc_initialize :: "bytes \<Rightarrow> bytes \<Rightarrow> zuc_state_t" where
  "zuc_initialize k iv = (zuc_init_step ^^ 32) (zuc_load k iv)"

fun zuc_keystream_loop :: "nat \<Rightarrow> zuc_state_t \<Rightarrow> u32 list" where
  "zuc_keystream_loop 0 st = []"
| "zuc_keystream_loop (Suc n) st =
    (case zuc_F (BitReorganization st) of
       (w, st') \<Rightarrow> (w XOR BRC_X3 st') # zuc_keystream_loop n (LFSRWithWorkMode st'))"

definition zuc_generate_keystream :: "nat \<Rightarrow> zuc_state_t \<Rightarrow> u32 list" where
  "zuc_generate_keystream key_stream_len st =
    zuc_keystream_loop key_stream_len (LFSRWithWorkMode (snd (zuc_F (BitReorganization st))))"

lemma length_zuc_keystream [simp]: "length (zuc_generate_keystream n st) = n"
proof -
  have "length (zuc_keystream_loop n st) = n" for st
    by (induction n st rule: zuc_keystream_loop.induct) (auto split: prod.split)
  then show ?thesis by (simp add: zuc_generate_keystream_def)
qed

section \<open>The registers are field elements\<close>

text \<open>The number of field elements, and the representation of one in \<open>1 .. 2 ^ 31 - 1\<close>.\<close>

definition zuc_field :: nat where
  "zuc_field = 2 ^ 31 - 1"

definition field_elem :: "nat \<Rightarrow> nat" where
  "field_elem x = (if x mod zuc_field = 0 then zuc_field else x mod zuc_field)"

definition in_field :: "u32 \<Rightarrow> bool" where
  "in_field x \<longleftrightarrow> 1 \<le> unat x \<and> unat x \<le> zuc_field"

lemma field_elem_eqI:
  assumes "1 \<le> x" "x \<le> zuc_field" "x mod zuc_field = y mod zuc_field"
  shows "x = field_elem y"
  using assms by (cases "x = zuc_field") (auto simp: field_elem_def)

lemma fold_carry:
  assumes "(c :: nat) < 2 ^ 32" "c \<noteq> 0" "c \<le> 2 * zuc_field"
  shows "1 \<le> c mod 2 ^ 31 + c div 2 ^ 31" "c mod 2 ^ 31 + c div 2 ^ 31 \<le> zuc_field"
    "(c mod 2 ^ 31 + c div 2 ^ 31) mod zuc_field = c mod zuc_field"
proof -
  define q r where "q = c div 2 ^ 31" and "r = c mod 2 ^ 31"
  have c: "c = q * (zuc_field + 1) + r" "r \<le> zuc_field" "q \<le> 1"
    using assms(1) by (auto simp: q_def r_def zuc_field_def)
  then have "c = q * zuc_field + (r + q)" by (simp add: algebra_simps)
  then show "(c mod 2 ^ 31 + c div 2 ^ 31) mod zuc_field = c mod zuc_field"
    by (metis add.commute mod_mult_self3 q_def r_def)
  show "1 \<le> c mod 2 ^ 31 + c div 2 ^ 31"
    unfolding q_def [symmetric] r_def [symmetric] using c(1) assms(2) by (cases q; cases r) auto
  have "r + q \<le> zuc_field"
  proof (cases "q = 1")
    case True
    with c(1) assms(3) show ?thesis by simp
  next
    case False
    with c show ?thesis by simp
  qed
  then show "c mod 2 ^ 31 + c div 2 ^ 31 \<le> zuc_field"
    unfolding q_def r_def .
qed

lemma AddM_nat:
  assumes "unat a \<le> zuc_field" "unat b \<le> zuc_field"
  shows "unat (AddM a b) = (unat a + unat b) mod 2 ^ 31 + (unat a + unat b) div 2 ^ 31"
proof -
  have sum: "unat (a + b) = unat a + unat b"
    using assms by (simp add: unat_word_ariths zuc_field_def)
  have lo: "unat ((a + b) AND 0x7fffffff) = unat (a + b) mod 2 ^ 31"
  proof -
    have "(a + b) AND 0x7fffffff = take_bit 31 (a + b)"
      by (simp add: take_bit_eq_mask mask_eq_exp_minus_1)
    then show ?thesis by (simp add: take_bit_eq_mod unat_mod)
  qed
  have hi: "unat (drop_bit 31 (a + b)) = unat (a + b) div 2 ^ 31"
    by (simp add: drop_bit_eq_div unat_div)
  have "unat (a + b) mod 2 ^ 31 + unat (a + b) div 2 ^ 31 < 2 ^ 32"
    using unsigned_less [of "a + b", where 'a = nat] by simp
  then have "unat (((a + b) AND 0x7fffffff) + drop_bit 31 (a + b)) =
      unat (a + b) mod 2 ^ 31 + unat (a + b) div 2 ^ 31"
    by (simp only: unat_add_fits lo hi)
  then show ?thesis by (simp only: AddM_def Let_def sum)
qed

lemma AddM_field:
  assumes "in_field a" "unat b \<le> zuc_field"
  shows "in_field (AddM a b)" "unat (AddM a b) mod zuc_field = (unat a + unat b) mod zuc_field"
proof -
  from assms have "unat a \<le> zuc_field" "unat a + unat b \<noteq> 0" "unat a + unat b \<le> 2 * zuc_field"
      "unat a + unat b < 2 ^ 32"
    by (auto simp: in_field_def zuc_field_def)
  with AddM_nat [of a b] fold_carry [of "unat a + unat b"] assms(2)
  show "in_field (AddM a b)" "unat (AddM a b) mod zuc_field = (unat a + unat b) mod zuc_field"
    by (auto simp: in_field_def)
qed

lemma rotate_nat:
  fixes x :: nat
  assumes "1 \<le> x" "x \<le> zuc_field" "k \<le> 31"
  defines "y \<equiv> x * 2 ^ k mod 2 ^ 31 + x div 2 ^ (31 - k)"
  shows "1 \<le> y" "y \<le> zuc_field" "y mod zuc_field = x * 2 ^ k mod zuc_field"
proof -
  define q r where "q = x div 2 ^ (31 - k)" and "r = x mod 2 ^ (31 - k)"
  have p: "(2 :: nat) ^ (31 - k) * 2 ^ k = zuc_field + 1"
    using assms(3) by (simp add: zuc_field_def flip: power_add)
  have x: "x = q * 2 ^ (31 - k) + r" "r < 2 ^ (31 - k)"
    by (simp_all only: q_def r_def div_mult_mod_eq) simp
  have "r * 2 ^ k < 2 ^ (31 - k) * 2 ^ k"
    using x(2) by simp
  then have r: "r * 2 ^ k < 2 ^ 31" "r * 2 ^ k + 2 ^ k \<le> 2 ^ 31"
    using x(2) p mult_le_mono1 [of "Suc r" "2 ^ (31 - k)" "2 ^ k"] by (simp_all add: zuc_field_def)
  have "x * 2 ^ k = q * (2 ^ (31 - k) * 2 ^ k) + r * 2 ^ k"
    by (simp add: x(1) algebra_simps)
  then have xk: "x * 2 ^ k = q * 2 ^ 31 + r * 2 ^ k"
    by (simp add: p zuc_field_def)
  with r(1) have y: "y = r * 2 ^ k + q"
    by (simp add: y_def q_def)
  have "q < 2 ^ k"
  proof (rule ccontr)
    assume "\<not> q < 2 ^ k"
    then have "2 ^ k * 2 ^ (31 - k) \<le> q * 2 ^ (31 - k)" by simp
    with x(1) p assms(2) show False by (simp add: mult.commute)
  qed
  with r(2) show "y \<le> zuc_field" by (simp add: y zuc_field_def)
  show "1 \<le> y" using assms(1) x(1) by (cases q; cases r) (auto simp: y Suc_le_eq)
  have "x * 2 ^ k = y + q * zuc_field"
    by (simp add: xk y zuc_field_def algebra_simps)
  then show "y mod zuc_field = x * 2 ^ k mod zuc_field" by simp
qed

lemma MulByPow2_nat:
  assumes "unat x \<le> zuc_field" "k \<le> 31"
  shows "unat (MulByPow2 x k) = unat x * 2 ^ k mod 2 ^ 31 + unat x div 2 ^ (31 - k)"
proof -
  have "x < 2 ^ 31" using assms(1) by (simp add: word_less_nat_alt zuc_field_def)
  from bit_less_exp [OF this] have x31: "bit x i \<Longrightarrow> i < 31" for i .
  have m: "(0x7fffffff :: u32) = mask 31" by (simp add: mask_eq_exp_minus_1)
  have "MulByPow2 x k = take_bit 31 (push_bit k x) OR drop_bit (31 - k) x"
    unfolding MulByPow2_def m using assms(2) x31
    by (intro bit_word_eqI) (auto simp: bit_simps dest: x31)
  moreover have "take_bit 31 (push_bit k x) AND drop_bit (31 - k) x = 0"
    using assms(2) x31 by (intro bit_word_eqI) (auto simp: bit_simps dest: x31)
  ultimately have eq: "MulByPow2 x k = take_bit 31 (push_bit k x) + drop_bit (31 - k) x"
    by (simp add: disjunctive_add_eq_or)
  have lo: "unat (take_bit 31 (push_bit k x)) = unat x * 2 ^ k mod 2 ^ 31"
    by (simp only: unsigned_take_bit_eq unsigned_push_bit_eq take_bit_take_bit)
      (simp add: push_bit_eq_mult take_bit_eq_mod)
  have hi: "unat (drop_bit (31 - k) x) = unat x div 2 ^ (31 - k)"
    unfolding unat_drop_bit_eq by (rule drop_bit_eq_div)
  have "unat x * 2 ^ k mod 2 ^ 31 + unat x div 2 ^ (31 - k) < 2 ^ 32"
  proof -
    have "unat x div 2 ^ (31 - k) \<le> unat x" by (rule div_le_dividend)
    moreover have "unat x * 2 ^ k mod 2 ^ 31 < 2 ^ 31" by (rule mod_less_divisor) simp
    moreover have "unat x < 2 ^ 31" using assms(1) by (simp add: zuc_field_def)
    ultimately have "unat x * 2 ^ k mod 2 ^ 31 + unat x div 2 ^ (31 - k) < 2 ^ 31 + 2 ^ 31"
      by (intro add_strict_mono) (simp_all only: le_less_trans)
    then show ?thesis by (simp only: mult_2 [symmetric] power_Suc [symmetric]) simp
  qed
  then show ?thesis by (simp add: eq unat_word_ariths lo hi)
qed

lemma MulByPow2_field:
  assumes "in_field x" "k \<le> 31"
  shows "in_field (MulByPow2 x k)" "unat (MulByPow2 x k) mod zuc_field = unat x * 2 ^ k mod zuc_field"
  using assms MulByPow2_nat [of x k] rotate_nat [of "unat x" k] by (simp_all add: in_field_def)

section \<open>Clocking the register\<close>

definition zuc_regs :: "zuc_state_t \<Rightarrow> u32 list" where
  "zuc_regs st =
    [LFSR_S0 st, LFSR_S1 st, LFSR_S2 st, LFSR_S3 st, LFSR_S4 st, LFSR_S5 st, LFSR_S6 st, LFSR_S7 st,
     LFSR_S8 st, LFSR_S9 st, LFSR_S10 st, LFSR_S11 st, LFSR_S12 st, LFSR_S13 st, LFSR_S14 st, LFSR_S15 st]"

definition zuc_ok :: "zuc_state_t \<Rightarrow> bool" where
  "zuc_ok st \<longleftrightarrow> list_all in_field (zuc_regs st)"

text \<open>The recurrence of the specification, with the input of the initialisation mode.\<close>

definition zuc_spec_next :: "nat list \<Rightarrow> nat \<Rightarrow> nat" where
  "zuc_spec_next s u = field_elem
    (2 ^ 15 * s ! 15 + 2 ^ 17 * s ! 13 + 2 ^ 21 * s ! 10 + 2 ^ 20 * s ! 4 + (1 + 2 ^ 8) * s ! 0 + u)"

definition zuc_work_step :: "zuc_state_t \<Rightarrow> zuc_state_t" where
  "zuc_work_step st = LFSRWithWorkMode (snd (zuc_F (BitReorganization st)))"

lemma zuc_regs_F [simp]:
  "zuc_regs (snd (zuc_F st)) = zuc_regs st" "zuc_regs (BitReorganization st) = zuc_regs st"
  by (simp_all add: zuc_regs_def zuc_F_def BitReorganization_def Let_def)

lemma zuc_regs_shift: "zuc_regs (lfsr_shift f st) = tl (zuc_regs st) @ [f]"
  by (simp add: zuc_regs_def lfsr_shift_def)

lemma AddM_MulByPow2:
  assumes "in_field f" "in_field x" "k \<le> 31" "unat f mod zuc_field = y mod zuc_field"
  shows "in_field (AddM f (MulByPow2 x k))"
    "unat (AddM f (MulByPow2 x k)) mod zuc_field = (y + unat x * 2 ^ k) mod zuc_field"
proof -
  from MulByPow2_field [OF assms(2,3)] have m: "unat (MulByPow2 x k) \<le> zuc_field"
      "unat (MulByPow2 x k) mod zuc_field = unat x * 2 ^ k mod zuc_field"
    by (simp_all add: in_field_def)
  show "in_field (AddM f (MulByPow2 x k))" by (rule AddM_field(1) [OF assms(1) m(1)])
  show "unat (AddM f (MulByPow2 x k)) mod zuc_field = (y + unat x * 2 ^ k) mod zuc_field"
    unfolding AddM_field(2) [OF assms(1) m(1)] by (rule mod_add_cong [OF assms(4) m(2)])
qed

lemma lfsr_feedback_field:
  assumes "zuc_ok st"
  shows "in_field (lfsr_feedback st)"
    "unat (lfsr_feedback st) mod zuc_field =
      (unat (LFSR_S0 st) + unat (LFSR_S0 st) * 2 ^ 8 + unat (LFSR_S4 st) * 2 ^ 20 + unat (LFSR_S10 st) * 2 ^ 21 +
        unat (LFSR_S13 st) * 2 ^ 17 + unat (LFSR_S15 st) * 2 ^ 15) mod zuc_field"
proof -
  from assms have f: "in_field (LFSR_S0 st)" "in_field (LFSR_S4 st)" "in_field (LFSR_S10 st)"
      "in_field (LFSR_S13 st)" "in_field (LFSR_S15 st)"
    by (simp_all add: zuc_ok_def zuc_regs_def)
  note a = AddM_MulByPow2 [OF f(1) f(1), of 8, OF _ refl, simplified]
  note b = AddM_MulByPow2 [OF a(1) f(2) _ a(2), of 20, simplified]
  note c = AddM_MulByPow2 [OF b(1) f(3) _ b(2), of 21, simplified]
  note d = AddM_MulByPow2 [OF c(1) f(4) _ c(2), of 17, simplified]
  note e = AddM_MulByPow2 [OF d(1) f(5) _ d(2), of 15, simplified]
  show "in_field (lfsr_feedback st)"
    using e(1) by (simp add: lfsr_feedback_def Let_def)
  show "unat (lfsr_feedback st) mod zuc_field =
      (unat (LFSR_S0 st) + unat (LFSR_S0 st) * 2 ^ 8 + unat (LFSR_S4 st) * 2 ^ 20 + unat (LFSR_S10 st) * 2 ^ 21 +
        unat (LFSR_S13 st) * 2 ^ 17 + unat (LFSR_S15 st) * 2 ^ 15) mod zuc_field"
    using e(2) by (simp add: lfsr_feedback_def Let_def)
qed

lemma lfsr_clock:
  assumes "zuc_ok st" "unat u \<le> zuc_field"
  shows "in_field (AddM (lfsr_feedback st) u)"
    "unat (AddM (lfsr_feedback st) u) = zuc_spec_next (map unat (zuc_regs st)) (unat u)"
    "unat (lfsr_feedback st) = zuc_spec_next (map unat (zuc_regs st)) 0"
proof -
  note fb = lfsr_feedback_field [OF assms(1)]
  note add = AddM_field [OF fb(1) assms(2)]
  show "in_field (AddM (lfsr_feedback st) u)" by (rule add(1))
  show "unat (AddM (lfsr_feedback st) u) = zuc_spec_next (map unat (zuc_regs st)) (unat u)"
    unfolding zuc_spec_next_def
  proof (rule field_elem_eqI)
    show "unat (AddM (lfsr_feedback st) u) mod zuc_field =
      (2 ^ 15 * map unat (zuc_regs st) ! 15 + 2 ^ 17 * map unat (zuc_regs st) ! 13 +
       2 ^ 21 * map unat (zuc_regs st) ! 10 + 2 ^ 20 * map unat (zuc_regs st) ! 4 +
       (1 + 2 ^ 8) * map unat (zuc_regs st) ! 0 + unat u) mod zuc_field"
      unfolding add(2) mod_add_cong [OF fb(2) refl, of "unat u"]
      by (simp add: zuc_regs_def algebra_simps)
  qed (use add(1) in \<open>simp_all add: in_field_def\<close>)
  show "unat (lfsr_feedback st) = zuc_spec_next (map unat (zuc_regs st)) 0"
    unfolding zuc_spec_next_def
    by (rule field_elem_eqI) (use fb in \<open>simp_all add: in_field_def zuc_regs_def algebra_simps\<close>)
qed

lemma zuc_ok_shift: "zuc_ok st \<Longrightarrow> in_field f \<Longrightarrow> zuc_ok (lfsr_shift f st)"
  by (simp add: zuc_ok_def zuc_regs_def lfsr_shift_def)

lemma zuc_ok_F [simp]: "zuc_ok (snd (zuc_F (BitReorganization st))) = zuc_ok st"
  by (simp add: zuc_ok_def)

lemma half_in_field: "unat (drop_bit 1 (w :: u32)) \<le> zuc_field"
proof -
  have "unat (drop_bit 1 w) = unat w div 2"
    unfolding unat_drop_bit_eq by (simp add: drop_bit_eq_div)
  with unsigned_less [of w, where 'a = nat] show ?thesis by (simp add: zuc_field_def)
qed

lemma zuc_steps_ok:
  assumes "zuc_ok st"
  shows "zuc_ok (zuc_init_step st)" "zuc_ok (zuc_work_step st)"
proof -
  have ok: "zuc_ok (snd (zuc_F (BitReorganization st)))" using assms by simp
  show "zuc_ok (zuc_init_step st)"
    using lfsr_clock(1) [OF ok half_in_field] zuc_ok_shift [OF ok]
    by (simp add: zuc_init_step_def LFSRWithInitialisationMode_def split: prod.split) (metis snd_conv)
  show "zuc_ok (zuc_work_step st)"
    using lfsr_feedback_field(1) [OF ok] zuc_ok_shift [OF ok]
    by (simp add: zuc_work_step_def LFSRWithWorkMode_def)
qed

text \<open>The constants of the key loading keep a register from being zero.\<close>

lemma MAKEU31_field:
  assumes "b \<noteq> 0" "b < 2 ^ 15"
  shows "in_field (MAKEU31 x b y)"
proof -
  obtain i where b: "bit b i" using assms(1) by (metis bit_0_eq bit_eqI bot_apply bot_bool_def)
  have i: "i < 15" using bit_less_exp [OF assms(2) b] .
  have "bit (MAKEU31 x b y) (i + 8)"
    using b i by (simp add: MAKEU31_def bit_simps)
  then have "MAKEU31 x b y \<noteq> 0" by auto
  then have "1 \<le> unat (MAKEU31 x b y)" by (metis One_nat_def Suc_leI neq0_conv unat_eq_zero)
  moreover have "take_bit 31 (MAKEU31 x b y) = MAKEU31 x b y"
  proof (rule bit_word_eqI)
    fix n
    show "bit (take_bit 31 (MAKEU31 x b y)) n \<longleftrightarrow> bit (MAKEU31 x b y) n"
      using bit_less_exp [OF assms(2), of "n - 8"]
      by (auto simp: MAKEU31_def bit_simps dest: bit_imp_le_length)
  qed
  then have "unat (MAKEU31 x b y) < 2 ^ 31"
    by (metis take_bit_nat_less_exp unsigned_take_bit_eq)
  ultimately show ?thesis by (simp add: in_field_def zuc_field_def)
qed

lemma zuc_load_ok: "zuc_ok (zuc_load k iv)"
proof -
  have "list_all (\<lambda>b. b \<noteq> 0 \<and> b < 2 ^ 15) EK_d" "length EK_d = 16"
    by (simp_all add: EK_d_def)
  then have d: "in_field (MAKEU31 x (EK_d ! i) y)" if "i < 16" for i x y
    using that by (intro MAKEU31_field) (auto simp: list_all_length)
  show ?thesis by (simp add: zuc_ok_def zuc_regs_def zuc_load_def d)
qed

section \<open>Properties\<close>

text \<open>C20: From the loading of any key and initialisation vector on, through initialisation and work mode, the
  sixteen registers hold numbers from 1 to \<open>2 ^ 31 - 1\<close>, and each clock computes the element of the recurrence of the
  ZUC specification in that representation, although the code never tests for zero.\<close>

theorem zuc_registers_are_field_elements:
  "let st = (zuc_work_step ^^ m) ((zuc_init_step ^^ n) (zuc_load k iv)) in
    list_all in_field (zuc_regs st) \<and>
    unat (LFSR_S15 (zuc_work_step st)) = zuc_spec_next (map unat (zuc_regs st)) 0 \<and>
    unat (LFSR_S15 (zuc_init_step st)) =
      zuc_spec_next (map unat (zuc_regs st)) (unat (drop_bit 1 (fst (zuc_F (BitReorganization st)))))"
proof -
  define st where "st = (zuc_work_step ^^ m) ((zuc_init_step ^^ n) (zuc_load k iv))"
  have "zuc_ok ((zuc_init_step ^^ n) (zuc_load k iv))"
    by (induction n) (simp_all add: zuc_load_ok zuc_steps_ok)
  then have st: "zuc_ok st"
    unfolding st_def by (induction m) (simp_all add: zuc_steps_ok)
  let ?st = "snd (zuc_F (BitReorganization st))"
  have ok: "zuc_ok ?st" using st by simp
  have "LFSR_S15 (zuc_work_step st) = lfsr_feedback ?st"
    by (simp add: zuc_work_step_def LFSRWithWorkMode_def lfsr_shift_def)
  moreover have "LFSR_S15 (zuc_init_step st) =
      AddM (lfsr_feedback ?st) (drop_bit 1 (fst (zuc_F (BitReorganization st))))"
    by (simp add: zuc_init_step_def LFSRWithInitialisationMode_def lfsr_shift_def split: prod.split)
  ultimately show ?thesis
    using st lfsr_clock(2) [OF ok half_in_field] lfsr_clock(3) [OF ok half_in_field]
    unfolding st_def [symmetric] by (simp add: zuc_ok_def Let_def)
qed

end
