(* ===== verification/Security.thy ===== *)
theory Security
  imports Snow3g Zuc
begin

text \<open>
  Ciphering (\<open>ciphering.h\<close>), integrity protection (\<open>integrity.h\<close>), algorithm selection and key derivation
  (\<open>security.h\<close>, \<open>security.cpp\<close>).  AES and HMAC-SHA-256 are those of a cryptographic library, an argument of
  the definitions that use them: the record \<open>crypto_lib\<close> has one field per library function that \<open>ssl.h\<close>
  wraps.  What ciphering relies on is \<open>ctr_law\<close>: counter mode adds a key stream that does not depend on the
  data.  Functions that write into the message authentication code they are given return it.
\<close>

section \<open>Types\<close>

datatype ciphering_algorithm = Nea0 | Nea1 | Nea2 | Nea3

datatype integrity_algorithm = Nia0 | Nia1 | Nia2 | Nia3

datatype security_direction = Uplink | Downlink

datatype sec_domain = Rrc_domain | Up_domain

definition direction_number :: "security_direction \<Rightarrow> u8" where
  "direction_number d = (case d of Uplink \<Rightarrow> 0 | Downlink \<Rightarrow> 1)"

definition cipher_number :: "ciphering_algorithm \<Rightarrow> nat" where
  "cipher_number a = (case a of Nea0 \<Rightarrow> 0 | Nea1 \<Rightarrow> 1 | Nea2 \<Rightarrow> 2 | Nea3 \<Rightarrow> 3)"

definition ciphering_algorithm_from_number :: "nat \<Rightarrow> ciphering_algorithm res" where
  "ciphering_algorithm_from_number n =
    (if n < 4 then Inr ([Nea0, Nea1, Nea2, Nea3] ! n) else Inl Assertion_failed)"

definition integ_number :: "integrity_algorithm \<Rightarrow> nat" where
  "integ_number a = (case a of Nia0 \<Rightarrow> 0 | Nia1 \<Rightarrow> 1 | Nia2 \<Rightarrow> 2 | Nia3 \<Rightarrow> 3)"

definition integrity_algorithm_from_number :: "nat \<Rightarrow> integrity_algorithm res" where
  "integrity_algorithm_from_number n =
    (if n < 4 then Inr ([Nia0, Nia1, Nia2, Nia3] ! n) else Inl Assertion_failed)"

definition sec_mac_len :: nat where
  "sec_mac_len = 4"

definition sec_key_len :: nat where
  "sec_key_len = 32"

definition sec_128_key_len :: nat where
  "sec_128_key_len = 16"

text \<open>A value-initialised \<open>sec_mac\<close>.\<close>

definition sec_mac_zero :: bytes where
  "sec_mac_zero = replicate 4 0"

record sec_128_as_config =
  sec_domain_128 :: sec_domain
  k_128_int :: bytes
  k_128_enc :: bytes
  integ_algo_128 :: integrity_algorithm
  cipher_algo_128 :: ciphering_algorithm

record sec_as_config =
  sec_domain_as :: sec_domain
  k_int :: bytes
  k_enc :: bytes
  integ_algo_as :: integrity_algorithm
  cipher_algo_as :: ciphering_algorithm

text \<open>The state of counter mode: offset in the stream block, counter and stream block.\<close>

type_synonym ctr_state = "nat \<times> bytes \<times> bytes"

record 'ctx crypto_lib =
  aes_setkey_enc :: "bytes \<Rightarrow> int \<times> 'ctx"
  aes_crypt_ecb :: "'ctx \<Rightarrow> bytes \<Rightarrow> bytes"
  aes_crypt_ctr :: "'ctx \<Rightarrow> ctr_state \<Rightarrow> u8 \<Rightarrow> int \<times> ctr_state \<times> u8"
  hmac_sha256 :: "bytes \<Rightarrow> bytes \<Rightarrow> bytes"

section \<open>Ciphering\<close>

definition zero_tailing_bits :: "u8 \<Rightarrow> u8 \<Rightarrow> u8" where
  "zero_tailing_bits tail_byte length_bits =
    (let n = (8 - (length_bits AND 0x07)) AND 0x07 in tail_byte AND push_bit (unat n) 0xff)"

definition zero_tail :: "u32 \<Rightarrow> bytes \<Rightarrow> bytes" where
  "zero_tail msg_len out = butlast out @ [zero_tailing_bits (last out) (ucast msg_len)]"

abbreviation block_8 :: "u32 \<Rightarrow> nat" where
  "block_8 msg_len \<equiv> unat ((msg_len + 7) div 8)"

abbreviation block_32 :: "u32 \<Rightarrow> nat" where
  "block_32 msg_len \<equiv> unat ((msg_len + 31) div 32)"

text \<open>Both stream ciphers: whole words of the key stream first, then the bytes of the last word.\<close>

definition stream_words :: "u32 list \<Rightarrow> bytes \<Rightarrow> nat \<Rightarrow> bytes" where
  "stream_words ks msg n =
    concat (map (\<lambda>i. [msg ! (4 * i) XOR u32_byte 3 (ks ! i), msg ! (4 * i + 1) XOR u32_byte 2 (ks ! i),
      msg ! (4 * i + 2) XOR u32_byte 1 (ks ! i), msg ! (4 * i + 3) XOR u32_byte 0 (ks ! i)]) [0..<n])"

definition stream_tail :: "u32 list \<Rightarrow> bytes \<Rightarrow> nat \<Rightarrow> nat \<Rightarrow> bytes" where
  "stream_tail ks msg a b = map (\<lambda>i. msg ! i XOR u32_byte (3 - i mod 4) (ks ! (i div 4))) [a..<b]"

definition stream_xor :: "u32 list \<Rightarrow> bytes \<Rightarrow> u32 \<Rightarrow> bytes" where
  "stream_xor ks msg msg_len =
    zero_tail msg_len
      (stream_words ks msg (block_32 msg_len - 1) @
       stream_tail ks msg ((block_32 msg_len - 1) * 4) (block_8 msg_len))"

text \<open>
  Without a block the index of the last word is negative and the loop over the last bytes reads outside of
  the key stream.
\<close>

definition security_nea1_len ::
  "bytes \<Rightarrow> u32 \<Rightarrow> u8 \<Rightarrow> security_direction \<Rightarrow> bytes \<Rightarrow> u32 \<Rightarrow> bytes res" where
  "security_nea1_len key count bearer direction msg msg_len =
    (if unat (of_nat (length msg) :: u32) < block_8 msg_len then Inr []
     else if block_32 msg_len = 0 then Inl Invalid_access
     else
       let k = map (\<lambda>i. make_u32 (key ! (4 * (3 - i))) (key ! (4 * (3 - i) + 1))
             (key ! (4 * (3 - i) + 2)) (key ! (4 * (3 - i) + 3))) [0..<4];
           iv2 = push_bit 27 (ucast (bearer AND 0x1f)) OR push_bit 26 (ucast (direction_number direction AND 0x01));
           iv = [iv2, count, iv2, count];
           ks = s3g_generate_keystream (block_32 msg_len) (s3g_initialize k iv)
       in Inr (stream_xor ks msg msg_len))"

definition security_nea1 :: "bytes \<Rightarrow> u32 \<Rightarrow> u8 \<Rightarrow> security_direction \<Rightarrow> bytes \<Rightarrow> bytes res" where
  "security_nea1 key count bearer direction msg =
    security_nea1_len key count bearer direction msg (of_nat (length msg * 8))"

fun nea2_loop :: "(u8 \<Rightarrow> ctr_state \<Rightarrow> int \<times> ctr_state \<times> u8) \<Rightarrow> int \<Rightarrow> ctr_state \<Rightarrow> bytes \<Rightarrow> int \<times> bytes" where
  "nea2_loop crypt ret st [] = (ret, [])"
| "nea2_loop crypt ret st (b # bs) =
    (case crypt b st of (ret', st', out) \<Rightarrow>
      (case nea2_loop crypt ret' st' bs of (ret'', outs) \<Rightarrow> (ret'', out # outs)))"

definition nea2_nonce :: "u32 \<Rightarrow> u8 \<Rightarrow> security_direction \<Rightarrow> bytes" where
  "nea2_nonce count bearer direction =
    [u32_byte 3 count, u32_byte 2 count, u32_byte 1 count, u32_byte 0 count,
     push_bit 3 (bearer AND 0x1f) OR push_bit 2 (direction_number direction AND 0x01)] @ replicate 11 0"

definition security_nea2_len ::
  "'ctx crypto_lib \<Rightarrow> bytes \<Rightarrow> u32 \<Rightarrow> u8 \<Rightarrow> security_direction \<Rightarrow> bytes \<Rightarrow> u32 \<Rightarrow> bytes res" where
  "security_nea2_len lib key count bearer direction msg msg_len =
    (case aes_setkey_enc lib key of (ret, ctx) \<Rightarrow>
      if unat (of_nat (length msg) :: u32) < block_8 msg_len then Inr []
      else if ret \<noteq> 0 then Inr []
      else
        (case nea2_loop (\<lambda>b st. aes_crypt_ctr lib ctx st b) ret
            (0, nea2_nonce count bearer direction, replicate 16 0) (take (block_8 msg_len) msg) of (ret', out) \<Rightarrow>
          if ret' \<noteq> 0 then Inr out
          else if out = [] then Inl Invalid_access
          else Inr (zero_tail msg_len out)))"

definition security_nea2 ::
  "'ctx crypto_lib \<Rightarrow> bytes \<Rightarrow> u32 \<Rightarrow> u8 \<Rightarrow> security_direction \<Rightarrow> bytes \<Rightarrow> bytes res" where
  "security_nea2 lib key count bearer direction msg =
    security_nea2_len lib key count bearer direction msg (of_nat (length msg * 8))"

definition nea3_iv :: "u32 \<Rightarrow> u8 \<Rightarrow> security_direction \<Rightarrow> bytes" where
  "nea3_iv count bearer direction =
    (let iv = [u32_byte 3 count, u32_byte 2 count, u32_byte 1 count, u32_byte 0 count,
       push_bit 3 (bearer AND 0x1f) OR push_bit 2 (direction_number direction AND 0x01), 0, 0, 0]
     in iv @ iv)"

definition security_nea3_len ::
  "bytes \<Rightarrow> u32 \<Rightarrow> u8 \<Rightarrow> security_direction \<Rightarrow> bytes \<Rightarrow> u32 \<Rightarrow> bytes res" where
  "security_nea3_len key count bearer direction msg msg_len =
    (if unat (of_nat (length msg) :: u32) < block_8 msg_len then Inr []
     else if block_32 msg_len = 0 then Inl Invalid_access
     else
       let ks = zuc_generate_keystream (block_32 msg_len) (zuc_initialize key (nea3_iv count bearer direction))
       in Inr (stream_xor ks msg msg_len))"

definition security_nea3 :: "bytes \<Rightarrow> u32 \<Rightarrow> u8 \<Rightarrow> security_direction \<Rightarrow> bytes \<Rightarrow> bytes res" where
  "security_nea3 key count bearer direction msg =
    security_nea3_len key count bearer direction msg (of_nat (length msg * 8))"

section \<open>Integrity protection\<close>

definition security_nia1_len ::
  "bytes \<Rightarrow> bytes \<Rightarrow> u32 \<Rightarrow> u8 \<Rightarrow> security_direction \<Rightarrow> bytes \<Rightarrow> u32 \<Rightarrow> bytes res" where
  "security_nia1_len mac key count bearer direction msg msg_len =
    (if block_8 msg_len \<le> unat (of_nat (length msg) :: u32)
     then s3g_f9 key count (push_bit 27 (ucast bearer)) (ucast (direction_number direction)) msg (ucast msg_len)
     else Inr mac)"

definition security_nia1 ::
  "bytes \<Rightarrow> bytes \<Rightarrow> u32 \<Rightarrow> u8 \<Rightarrow> security_direction \<Rightarrow> bytes \<Rightarrow> bytes res" where
  "security_nia1 mac key count bearer direction msg =
    security_nia1_len mac key count bearer direction msg (of_nat (length msg * 8))"

text \<open>NIA2: the CMAC mode written out over single block encryptions.\<close>

definition cmac_subkey :: "bytes \<Rightarrow> bytes" where
  "cmac_subkey L =
    (let K = map (\<lambda>i. push_bit 1 (L ! i) OR (drop_bit 7 (L ! (i + 1)) AND 0x01)) [0..<15] @ [push_bit 1 (L ! 15)]
     in if L ! 0 AND 0x80 \<noteq> 0 then K[15 := K ! 15 XOR 0x87] else K)"

definition xor_block :: "bytes \<Rightarrow> bytes \<Rightarrow> nat \<Rightarrow> bytes" where
  "xor_block T M i = map (\<lambda>j. T ! j XOR M ! (i * 16 + j)) [0..<16]"

definition nia2_message :: "u32 \<Rightarrow> u8 \<Rightarrow> security_direction \<Rightarrow> bytes \<Rightarrow> nat \<Rightarrow> bytes" where
  "nia2_message count bearer direction msg n8 =
    [u32_byte 3 count, u32_byte 2 count, u32_byte 1 count, u32_byte 0 count,
     push_bit 3 bearer OR push_bit 2 (direction_number direction), 0, 0, 0] @ take n8 msg @ replicate 16 0"

text \<open>
  The number of blocks is rounded up with \<open>ceilf\<close>, exact for messages below \<open>2 ^ 24\<close> bytes.
\<close>

definition security_nia2_len ::
  "'ctx crypto_lib \<Rightarrow> bytes \<Rightarrow> bytes \<Rightarrow> u32 \<Rightarrow> u8 \<Rightarrow> security_direction \<Rightarrow> bytes \<Rightarrow> u32 \<Rightarrow> bytes res" where
  "security_nia2_len lib mac key count bearer direction msg msg_len =
    (if block_8 msg_len \<le> unat (of_nat (length msg) :: u32) then
       let ctx = snd (aes_setkey_enc lib key);
           K1 = cmac_subkey (aes_crypt_ecb lib ctx (replicate 16 0));
           K2 = cmac_subkey K1;
           M = nia2_message count bearer direction msg (block_8 msg_len);
           n = (block_8 msg_len + 8 + 15) div 16;
           T = foldl (\<lambda>T i. aes_crypt_ecb lib ctx (xor_block T M i)) (replicate 16 0) [0..<n - 1];
           pad_bits = (unat msg_len + 64) mod 128;
           at = (n - 1) * 16 + (15 - (127 - pad_bits) div 8);
           M' = (if pad_bits = 0 then M else M[at := M ! at OR push_bit ((127 - pad_bits) mod 8) 1]);
           K = (if pad_bits = 0 then K1 else K2);
           T = aes_crypt_ecb lib ctx (map2 (XOR) K (xor_block T M' (n - 1)))
       in Inr (take 4 T)
     else Inr mac)"

definition security_nia2 ::
  "'ctx crypto_lib \<Rightarrow> bytes \<Rightarrow> bytes \<Rightarrow> u32 \<Rightarrow> u8 \<Rightarrow> security_direction \<Rightarrow> bytes \<Rightarrow> bytes res" where
  "security_nia2 lib mac key count bearer direction msg =
    security_nia2_len lib mac key count bearer direction msg (of_nat (length msg * 8))"

text \<open>NIA3: the words of the key stream from every bit of the message that is set.\<close>

definition GET_WORD :: "u32 list \<Rightarrow> nat \<Rightarrow> u32" where
  "GET_WORD DATA i =
    (let ti = i mod 32 in
     if ti = 0 then DATA ! (i div 32)
     else push_bit ti (DATA ! (i div 32)) OR drop_bit (32 - ti) (DATA ! (i div 32 + 1)))"

definition nia3_iv :: "u32 \<Rightarrow> u8 \<Rightarrow> security_direction \<Rightarrow> bytes" where
  "nia3_iv count bearer direction =
    (let iv4 = push_bit 3 bearer AND 0xf8; d = push_bit 7 (direction_number direction AND 1) in
     [u32_byte 3 count, u32_byte 2 count, u32_byte 1 count, u32_byte 0 count, iv4, 0, 0, 0,
      u32_byte 3 count XOR d, u32_byte 2 count, u32_byte 1 count, u32_byte 0 count, iv4, 0, 0 XOR d, 0])"

definition security_nia3_len ::
  "bytes \<Rightarrow> bytes \<Rightarrow> u32 \<Rightarrow> u8 \<Rightarrow> security_direction \<Rightarrow> bytes \<Rightarrow> u32 \<Rightarrow> bytes res" where
  "security_nia3_len mac key count bearer direction msg msg_len =
    (if block_8 msg_len \<le> unat (of_nat (length msg) :: u32) then
       let L = (unat msg_len + 64 + 31) div 32;
           ks = zuc_generate_keystream L (zuc_initialize key (nia3_iv count bearer direction));
           T = foldl (\<lambda>T i. if msg ! (i div 8) AND push_bit (7 - i mod 8) 1 \<noteq> 0 then T XOR GET_WORD ks i else T)
             0 [0..<unat msg_len];
           T = T XOR GET_WORD ks (unat msg_len);
           mac_tmp = T XOR ks ! (L - 1)
       in Inr [u32_byte 3 mac_tmp, u32_byte 2 mac_tmp, u32_byte 1 mac_tmp, u32_byte 0 mac_tmp]
     else Inr mac)"

definition security_nia3 ::
  "bytes \<Rightarrow> bytes \<Rightarrow> u32 \<Rightarrow> u8 \<Rightarrow> security_direction \<Rightarrow> bytes \<Rightarrow> bytes res" where
  "security_nia3 mac key count bearer direction msg =
    security_nia3_len mac key count bearer direction msg (of_nat (length msg * 8))"

section \<open>Keys\<close>

definition truncate_key :: "bytes \<Rightarrow> bytes" where
  "truncate_key key_in = drop (sec_key_len - sec_128_key_len) key_in"

definition truncate_config :: "sec_as_config \<Rightarrow> sec_128_as_config" where
  "truncate_config cfg =
    \<lparr>sec_domain_128 = sec_domain_as cfg, k_128_int = truncate_key (k_int cfg), k_128_enc = truncate_key (k_enc cfg),
     integ_algo_128 = integ_algo_as cfg, cipher_algo_128 = cipher_algo_as cfg\<rparr>"

text \<open>The length of a parameter in network byte order, 16 bits.\<close>

definition kdf_len :: "bytes \<Rightarrow> bytes" where
  "kdf_len p = (let n = of_nat (length p) :: u16 in [ucast (drop_bit 8 n), ucast n])"

definition generic_kdf :: "'ctx crypto_lib \<Rightarrow> bytes \<Rightarrow> u8 \<Rightarrow> bytes \<Rightarrow> bytes \<Rightarrow> bytes" where
  "generic_kdf lib key_in fc p0 p1 =
    hmac_sha256 lib key_in ([fc] @ p0 @ kdf_len p0 @ p1 @ kdf_len p1)"

definition generate_k_rrc ::
  "'ctx crypto_lib \<Rightarrow> bytes \<Rightarrow> ciphering_algorithm \<Rightarrow> integrity_algorithm \<Rightarrow> bytes \<times> bytes" where
  "generate_k_rrc lib k_gnb enc_alg_id int_alg_id =
    (generic_kdf lib k_gnb 0x69 [0x03] [of_nat (cipher_number enc_alg_id)],
     generic_kdf lib k_gnb 0x69 [0x04] [of_nat (integ_number int_alg_id)])"

definition generate_k_up ::
  "'ctx crypto_lib \<Rightarrow> bytes \<Rightarrow> ciphering_algorithm \<Rightarrow> integrity_algorithm \<Rightarrow> bytes \<times> bytes" where
  "generate_k_up lib k_gnb enc_alg_id int_alg_id =
    (generic_kdf lib k_gnb 0x69 [0x05] [of_nat (cipher_number enc_alg_id)],
     generic_kdf lib k_gnb 0x69 [0x06] [of_nat (integ_number int_alg_id)])"

text \<open>\<open>report_error\<close> ends the program like a failed assertion.\<close>

definition generate_k_ng_ran_star :: "'ctx crypto_lib \<Rightarrow> bytes \<Rightarrow> u16 \<Rightarrow> u32 \<Rightarrow> bytes res" where
  "generate_k_ng_ran_star lib k target_pci target_ssb_arfcn =
    (let pci = [ucast (drop_bit 8 target_pci), ucast target_pci] in
     if target_ssb_arfcn < 2 ^ 16 then
       Inr (generic_kdf lib k 0x70 pci [u32_byte 1 target_ssb_arfcn, u32_byte 0 target_ssb_arfcn])
     else if target_ssb_arfcn < 2 ^ 24 then
       Inr (generic_kdf lib k 0x70 pci
         [u32_byte 2 target_ssb_arfcn, u32_byte 1 target_ssb_arfcn, u32_byte 0 target_ssb_arfcn])
     else Inl Assertion_failed)"

section \<open>The security context\<close>

record sec_selected_algos =
  algos_selected :: bool
  sel_integ_algo :: integrity_algorithm
  sel_cipher_algo :: ciphering_algorithm

record sec_as_keys =
  k_rrc_int :: bytes
  k_rrc_enc :: bytes
  k_up_int :: bytes
  k_up_enc :: bytes

record security_context =
  ctx_k :: bytes
  supported_int_algos :: "bool list"
  supported_enc_algos :: "bool list"
  sel_algos :: sec_selected_algos
  as_keys :: sec_as_keys

text \<open>The two loops over the preferences.  The outcome is the algorithm selected, if any.\<close>

fun select_integ :: "integrity_algorithm list \<Rightarrow> bool list \<Rightarrow> integrity_algorithm option" where
  "select_integ [] supported = None"
| "select_integ (a # pref) supported =
    (if integ_number a = 0 then None
     else if supported ! (integ_number a - 1) then Some a
     else select_integ pref supported)"

fun select_cipher :: "ciphering_algorithm list \<Rightarrow> bool list \<Rightarrow> ciphering_algorithm option" where
  "select_cipher [] supported = None"
| "select_cipher (a # pref) supported =
    (if cipher_number a = 0 then Some Nea0
     else if supported ! (cipher_number a - 1) then Some a
     else select_cipher pref supported)"

definition select_algorithms ::
  "integrity_algorithm list \<Rightarrow> ciphering_algorithm list \<Rightarrow> security_context \<Rightarrow> bool \<times> security_context" where
  "select_algorithms pref_inte_list pref_ciph_list c =
    (case select_integ pref_inte_list (supported_int_algos c) of
       None \<Rightarrow> (False, c)
     | Some ia \<Rightarrow>
        let c = c\<lparr>sel_algos := (sel_algos c)\<lparr>sel_integ_algo := ia\<rparr>\<rparr> in
        (case select_cipher pref_ciph_list (supported_enc_algos c) of
           None \<Rightarrow> (False, c)
         | Some ca \<Rightarrow> (True, c\<lparr>sel_algos := (sel_algos c)\<lparr>sel_cipher_algo := ca, algos_selected := True\<rparr>\<rparr>)))"

definition generate_as_keys :: "'ctx crypto_lib \<Rightarrow> security_context \<Rightarrow> security_context res" where
  "generate_as_keys lib c =
    (if \<not> algos_selected (sel_algos c) then Inl Assertion_failed
     else
       let rrc = generate_k_rrc lib (ctx_k c) (sel_cipher_algo (sel_algos c)) (sel_integ_algo (sel_algos c));
           up = generate_k_up lib (ctx_k c) (sel_cipher_algo (sel_algos c)) (sel_integ_algo (sel_algos c))
       in Inr (c\<lparr>as_keys := \<lparr>k_rrc_int = snd rrc, k_rrc_enc = fst rrc, k_up_int = snd up, k_up_enc = fst up\<rparr>\<rparr>))"

definition horizontal_key_derivation ::
  "'ctx crypto_lib \<Rightarrow> u16 \<Rightarrow> u32 \<Rightarrow> security_context \<Rightarrow> security_context res" where
  "horizontal_key_derivation lib target_pci target_ssb_arfcn c =
    (case generate_k_ng_ran_star lib (ctx_k c) target_pci target_ssb_arfcn of
       Inl f \<Rightarrow> Inl f
     | Inr k \<Rightarrow> generate_as_keys lib (c\<lparr>ctx_k := k\<rparr>))"

definition get_as_config :: "sec_domain \<Rightarrow> security_context \<Rightarrow> sec_as_config res" where
  "get_as_config domain c =
    (if \<not> algos_selected (sel_algos c) then Inl Assertion_failed
     else Inr \<lparr>sec_domain_as = domain,
       k_int = (case domain of Rrc_domain \<Rightarrow> k_rrc_int (as_keys c) | Up_domain \<Rightarrow> k_up_int (as_keys c)),
       k_enc = (case domain of Rrc_domain \<Rightarrow> k_rrc_enc (as_keys c) | Up_domain \<Rightarrow> k_up_enc (as_keys c)),
       integ_algo_as = sel_integ_algo (sel_algos c), cipher_algo_as = sel_cipher_algo (sel_algos c)\<rparr>)"

definition get_128_as_config :: "sec_domain \<Rightarrow> security_context \<Rightarrow> sec_128_as_config res" where
  "get_128_as_config domain c = map_sum id truncate_config (get_as_config domain c)"

text \<open>The short MAC: the last two bytes of the code over eight bytes.\<close>

definition verify_short_mac :: "'ctx crypto_lib \<Rightarrow> bytes \<Rightarrow> bytes \<Rightarrow> sec_as_config \<Rightarrow> bool res" where
  "verify_short_mac lib rx_short_mac packed_var cfg =
    (if length packed_var \<noteq> 8 then Inr False
     else
       let key = truncate_key (k_int cfg);
           mac_exp =
             (case integ_algo_as cfg of
                Nia0 \<Rightarrow> Inr sec_mac_zero
              | Nia1 \<Rightarrow> security_nia1 sec_mac_zero key 0xffffffff 0x1f Downlink packed_var
              | Nia2 \<Rightarrow> security_nia2 lib sec_mac_zero key 0xffffffff 0x1f Downlink packed_var
              | Nia3 \<Rightarrow> security_nia3 sec_mac_zero key 0xffffffff 0x1f Downlink packed_var)
       in case mac_exp of
            Inl f \<Rightarrow> Inl f
          | Inr mac \<Rightarrow>
             Inr (integ_algo_as cfg = Nia0 \<or> rx_short_mac ! 0 = mac ! 2 \<and> rx_short_mac ! 1 = mac ! 3))"

text \<open>A selected integrity algorithm is a supported one, never the null algorithm.\<close>

lemma select_integ_supported:
  "select_integ pref supported = Some a \<Longrightarrow> a \<in> set pref \<and> a \<noteq> Nia0 \<and> supported ! (integ_number a - 1)"
  by (induction pref) (auto simp: integ_number_def split: if_splits)

lemma select_cipher_supported:
  "select_cipher pref supported = Some a \<Longrightarrow> a \<in> set pref \<and> (a = Nea0 \<or> supported ! (cipher_number a - 1))"
  by (induction pref) (auto simp: cipher_number_def split: if_splits ciphering_algorithm.splits)

lemma select_algorithms_sound:
  assumes "select_algorithms pi pc c = (True, c')"
  shows "algos_selected (sel_algos c')" "sel_integ_algo (sel_algos c') \<in> set pi"
    "sel_integ_algo (sel_algos c') \<noteq> Nia0" "sel_cipher_algo (sel_algos c') \<in> set pc"
  using assms
  by (auto simp: select_algorithms_def Let_def dest!: select_integ_supported select_cipher_supported
      split: option.splits)

section \<open>Ciphering twice gives the message back\<close>

text \<open>What ciphering relies on of counter mode: the output is the input with a key stream byte added, and the
  key stream does not depend on the input.\<close>

definition ctr_law :: "'ctx crypto_lib \<Rightarrow> bool" where
  "ctr_law lib \<longleftrightarrow>
    (\<forall>ctx off nonce blk. off < 16 \<longrightarrow> (\<exists>off' nonce' blk' k. off' < 16 \<and>
      (\<forall>b. aes_crypt_ctr lib ctx (off, nonce, blk) b = (0, (off', nonce', blk'), b XOR k))))"

lemma block_counts:
  assumes "0 < n" "n < 2 ^ 28"
  shows "block_8 (of_nat (n * 8)) = n" "block_32 (of_nat (n * 8)) = (n + 3) div 4"
proof -
  have *: "unat (of_nat (n * 8) :: u32) = n * 8"
    using assms by (intro unat_of_nat_u32) simp
  have "unat (of_nat (n * 8) + 7 :: u32) = n * 8 + 7" "unat (of_nat (n * 8) + 31 :: u32) = n * 8 + 31"
    using assms * by (simp_all add: unat_add_fits)
  then show "block_8 (of_nat (n * 8)) = n" "block_32 (of_nat (n * 8)) = (n + 3) div 4"
    by (simp_all add: unat_div)
qed

lemma and_ff: "(b :: u8) AND 0xff = b"
  unfolding mask_lit_ff by (rule bit_word_eqI) (auto simp: bit_simps)

lemma zero_tail_bytes: "out \<noteq> [] \<Longrightarrow> zero_tail (of_nat (n * 8)) out = out"
proof -
  assume "out \<noteq> []"
  have "(ucast (of_nat (n * 8) :: u32) :: u8) AND 0x07 = 0"
  proof -
    have n: "n * 8 = push_bit 3 n" by (simp add: push_bit_eq_mult)
    show ?thesis
      unfolding n mask_lits by (rule bit_word_eqI) (auto simp: bit_simps)
  qed
  then have "zero_tailing_bits b (ucast (of_nat (n * 8) :: u32)) = b" for b
    by (simp add: zero_tailing_bits_def Let_def and_ff)
  with \<open>out \<noteq> []\<close> show ?thesis by (simp add: zero_tail_def)
qed

lemma length_stream_words [simp]: "length (stream_words ks msg n) = 4 * n"
  by (induction n) (simp_all add: stream_words_def)

lemma nth_stream_words:
  "j < 4 * n \<Longrightarrow> stream_words ks msg n ! j = msg ! j XOR u32_byte (3 - j mod 4) (ks ! (j div 4))"
proof (induction n)
  case (Suc n)
  have split: "stream_words ks msg (Suc n) = stream_words ks msg n @
      [msg ! (4 * n) XOR u32_byte 3 (ks ! n), msg ! (4 * n + 1) XOR u32_byte 2 (ks ! n),
       msg ! (4 * n + 2) XOR u32_byte 1 (ks ! n), msg ! (4 * n + 3) XOR u32_byte 0 (ks ! n)]"
    by (simp add: stream_words_def)
  show ?case
  proof (cases "j < 4 * n")
    case True
    with Suc.IH show ?thesis by (simp add: split nth_append)
  next
    case False
    with Suc.prems have "j = 4 * n \<or> j = 4 * n + 1 \<or> j = 4 * n + 2 \<or> j = 4 * n + 3" by auto
    then show ?thesis
    proof (elim disjE)
      assume "j = 4 * n + 1"
      then have "j mod 4 = 1" "j div 4 = n" "j - 4 * n = 1" by presburger+
      with \<open>j = 4 * n + 1\<close> show ?thesis by (simp add: split nth_append)
    next
      assume "j = 4 * n + 2"
      then have "j mod 4 = 2" "j div 4 = n" "j - 4 * n = 2" by presburger+
      with \<open>j = 4 * n + 2\<close> show ?thesis by (simp add: split nth_append)
    next
      assume "j = 4 * n + 3"
      then have "j mod 4 = 3" "j div 4 = n" "j - 4 * n = 3" by presburger+
      with \<open>j = 4 * n + 3\<close> show ?thesis by (simp add: split nth_append)
    qed (simp add: split nth_append)
  qed
qed simp

lemma stream_words_tail:
  assumes "w * 4 \<le> n"
  shows "stream_words ks msg w @ stream_tail ks msg (w * 4) n =
    map (\<lambda>i. msg ! i XOR u32_byte (3 - i mod 4) (ks ! (i div 4))) [0..<n]"
proof (rule nth_equalityI)
  show "length (stream_words ks msg w @ stream_tail ks msg (w * 4) n) =
      length (map (\<lambda>i. msg ! i XOR u32_byte (3 - i mod 4) (ks ! (i div 4))) [0..<n])"
    using assms by (simp add: stream_tail_def)
next
  fix i
  assume "i < length (stream_words ks msg w @ stream_tail ks msg (w * 4) n)"
  then have "i < n" using assms by (simp add: stream_tail_def)
  then show "(stream_words ks msg w @ stream_tail ks msg (w * 4) n) ! i =
      map (\<lambda>i. msg ! i XOR u32_byte (3 - i mod 4) (ks ! (i div 4))) [0..<n] ! i"
    using assms by (cases "i < 4 * w") (simp_all add: nth_append nth_stream_words stream_tail_def not_less mult.commute)
qed

lemma stream_xor_bytes:
  assumes "0 < length msg" "length msg < 2 ^ 28"
  shows "stream_xor ks msg (of_nat (length msg * 8)) =
    map (\<lambda>i. msg ! i XOR u32_byte (3 - i mod 4) (ks ! (i div 4))) [0..<length msg]"
proof -
  have "((length msg + 3) div 4 - 1) * 4 \<le> length msg" by linarith
  from stream_words_tail [OF this, of ks msg] zero_tail_bytes block_counts [OF assms] assms(1) show ?thesis
    by (simp only: stream_xor_def) (simp add: zero_tail_bytes del: of_nat_mult)
qed

lemma stream_xor_involution:
  assumes "0 < length msg" "length msg < 2 ^ 28"
  shows "length (stream_xor ks msg (of_nat (length msg * 8))) = length msg"
    "stream_xor ks (stream_xor ks msg (of_nat (length msg * 8))) (of_nat (length msg * 8)) = msg"
proof -
  let ?ct = "stream_xor ks msg (of_nat (length msg * 8))"
  show len: "length ?ct = length msg" unfolding stream_xor_bytes [OF assms] by simp
  have "stream_xor ks ?ct (of_nat (length ?ct * 8)) = msg"
    using stream_xor_bytes [of ?ct ks] stream_xor_bytes [OF assms, of ks] len assms
    by (intro nth_equalityI) (simp_all add: xor.assoc)
  then show "stream_xor ks ?ct (of_nat (length msg * 8)) = msg" by (simp only: len)
qed

lemma nea1_involution:
  assumes "0 < length msg" "length msg < 2 ^ 28"
  obtains ct where "security_nea1 key count bearer direction msg = Inr ct" "length ct = length msg"
    "security_nea1 key count bearer direction ct = Inr msg"
proof -
  have "unat (of_nat (length msg) :: u32) = length msg" "(length msg + 3) div 4 \<noteq> 0"
    using assms by (simp_all add: unat_of_nat_u32 div_eq_0_iff Suc_le_eq)
  with that stream_xor_involution [OF assms] show thesis
    by (simp only: security_nea1_def security_nea1_len_def block_counts [OF assms] Let_def
      less_irrefl if_False simp_thms)
qed

lemma nea3_involution:
  assumes "0 < length msg" "length msg < 2 ^ 28"
  obtains ct where "security_nea3 key count bearer direction msg = Inr ct" "length ct = length msg"
    "security_nea3 key count bearer direction ct = Inr msg"
proof -
  have "unat (of_nat (length msg) :: u32) = length msg" "(length msg + 3) div 4 \<noteq> 0"
    using assms by (simp_all add: unat_of_nat_u32 div_eq_0_iff Suc_le_eq)
  with that stream_xor_involution [OF assms] show thesis
    by (simp only: security_nea3_def security_nea3_len_def block_counts [OF assms] Let_def
      less_irrefl if_False simp_thms)
qed

lemma nea2_loop_stream:
  assumes "ctr_law lib" "off < 16"
  shows "\<exists>ks. length ks = n \<and> (\<forall>msg. length msg = n \<longrightarrow>
    nea2_loop (\<lambda>b st. aes_crypt_ctr lib ctx st b) 0 (off, nonce, blk) msg = (0, map2 (XOR) msg ks))"
  using assms(2)
proof (induction n arbitrary: off nonce blk)
  case (Suc n)
  from assms(1) Suc.prems obtain off' nonce' blk' k where k: "off' < 16"
      "\<And>b. aes_crypt_ctr lib ctx (off, nonce, blk) b = (0, (off', nonce', blk'), b XOR k)"
    unfolding ctr_law_def by metis
  from Suc.IH [OF k(1)] obtain ks where "length ks = n" "\<And>msg. length msg = n \<Longrightarrow>
      nea2_loop (\<lambda>b st. aes_crypt_ctr lib ctx st b) 0 (off', nonce', blk') msg = (0, map2 (XOR) msg ks)"
    by blast
  then show ?case
    by (intro exI [of _ "k # ks"]) (auto simp: length_Suc_conv k(2))
qed simp

lemma map2_xor_involution: "length msg = length ks \<Longrightarrow> map2 (XOR) (map2 (XOR) msg ks) ks = (msg :: bytes)"
  by (intro nth_equalityI) (simp_all add: xor.assoc)

lemma nea2_involution:
  assumes "ctr_law lib" "fst (aes_setkey_enc lib key) = 0" "0 < length msg" "length msg < 2 ^ 28"
  obtains ct where "security_nea2 lib key count bearer direction msg = Inr ct" "length ct = length msg"
    "security_nea2 lib key count bearer direction ct = Inr msg"
proof -
  obtain ctx where ctx: "aes_setkey_enc lib key = (0, ctx)" using assms(2) by (metis prod.collapse)
  obtain ks where ks: "length ks = length msg" "\<And>m. length m = length msg \<Longrightarrow>
      nea2_loop (\<lambda>b st. aes_crypt_ctr lib ctx st b) 0 (0, nea2_nonce count bearer direction, replicate 16 0) m =
        (0, map2 (XOR) m ks)"
    using nea2_loop_stream [OF assms(1), of 0 "length msg" ctx "nea2_nonce count bearer direction" "replicate 16 0"]
    by auto
  have u: "unat (of_nat (length msg) :: u32) = length msg"
    using assms(4) by (intro unat_of_nat_u32) simp
  have out: "security_nea2 lib key count bearer direction m = Inr (map2 (XOR) m ks)" if "length m = length msg" for m
  proof -
    have "map2 (XOR) m ks \<noteq> []" using that ks(1) assms(3) by auto
    moreover have "take (length m) m = m" by simp
    ultimately show ?thesis
      unfolding security_nea2_def security_nea2_len_def that block_counts [OF assms(3,4)] u ctx
      using ks(2) [OF that] that by (simp add: zero_tail_bytes del: of_nat_mult)
  qed
  from that [OF out [OF refl]] out [of "map2 (XOR) msg ks"] show thesis
    by (simp add: ks(1) map2_xor_involution)
qed

text \<open>The contract of a cipher, which is its own inverse on messages that are not empty and not too long.\<close>

definition cipher_len_ok :: "bytes \<Rightarrow> bool" where
  "cipher_len_ok msg \<longleftrightarrow> 0 < length msg \<and> length msg < 2 ^ 28"

locale stream_cipher =
  fixes crypt :: "bytes \<Rightarrow> bytes res"
  assumes crypt_law: "cipher_len_ok msg \<Longrightarrow> \<exists>ct. crypt msg = Inr ct \<and> length ct = length msg \<and> crypt ct = Inr msg"
begin

lemma crypt_returns: "cipher_len_ok msg \<Longrightarrow> \<exists>ct. crypt msg = Inr ct \<and> length ct = length msg"
  using crypt_law by blast

lemma crypt_twice: "cipher_len_ok msg \<Longrightarrow> crypt msg = Inr ct \<Longrightarrow> crypt ct = Inr msg"
  using crypt_law by fastforce

lemma crypt_len_ok: "cipher_len_ok msg \<Longrightarrow> crypt msg = Inr ct \<Longrightarrow> cipher_len_ok ct"
  using crypt_law by (fastforce simp: cipher_len_ok_def)

lemma crypt_inj: "cipher_len_ok m \<Longrightarrow> cipher_len_ok m' \<Longrightarrow> crypt m = crypt m' \<Longrightarrow> m = m'"
  using crypt_law by (metis sum.inject(2))

end

interpretation nea1: stream_cipher "security_nea1 key count bearer direction" for key count bearer direction
  by unfold_locales (metis nea1_involution cipher_len_ok_def)

interpretation nea3: stream_cipher "security_nea3 key count bearer direction" for key count bearer direction
  by unfold_locales (metis nea3_involution cipher_len_ok_def)

lemma nea2_cipher:
  "ctr_law lib \<Longrightarrow> fst (aes_setkey_enc lib key) = 0 \<Longrightarrow> stream_cipher (security_nea2 lib key count bearer direction)"
  by unfold_locales (metis nea2_involution cipher_len_ok_def)

text \<open>Codes have four bytes, for NIA2 if the library encrypts blocks of sixteen bytes to such blocks.\<close>

definition ecb_law :: "'ctx crypto_lib \<Rightarrow> bool" where
  "ecb_law lib \<longleftrightarrow> (\<forall>ctx b. length (aes_crypt_ecb lib ctx b) = 16)"

lemma nia1_returns:
  assumes "0 < length msg" "length msg < 2 ^ 28"
  obtains m where "security_nia1 mac key count bearer direction msg = Inr m" "length m = 4"
proof -
  have u: "unat (of_nat (length msg) :: u32) = length msg" "unat (of_nat (length msg * 8) :: u32) = length msg * 8"
    using assms by (simp_all add: unat_of_nat_u32 del: of_nat_mult)
  have "unat (ucast (of_nat (length msg * 8) :: u32) :: u64) = length msg * 8"
    by (simp only: unat_ucast_up u(2) len_of_numeral_defs)
  then have "(ucast (of_nat (length msg * 8) :: u32) :: u64) \<noteq> 0"
    using assms(1) by (metis mult_eq_0_iff not_less_zero unsigned_0 zero_neq_numeral)
  from s3g_f9_returns [OF this] obtain m where
    "s3g_f9 key count (push_bit 27 (ucast bearer)) (ucast (direction_number direction)) msg
      (ucast (of_nat (length msg * 8) :: u32)) = Inr m" "length m = 4"
    by blast
  then show thesis
    by (intro that) (simp_all only: security_nia1_def security_nia1_len_def u(1) block_counts [OF assms]
      order_refl if_True)
qed

lemma nia2_returns:
  assumes "ecb_law lib" "0 < length msg" "length msg < 2 ^ 28"
  obtains m where "security_nia2 lib mac key count bearer direction msg = Inr m" "length m = 4"
proof -
  have u: "unat (of_nat (length msg) :: u32) = length msg"
    using assms(3) by (intro unat_of_nat_u32) simp
  have "\<exists>c b. security_nia2 lib mac key count bearer direction msg = Inr (take 4 (aes_crypt_ecb lib c b))"
    by (simp only: security_nia2_def security_nia2_len_def u block_counts [OF assms(2,3)] order_refl if_True Let_def)
      blast
  with that assms(1) show thesis by (auto simp: ecb_law_def)
qed

lemma nia3_returns:
  assumes "0 < length msg" "length msg < 2 ^ 28"
  obtains m where "security_nia3 mac key count bearer direction msg = Inr m" "length m = 4"
proof -
  have u: "unat (of_nat (length msg) :: u32) = length msg"
    using assms(2) by (intro unat_of_nat_u32) simp
  have "\<exists>a b c d. security_nia3 mac key count bearer direction msg = Inr [a, b, c, d]"
    by (simp only: security_nia3_def security_nia3_len_def u block_counts [OF assms] order_refl if_True Let_def)
      blast
  with that show thesis by auto
qed

end
