(* ===== verification/Pdcp_Config.thy ===== *)
theory Pdcp_Config
  imports Security
begin

text \<open>
  Configuration of a PDCP entity (\<open>include/srsran/pdcp/pdcp_config.h\<close>), the split of a COUNT into hyper frame
  number (HFN) and sequence number (\<open>lib/pdcp/pdcp_sn.h\<close>), the header fields (\<open>pdcp_pdu.h\<close>), and the part
  that transmitter and receiver share (\<open>pdcp_entity_tx_rx_base.h\<close>): header length, window size, the
  inference of a COUNT from its SN, and the data PDU header.  Timer values are milliseconds, -1 is infinity.
  A member of the configuration that no function reads is left out.
\<close>

section \<open>Configuration\<close>

datatype pdcp_rb_type = Srb | Drb

datatype pdcp_rlc_mode = Pdcp_um | Pdcp_am

datatype pdcp_sn_size = Sn_size12bits | Sn_size18bits

definition pdcp_sn_size_to_uint :: "pdcp_sn_size \<Rightarrow> nat" where
  "pdcp_sn_size_to_uint sz = (case sz of Sn_size12bits \<Rightarrow> 12 | Sn_size18bits \<Rightarrow> 18)"

definition pdcp_sn_size_from_uint :: "u16 \<Rightarrow> pdcp_sn_size option" where
  "pdcp_sn_size_from_uint num =
    (if num = 12 then Some Sn_size12bits else if num = 18 then Some Sn_size18bits else None)"

definition pdcp_t_reordering_values :: "int list" where
  "pdcp_t_reordering_values =
    [0, 1, 2, 4, 5, 8, 10, 15, 20, 30, 40, 50, 60, 80, 100, 120, 140, 160, 180, 200, 220, 240, 260, 280, 300,
     500, 750, 1000, 1250, 1500, 1750, 2000, 2250, 2500, 2750, 3000, -1]"

definition pdcp_t_reordering_from_int :: "int \<Rightarrow> int option" where
  "pdcp_t_reordering_from_int num = (if num \<in> set pdcp_t_reordering_values then Some num else None)"

definition pdcp_t_reordering_to_int :: "int \<Rightarrow> u8" where
  "pdcp_t_reordering_to_int t = word_of_int t"

definition pdcp_discard_timer_values :: "int list" where
  "pdcp_discard_timer_values = [0, 10, 20, 30, 40, 50, 60, 75, 100, 150, 200, 250, 300, 500, 750, 1500, -1]"

definition pdcp_discard_timer_from_int :: "int \<Rightarrow> int option" where
  "pdcp_discard_timer_from_int num = (if num \<in> set pdcp_discard_timer_values then Some num else None)"

definition pdcp_discard_timer_to_int :: "int \<Rightarrow> u8" where
  "pdcp_discard_timer_to_int t = word_of_int t"

record pdcp_max_count =
  mc_notify :: u32
  mc_hard :: u32

definition pdcp_tx_default_max_count :: pdcp_max_count where
  "pdcp_tx_default_max_count = \<lparr>mc_notify = 0xc0000000, mc_hard = 0xffffffff - 1\<rparr>"

definition pdcp_rx_default_max_count :: pdcp_max_count where
  "pdcp_rx_default_max_count = \<lparr>mc_notify = 0xc0000000, mc_hard = 0xd0000000\<rparr>"

record pdcp_config_common =
  pc_rb_type :: pdcp_rb_type
  pc_rlc_mode :: pdcp_rlc_mode
  pc_sn_size :: pdcp_sn_size
  pc_direction :: security_direction

record pdcp_tx_config = pdcp_config_common +
  pc_discard_timer :: int
  pc_status_report_required :: bool
  pc_tx_max_count :: pdcp_max_count

record pdcp_rx_config = pdcp_config_common +
  pc_t_reordering :: int
  pc_rx_max_count :: pdcp_max_count

record pdcp_config =
  pdcp_rb_type_of :: pdcp_rb_type
  pdcp_rlc_mode_of :: pdcp_rlc_mode
  pdcp_tx_sn_size :: pdcp_sn_size
  pdcp_tx_direction :: security_direction
  pdcp_tx_discard_timer :: int
  pdcp_tx_status_report_required :: bool
  pdcp_tx_max_count :: pdcp_max_count
  pdcp_rx_sn_size :: pdcp_sn_size
  pdcp_rx_direction :: security_direction
  pdcp_rx_t_reordering :: int
  pdcp_rx_max_count :: pdcp_max_count

definition get_tx_config :: "pdcp_config \<Rightarrow> pdcp_tx_config" where
  "get_tx_config c =
    \<lparr>pc_rb_type = pdcp_rb_type_of c, pc_rlc_mode = pdcp_rlc_mode_of c, pc_sn_size = pdcp_tx_sn_size c,
     pc_direction = pdcp_tx_direction c, pc_discard_timer = pdcp_tx_discard_timer c,
     pc_status_report_required = pdcp_tx_status_report_required c, pc_tx_max_count = pdcp_tx_max_count c\<rparr>"

definition get_rx_config :: "pdcp_config \<Rightarrow> pdcp_rx_config" where
  "get_rx_config c =
    \<lparr>pc_rb_type = pdcp_rb_type_of c, pc_rlc_mode = pdcp_rlc_mode_of c, pc_sn_size = pdcp_rx_sn_size c,
     pc_direction = pdcp_rx_direction c, pc_t_reordering = pdcp_rx_t_reordering c,
     pc_rx_max_count = pdcp_rx_max_count c\<rparr>"

definition pdcp_make_default_srb_config :: pdcp_config where
  "pdcp_make_default_srb_config =
    \<lparr>pdcp_rb_type_of = Srb, pdcp_rlc_mode_of = Pdcp_am, pdcp_tx_sn_size = Sn_size12bits,
     pdcp_tx_direction = Downlink, pdcp_tx_discard_timer = 0, pdcp_tx_status_report_required = False,
     pdcp_tx_max_count = pdcp_tx_default_max_count, pdcp_rx_sn_size = Sn_size12bits,
     pdcp_rx_direction = Uplink, pdcp_rx_t_reordering = -1, pdcp_rx_max_count = pdcp_rx_default_max_count\<rparr>"

text \<open>The values of a timer enumeration do not fit the eight bits they are converted to.\<close>

lemma pdcp_timer_to_int_wraps:
  "pdcp_discard_timer_from_int 300 = Some 300" "pdcp_discard_timer_to_int 300 = 44"
  "pdcp_t_reordering_from_int 3000 = Some 3000" "pdcp_t_reordering_to_int 3000 = 184"
  "pdcp_t_reordering_to_int (-1) = 255"
  by (simp_all add: pdcp_discard_timer_from_int_def pdcp_discard_timer_to_int_def pdcp_discard_timer_values_def
    pdcp_t_reordering_from_int_def pdcp_t_reordering_to_int_def pdcp_t_reordering_values_def)

section \<open>COUNT, HFN and SN\<close>

definition pdcp_compute_sn :: "u32 \<Rightarrow> pdcp_sn_size \<Rightarrow> u32" where
  "pdcp_compute_sn count sz = count AND drop_bit (32 - pdcp_sn_size_to_uint sz) 0xffffffff"

definition pdcp_compute_hfn :: "u32 \<Rightarrow> pdcp_sn_size \<Rightarrow> u32" where
  "pdcp_compute_hfn count sz = drop_bit (pdcp_sn_size_to_uint sz) count"

definition pdcp_compute_count :: "u32 \<Rightarrow> u32 \<Rightarrow> pdcp_sn_size \<Rightarrow> u32" where
  "pdcp_compute_count hfn sn sz = push_bit (pdcp_sn_size_to_uint sz) hfn OR sn"

definition pdcp_sn_cardinality :: "pdcp_sn_size \<Rightarrow> u32" where
  "pdcp_sn_cardinality sz = push_bit (pdcp_sn_size_to_uint sz) 1"

definition pdcp_data_pdu_header_size :: "pdcp_sn_size \<Rightarrow> nat" where
  "pdcp_data_pdu_header_size sz = (case sz of Sn_size12bits \<Rightarrow> 2 | Sn_size18bits \<Rightarrow> 3)"

definition pdcp_window_size :: "pdcp_sn_size \<Rightarrow> u32" where
  "pdcp_window_size sz = (case sz of Sn_size12bits \<Rightarrow> 2048 | Sn_size18bits \<Rightarrow> 131072)"

text \<open>The radio bearer identity and the BEARER input of the security algorithms.\<close>

datatype rb_id_t = Srb_id u16 | Drb_id u16

definition bearer_id :: "rb_id_t \<Rightarrow> u8" where
  "bearer_id rb = (case rb of Drb_id n \<Rightarrow> ucast (n - 1) | Srb_id n \<Rightarrow> ucast (n - 1))"

text \<open>
  The COUNT of a received SN, the one in the window around a base COUNT that has this SN: the same computation
  in the receiver for received PDUs and in the transmitter for notified SNs.
\<close>

definition infer_count :: "pdcp_sn_size \<Rightarrow> u32 \<Rightarrow> u32 \<Rightarrow> u32" where
  "infer_count sz base sn =
    (let hfn = (if int (unat sn) < int (unat (pdcp_compute_sn base sz)) - int (unat (pdcp_window_size sz))
                then pdcp_compute_hfn base sz + 1
                else if pdcp_compute_sn base sz + pdcp_window_size sz \<le> sn
                then pdcp_compute_hfn base sz - 1
                else pdcp_compute_hfn base sz)
     in pdcp_compute_count hfn sn sz)"

section \<open>Header fields\<close>

datatype pdcp_dc_field = Pdcp_dc_control | Pdcp_dc_data

definition pdcp_pdu_get_dc :: "u8 \<Rightarrow> pdcp_dc_field" where
  "pdcp_pdu_get_dc first_byte = (if drop_bit 7 first_byte AND 0x01 = 0 then Pdcp_dc_control else Pdcp_dc_data)"

definition pdcp_control_pdu_get_cpt :: "u8 \<Rightarrow> u8" where
  "pdcp_control_pdu_get_cpt first_byte = drop_bit 4 first_byte AND 0x07"

definition write_data_pdu_header :: "pdcp_rb_type \<Rightarrow> pdcp_sn_size \<Rightarrow> u32 \<Rightarrow> bytes res" where
  "write_data_pdu_header rb sz sn =
    (if rb = Srb \<and> sz = Sn_size18bits then Inl Assertion_failed
     else
       let b0 = (if rb = Drb then 0x80 else 0x00) in
       Inr (case sz of
           Sn_size12bits \<Rightarrow> [b0 OR ucast (drop_bit 8 (sn AND 0x00000f00)), ucast (sn AND 0x000000ff)]
         | Sn_size18bits \<Rightarrow>
            [b0 OR ucast (drop_bit 16 (sn AND 0x00030000)), ucast (drop_bit 8 (sn AND 0x0000ff00)),
             ucast (sn AND 0x000000ff)]))"

definition read_data_pdu_header :: "pdcp_sn_size \<Rightarrow> bytes \<Rightarrow> u32 option" where
  "read_data_pdu_header sz buf =
    (if length buf \<le> pdcp_data_pdu_header_size sz then None
     else Some (case sz of
         Sn_size12bits \<Rightarrow> push_bit 8 (ucast (buf ! 0 AND 0x0f)) OR ucast (buf ! 1 AND 0xff)
       | Sn_size18bits \<Rightarrow>
          push_bit 16 (ucast (buf ! 0 AND 0x03)) OR push_bit 8 (ucast (buf ! 1 AND 0xff)) OR ucast (buf ! 2 AND 0xff)))"

section \<open>Arithmetic of COUNTs\<close>

definition sn_mod :: "pdcp_sn_size \<Rightarrow> nat" where
  "sn_mod sz = 2 ^ pdcp_sn_size_to_uint sz"

abbreviation pdcp_W :: "pdcp_sn_size \<Rightarrow> nat" where
  "pdcp_W sz \<equiv> unat (pdcp_window_size sz)"

lemma sn_mod_window: "sn_mod sz = 2 * pdcp_W sz" "0 < pdcp_W sz" "pdcp_W sz \<le> 2 ^ 17"
  by (cases sz; simp add: sn_mod_def pdcp_sn_size_to_uint_def pdcp_window_size_def)+

lemma unat_compute_sn: "unat (pdcp_compute_sn count sz) = unat count mod sn_mod sz"
proof -
  have "pdcp_compute_sn count sz = take_bit (pdcp_sn_size_to_uint sz) count"
    by (cases sz)
      (simp_all add: pdcp_compute_sn_def pdcp_sn_size_to_uint_def take_bit_eq_mask mask_eq_exp_minus_1)
  then show ?thesis
    by (simp only: sn_mod_def unsigned_take_bit_eq) (simp add: take_bit_eq_mod)
qed

lemma unat_compute_hfn: "unat (pdcp_compute_hfn count sz) = unat count div sn_mod sz"
  unfolding pdcp_compute_hfn_def sn_mod_def unat_drop_bit_eq by (rule drop_bit_eq_div)

lemma compute_sn_less: "unat (pdcp_compute_sn count sz) < sn_mod sz"
  unfolding unat_compute_sn using sn_mod_window [of sz] by simp

lemma unat_compute_count:
  assumes "unat sn < sn_mod sz" "unat hfn * sn_mod sz + unat sn < 2 ^ 32"
  shows "unat (pdcp_compute_count hfn sn sz) = unat hfn * sn_mod sz + unat sn"
proof -
  let ?n = "pdcp_sn_size_to_uint sz"
  have n: "?n < 32" by (cases sz) (simp_all add: pdcp_sn_size_to_uint_def)
  have sn: "take_bit ?n sn = sn"
    using assms(1) by (metis sn_mod_def take_bit_nat_eq_self unsigned_take_bit_eq word_unat_eq_iff)
  have "push_bit ?n hfn AND sn = 0"
    by (subst sn [symmetric], rule bit_word_eqI) (auto simp: bit_simps)
  then have "pdcp_compute_count hfn sn sz = push_bit ?n hfn + sn"
    unfolding pdcp_compute_count_def by (rule disjunctive_add_eq_or [symmetric])
  moreover have "unat (push_bit ?n hfn) = unat hfn * sn_mod sz"
    unfolding unsigned_push_bit_eq sn_mod_def using assms(2)
    by (simp add: push_bit_eq_mult take_bit_nat_eq_self sn_mod_def)
  ultimately show ?thesis
    using assms(2) by (simp add: unat_add_fits)
qed

text \<open>The COUNT is put together again from its parts.\<close>

lemma count_parts: "pdcp_compute_count (pdcp_compute_hfn c sz) (pdcp_compute_sn c sz) sz = c"
proof -
  have "unat c div sn_mod sz * sn_mod sz + unat c mod sn_mod sz = unat c" by simp
  then have "unat (pdcp_compute_hfn c sz) * sn_mod sz + unat (pdcp_compute_sn c sz) = unat c"
    by (simp only: unat_compute_sn unat_compute_hfn)
  moreover have "unat c < 2 ^ 32" using unsigned_less [of c, where 'a = nat] by simp
  ultimately show ?thesis
    using unat_compute_count [OF compute_sn_less, of "pdcp_compute_hfn c sz" sz c] by (simp add: word_unat_eq_iff)
qed

lemma same_parts:
  assumes "sn = pdcp_compute_sn c sz" "unat hfn = unat c div sn_mod sz"
  shows "pdcp_compute_count hfn sn sz = c"
proof -
  have "hfn = pdcp_compute_hfn c sz"
    using assms(2) by (simp add: word_unat_eq_iff unat_compute_hfn)
  with assms(1) show ?thesis by (simp add: count_parts)
qed

lemma split_window:
  fixes d S c M W :: nat
  assumes "M = 2 * W" "0 < W" "d \<le> c + W" "c < d + W"
  defines "S \<equiv> d mod M" and "sn \<equiv> c mod M"
  shows "int sn < int S - int W \<Longrightarrow> c div M = d div M + 1"
    "S + W \<le> sn \<Longrightarrow> c div M + 1 = d div M"
    "\<not> int sn < int S - int W \<Longrightarrow> \<not> S + W \<le> sn \<Longrightarrow> c div M = d div M"
proof -
  have M: "0 < M" using assms(1,2) by simp
  have c: "c = c div M * M + sn" "sn < M" and d: "d = d div M * M + S" "S < M"
    using M by (simp_all add: S_def sn_def)
  define q r where "q = c div M" and "r = d div M"
  have cq: "c = q * M + sn" and dr: "d = r * M + S"
    using c(1) d(1) by (simp_all add: q_def r_def)
  have le: "q \<le> r + 1"
  proof (rule ccontr)
    assume "\<not> q \<le> r + 1"
    then have "(r + 2) * M \<le> q * M" by (intro mult_le_mono1) simp
    with cq dr d(2) assms(1,4) show False by (simp add: algebra_simps)
  qed
  have ge: "r \<le> q + 1"
  proof (rule ccontr)
    assume "\<not> r \<le> q + 1"
    then have "(q + 2) * M \<le> r * M" by (intro mult_le_mono1) simp
    with cq dr c(2) assms(1,3) show False by (simp add: algebra_simps)
  qed
  from le ge have "q = r + 1 \<and> q * M = r * M + M \<or> q = r \<and> q * M = r * M \<or> r = q + 1 \<and> r * M = q * M + M"
    by (auto simp: le_Suc_eq)
  then show "int sn < int S - int W \<Longrightarrow> c div M = d div M + 1" "S + W \<le> sn \<Longrightarrow> c div M + 1 = d div M"
    "\<not> int sn < int S - int W \<Longrightarrow> \<not> S + W \<le> sn \<Longrightarrow> c div M = d div M"
    unfolding q_def [symmetric] r_def [symmetric] using cq dr assms(1-4) by linarith+
qed

lemma infer_count_window:
  assumes "unat base \<le> unat c + pdcp_W sz" "unat c < unat base + pdcp_W sz"
  shows "infer_count sz base (pdcp_compute_sn c sz) = c"
proof -
  let ?S = "unat (pdcp_compute_sn base sz)" let ?sn = "unat (pdcp_compute_sn c sz)" let ?W = "pdcp_W sz"
  note w = split_window [OF sn_mod_window(1,2) assms, folded unat_compute_sn]
  have sum: "pdcp_compute_sn base sz + pdcp_window_size sz \<le> pdcp_compute_sn c sz \<longleftrightarrow> ?S + ?W \<le> ?sn"
    using compute_sn_less [of base sz] sn_mod_window [of sz] by (simp add: word_le_nat_alt unat_add_fits)
  have big: "unat c div sn_mod sz < 2 ^ 32"
    using le_less_trans [OF div_le_dividend unsigned_less [of c, where 'a = nat]] by simp
  show ?thesis
  proof (cases "int ?sn < int ?S - int ?W")
    case True
    from w(1) [OF True] have "unat (pdcp_compute_hfn base sz + 1) = unat c div sn_mod sz"
      using big by (simp add: unat_add_fits unat_compute_hfn)
    from same_parts [OF refl this] True show ?thesis by (simp add: infer_count_def)
  next
    case f: False
    show ?thesis
    proof (cases "?S + ?W \<le> ?sn")
      case True
      from w(2) [OF True] have h: "unat (pdcp_compute_hfn base sz) = unat c div sn_mod sz + 1"
        by (simp add: unat_compute_hfn)
      then have "unat (pdcp_compute_hfn base sz - 1) = unat c div sn_mod sz"
        by (simp add: unat_sub word_le_nat_alt)
      from same_parts [OF refl this] f True show ?thesis by (simp add: infer_count_def sum)
    next
      case False
      from w(3) [OF f False] have "unat (pdcp_compute_hfn base sz) = unat c div sn_mod sz"
        by (simp add: unat_compute_hfn)
      from same_parts [OF refl this] f False show ?thesis by (simp add: infer_count_def sum)
    qed
  qed
qed

text \<open>While the HFN of the base is zero, an SN a window or more above it gets the HFN before zero.\<close>

lemma infer_count_wraps:
  assumes "unat base + pdcp_W Sn_size12bits \<le> unat sn" "unat sn < 4096"
  shows "unat (infer_count Sn_size12bits base sn) = 0xfffff000 + unat sn"
proof -
  have base: "unat base < 2048" using assms by (simp add: pdcp_window_size_def)
  have sn: "pdcp_compute_sn base Sn_size12bits = base"
    using base by (simp add: word_unat_eq_iff unat_compute_sn sn_mod_def pdcp_sn_size_to_uint_def)
  have hfn: "pdcp_compute_hfn base Sn_size12bits = 0"
    using base by (simp add: word_unat_eq_iff unat_compute_hfn sn_mod_def pdcp_sn_size_to_uint_def)
  have "unat (base + 2048) = unat base + 2048"
    using base by (simp add: unat_add_fits)
  then have above: "base + 2048 \<le> sn"
    using assms(1) by (simp add: word_le_nat_alt pdcp_window_size_def)
  have "\<not> bit sn i" if "12 \<le> i" for i
    using assms(2) that bit_less_exp [of sn 12 i] by (auto simp: word_less_nat_alt)
  then have "push_bit 12 (- 1) AND sn = 0"
    by (intro bit_word_eqI) (auto simp: bit_simps not_le)
  then have "push_bit 12 (- 1) OR sn = push_bit 12 (- 1) + sn" by (simp only: disjunctive_add_eq_or)
  moreover have "pdcp_W Sn_size12bits = 2048" by (simp add: pdcp_window_size_def)
  then have "\<not> int (unat sn) < int (unat base) - int (pdcp_W Sn_size12bits)" using assms(1) by linarith
  then have "infer_count Sn_size12bits base sn = push_bit 12 (- 1) OR sn"
    using above by (simp add: infer_count_def sn hfn pdcp_window_size_def pdcp_compute_count_def
      pdcp_sn_size_to_uint_def del: push_bit_minus_one)
  moreover have "push_bit 12 (- 1) = (0xfffff000 :: u32)" by (simp add: mask_eq_exp_minus_1 not_eq_complement)
  ultimately have "infer_count Sn_size12bits base sn = 0xfffff000 + sn" by simp
  then show ?thesis using assms(2) by (simp add: unat_add_fits)
qed

section \<open>The header is read back\<close>

lemma hdr_masks:
  "(0x00000f00 :: u32) = push_bit 8 (mask 4)" "(0x0000ff00 :: u32) = push_bit 8 (mask 8)"
  "(0x00030000 :: u32) = push_bit 16 (mask 2)" "(0x80 :: u8) = push_bit 7 (mask 1)"
  by (simp_all add: mask_eq_exp_minus_1)

lemma read_12bits:
  fixes sn :: u32 and b0 :: u8
  assumes "\<And>i. bit sn i \<Longrightarrow> i < 12" "\<And>i. bit b0 i \<Longrightarrow> i = 7"
  shows "push_bit 8 (ucast ((b0 OR ucast (drop_bit 8 (sn AND 0x00000f00))) AND 0x0f)) OR
    ucast ((ucast (sn AND 0x000000ff) :: u8) AND 0xff) = sn"
  unfolding hdr_masks mask_lits by (rule bit_word_eqI) (auto simp: bit_simps dest: assms)

lemma read_18bits:
  fixes sn :: u32 and b0 :: u8
  assumes "\<And>i. bit sn i \<Longrightarrow> i < 18" "\<And>i. bit b0 i \<Longrightarrow> i = 7"
  shows "push_bit 16 (ucast ((b0 OR ucast (drop_bit 16 (sn AND 0x00030000))) AND 0x03)) OR
    push_bit 8 (ucast ((ucast (drop_bit 8 (sn AND 0x0000ff00)) :: u8) AND 0xff)) OR
    ucast ((ucast (sn AND 0x000000ff) :: u8) AND 0xff) = sn"
  unfolding hdr_masks mask_lits
proof (rule bit_word_eqI)
  fix n
  show "bit (push_bit 16 (ucast ((b0 OR ucast (drop_bit 16 (sn AND push_bit 16 (mask 2)))) AND mask 2)) OR
      push_bit 8 (ucast ((ucast (drop_bit 8 (sn AND push_bit 8 (mask 8))) :: u8) AND mask 8)) OR
      ucast ((ucast (sn AND mask 8) :: u8) AND mask 8) :: u32) n = bit sn n"
    using assms(1) [of n] assms(2) [of "n - 16"] by (cases "n < 8"; cases "n < 16") (auto simp: bit_simps)
qed

lemma dc_bit: "bit (if rb = Drb then 0x80 else 0x00 :: u8) i \<Longrightarrow> i = 7"
proof -
  have "bit (0x80 :: u8) i \<Longrightarrow> i = 7"
    unfolding hdr_masks by (auto simp only: bit_push_bit_iff bit_mask_iff)
  then show "bit (if rb = Drb then 0x80 else 0x00 :: u8) i \<Longrightarrow> i = 7" by (cases rb) simp_all
qed

lemma dc_data: "pdcp_pdu_get_dc (0x80 OR x) = Pdcp_dc_data"
proof -
  have "bit (drop_bit 7 (0x80 OR x) AND 0x01) 0"
    unfolding hdr_masks by (simp add: bit_simps)
  then show ?thesis by (auto simp: pdcp_pdu_get_dc_def)
qed

lemma header_written:
  assumes "rb = Srb \<Longrightarrow> sz = Sn_size12bits"
  obtains h where "write_data_pdu_header rb sz sn = Inr h" "length h = pdcp_data_pdu_header_size sz"
    "rb = Drb \<Longrightarrow> pdcp_pdu_get_dc (h ! 0) = Pdcp_dc_data"
proof -
  have "\<not> (rb = Srb \<and> sz = Sn_size18bits)" using assms by auto
  then show thesis
    using that by (cases sz) (auto simp: write_data_pdu_header_def pdcp_data_pdu_header_size_def Let_def dc_data)
qed

lemma header_read:
  assumes "write_data_pdu_header rb sz sn = Inr h" "unat sn < sn_mod sz" "payload \<noteq> []"
  shows "read_data_pdu_header sz (h @ payload) = Some sn"
proof -
  have "sn < 2 ^ pdcp_sn_size_to_uint sz"
    using assms(2) by (cases sz) (simp_all add: sn_mod_def pdcp_sn_size_to_uint_def word_less_nat_alt)
  from bit_less_exp [OF this] have b: "bit sn i \<Longrightarrow> i < pdcp_sn_size_to_uint sz" for i .
  show ?thesis
  proof (cases sz)
    case Sn_size12bits
    with b have "\<And>i. bit sn i \<Longrightarrow> i < 12" by (simp add: pdcp_sn_size_to_uint_def)
    from read_12bits [of sn "if rb = Drb then 0x80 else 0x00", OF this dc_bit] assms(1,3) Sn_size12bits show ?thesis
      by (auto simp: write_data_pdu_header_def read_data_pdu_header_def Let_def pdcp_data_pdu_header_size_def
        split: if_splits)
  next
    case Sn_size18bits
    with b have "\<And>i. bit sn i \<Longrightarrow> i < 18" by (simp add: pdcp_sn_size_to_uint_def)
    from read_18bits [of sn "if rb = Drb then 0x80 else 0x00", OF this dc_bit] assms(1,3) Sn_size18bits show ?thesis
      by (auto simp: write_data_pdu_header_def read_data_pdu_header_def Let_def pdcp_data_pdu_header_size_def
        split: if_splits)
  qed
qed

section \<open>Properties\<close>

text \<open>C8: The header of a data PDU carries only the SN; the receiver recovers the whole COUNT from it whenever the
  COUNT is less than half the SN space away from the base it keeps, below as well as above, also when the SN
  has wrapped in between.\<close>

theorem pdcp_count_recovered:
  assumes "unat base \<le> unat c + unat (pdcp_window_size sz)" "unat c < unat base + unat (pdcp_window_size sz)"
    "rb = Srb \<Longrightarrow> sz = Sn_size12bits" "payload \<noteq> []"
  shows "\<exists>h sn. write_data_pdu_header rb sz (pdcp_compute_sn c sz) = Inr h \<and>
    length h = pdcp_data_pdu_header_size sz \<and> read_data_pdu_header sz (h @ payload) = Some sn \<and>
    infer_count sz base sn = c"
proof -
  obtain h where h: "write_data_pdu_header rb sz (pdcp_compute_sn c sz) = Inr h"
      "length h = pdcp_data_pdu_header_size sz"
    using header_written [OF assms(3)] by blast
  with header_read [OF h(1) compute_sn_less assms(4)] infer_count_window [OF assms(1,2)] show ?thesis by blast
qed

theorem pdcp_count_recovered_witness:
  "\<exists>h sn. write_data_pdu_header Drb Sn_size12bits (pdcp_compute_sn 4097 Sn_size12bits) = Inr h \<and>
    length h = pdcp_data_pdu_header_size Sn_size12bits \<and> read_data_pdu_header Sn_size12bits (h @ [7]) = Some sn \<and>
    infer_count Sn_size12bits 4090 sn = 4097"
  by (rule pdcp_count_recovered) (simp_all add: pdcp_window_size_def)

end
