(* ===== verification/Bit_Encoding.thy ===== *)
theory Bit_Encoding
  imports Prelude
begin

text \<open>
  Packing and unpacking of bit fields (\<open>bit_encoding.h\<close>, \<open>bit_encoding.cpp\<close>), most significant bit first.
  \<open>bit_encoder\<close> appends fields to a byte buffer, \<open>bit_decoder\<close> reads them from one.  Both keep the offset of
  the next bit in the current byte, 0 to 7.  The theory relates both classes to lists of bits: packing a
  field appends its bits, unpacking takes them off the front.  The shifts of \<open>bit_decoder::unpack\<close> are done
  on 32 bits; a shift by 32 or more is undefined and a fault of the model.
\<close>

section \<open>Bits of bytes and values\<close>

text \<open>The low \<open>n\<close> bits of a value, most significant first.\<close>

definition val_bits :: "nat \<Rightarrow> 'a::len word \<Rightarrow> bool list" where
  "val_bits n v = map (bit v) (rev [0..<n])"

text \<open>The value of a list of bits, most significant first.\<close>

definition bits_val :: "bool list \<Rightarrow> 'a::len word" where
  "bits_val bs = horner_sum of_bool 2 (rev bs)"

definition bytes_bits :: "bytes \<Rightarrow> bool list" where
  "bytes_bits bs = concat (map (val_bits 8) bs)"

lemma length_val_bits [simp]: "length (val_bits n v) = n"
  by (simp add: val_bits_def)

lemma val_bits_0 [simp]: "val_bits 0 v = []"
  by (simp add: val_bits_def)

lemma nth_val_bits [simp]: "i < n \<Longrightarrow> val_bits n v ! i = bit v (n - 1 - i)"
  by (simp add: val_bits_def rev_nth)

lemma length_bytes_bits [simp]: "length (bytes_bits bs) = 8 * length bs"
  by (induction bs) (simp_all add: bytes_bits_def)

lemma bytes_bits_simps [simp]:
  "bytes_bits [] = []" "bytes_bits (b # bs) = val_bits 8 b @ bytes_bits bs"
  "bytes_bits (xs @ ys) = bytes_bits xs @ bytes_bits ys"
  by (simp_all add: bytes_bits_def)

lemma bit_bits_val: "bit (bits_val bs :: 'a::len word) i \<longleftrightarrow> i < LENGTH('a) \<and> i < length bs \<and> bs ! (length bs - 1 - i)"
  by (auto simp: bits_val_def bit_horner_sum_bit_iff rev_nth)

lemma bits_val_Nil [simp]: "bits_val [] = 0"
  by (simp add: bits_val_def)

lemma bits_val_val_bits: "bits_val (val_bits n v) = (take_bit n v :: 'a::len word)"
  by (rule bit_word_eqI) (auto simp: bit_bits_val bit_take_bit_iff)

lemma bits_val_append:
  "bits_val (xs @ ys) = push_bit (length ys) (bits_val xs) OR (bits_val ys :: 'a::len word)"
  by (rule bit_word_eqI) (auto simp: bit_bits_val bit_simps nth_append)

lemma val_bits_split:
  "k \<le> n \<Longrightarrow> val_bits n v = val_bits (n - k) (drop_bit k v) @ val_bits k v"
  by (rule nth_equalityI) (auto simp: nth_append bit_drop_bit_eq)

lemma val_bits_ucast:
  "n \<le> LENGTH('b::len) \<Longrightarrow> val_bits n (ucast (v :: 'a::len word) :: 'b word) = val_bits n v"
  by (rule nth_equalityI) (auto simp: bit_simps)

lemma val_bits_take_bit: "n \<le> m \<Longrightarrow> val_bits n (take_bit m v) = val_bits n v"
  by (rule nth_equalityI) (auto simp: bit_simps)

section \<open>The encoder\<close>

record bit_encoder =
  enc_buf :: bytes
  enc_offset :: nat

definition bit_encoder_init :: "bytes \<Rightarrow> bit_encoder" where
  "bit_encoder_init buf = \<lparr>enc_buf = buf, enc_offset = 0\<rparr>"

definition enc_nof_bytes :: "bit_encoder \<Rightarrow> nat" where
  "enc_nof_bytes e = length (enc_buf e)"

definition enc_nof_bits :: "bit_encoder \<Rightarrow> nat" where
  "enc_nof_bits e = 8 * (length (enc_buf e) - (if enc_offset e = 0 then 0 else 1)) + enc_offset e"

text \<open>\<open>writer.back() += x\<close>\<close>

definition add_back :: "u8 \<Rightarrow> bytes \<Rightarrow> bytes" where
  "add_back x buf = butlast buf @ [last buf + x]"

function pack_loop :: "u64 \<Rightarrow> nat \<Rightarrow> bytes \<Rightarrow> nat \<Rightarrow> bit_encoder" where
  "pack_loop val n_bits buf offset =
    (if n_bits = 0 then \<lparr>enc_buf = buf, enc_offset = offset\<rparr>
     else
       let buf = (if offset = 0 then buf @ [0] else buf);
           val = val AND (push_bit n_bits 1 - 1)
       in if n_bits < 8 - offset
          then pack_loop val 0 (add_back (ucast (push_bit (8 - offset - n_bits) val)) buf) (offset + n_bits)
          else pack_loop val (n_bits - (8 - offset))
            (add_back (ucast (drop_bit (n_bits - (8 - offset)) val)) buf) 0)"
  by pat_completeness auto
termination
  by (relation "measures [\<lambda>(v, n, b, off). n, \<lambda>(v, n, b, off). off]") auto

declare pack_loop.simps [simp del]

definition pack :: "u64 \<Rightarrow> nat \<Rightarrow> bit_encoder \<Rightarrow> bit_encoder res" where
  "pack val n_bits e =
    (if n_bits < 64 then Inr (pack_loop val n_bits (enc_buf e) (enc_offset e)) else Inl Assertion_failed)"

fun pack_each :: "bytes \<Rightarrow> bit_encoder \<Rightarrow> bit_encoder res" where
  "pack_each [] e = Inr e"
| "pack_each (b # bs) e = (case pack (ucast b) 8 e of Inl f \<Rightarrow> Inl f | Inr e' \<Rightarrow> pack_each bs e')"

definition pack_bytes :: "bytes \<Rightarrow> bit_encoder \<Rightarrow> bit_encoder res" where
  "pack_bytes bs e =
    (if bs = [] then Inr e
     else if enc_offset e = 0 then Inr (e\<lparr>enc_buf := enc_buf e @ bs\<rparr>)
     else pack_each bs e)"

definition align_bytes_zero :: "bit_encoder \<Rightarrow> bit_encoder" where
  "align_bytes_zero e = e\<lparr>enc_offset := 0\<rparr>"

section \<open>Packing appends bits\<close>

definition enc_bits :: "bytes \<Rightarrow> nat \<Rightarrow> bool list" where
  "enc_bits buf offset =
    (if offset = 0 then bytes_bits buf else bytes_bits (butlast buf) @ take offset (val_bits 8 (last buf)))"

text \<open>The bits after the offset are zero, so that adding a field to the last byte sets its bits.\<close>

definition enc_ok :: "bytes \<Rightarrow> nat \<Rightarrow> bool" where
  "enc_ok buf offset \<longleftrightarrow> offset < 8 \<and> (offset \<noteq> 0 \<longrightarrow> buf \<noteq> [] \<and> take_bit (8 - offset) (last buf) = 0)"

abbreviation encoder_bits :: "bit_encoder \<Rightarrow> bool list" where
  "encoder_bits e \<equiv> enc_bits (enc_buf e) (enc_offset e)"

abbreviation encoder_ok :: "bit_encoder \<Rightarrow> bool" where
  "encoder_ok e \<equiv> enc_ok (enc_buf e) (enc_offset e)"

lemma encoder_init [simp]:
  "encoder_ok (bit_encoder_init buf)" "encoder_bits (bit_encoder_init buf) = bytes_bits buf"
  by (simp_all add: bit_encoder_init_def enc_ok_def enc_bits_def)

lemma and_ones: "v AND (push_bit n 1 - 1) = (take_bit n v :: 'a::len word)"
  by (simp add: take_bit_eq_mask mask_eq_exp_minus_1 push_bit_eq_mult)

lemma add_disjoint:
  fixes b x :: "8 word"
  assumes "take_bit k b = 0" "take_bit k x = x"
  shows "bit (b + x) i \<longleftrightarrow> (if i < k then bit x i else bit b i)"
proof -
  have "\<not> bit b j" if "j < k" for j
    using assms(1) that by (metis bit_0_eq bit_take_bit_iff bot_apply bot_bool_def)
  moreover have "\<not> bit x j" if "k \<le> j" for j
    using assms(2) that by (metis bit_take_bit_iff not_less)
  ultimately have d: "\<And>j. j < k \<Longrightarrow> \<not> bit b j" "\<And>j. k \<le> j \<Longrightarrow> \<not> bit x j"
    by blast+
  have "\<not> (bit b j \<and> bit x j)" for j
    using d [of j] by (cases "j < k") auto
  then have "b AND x = 0"
    by (intro bit_word_eqI) (simp add: bit_and_iff)
  then have "b + x = b OR x"
    by (rule disjunctive_add_eq_or)
  with d show ?thesis by (auto simp: bit_simps not_less)
qed

text \<open>One byte: the offset splits it into the bits written and those free.\<close>

lemma fill_byte:
  fixes b x :: "8 word"
  assumes "offset < 8" "take_bit (8 - offset) b = 0" "take_bit (8 - offset) x = x"
  shows "val_bits 8 (b + x) = take offset (val_bits 8 b) @ val_bits (8 - offset) x"
  using assms by (intro nth_equalityI) (auto simp: nth_append add_disjoint [OF assms(2,3)])

lemma pack_start:
  assumes "enc_ok buf offset"
  defines "buf' \<equiv> (if offset = 0 then buf @ [0] else buf)"
  shows "buf' \<noteq> []" "take_bit (8 - offset) (last buf') = 0"
    "bytes_bits (butlast buf') @ take offset (val_bits 8 (last buf')) = enc_bits buf offset"
  using assms by (auto simp: enc_ok_def enc_bits_def)

lemma pack_loop_0 [simp]: "pack_loop val 0 buf offset = \<lparr>enc_buf = buf, enc_offset = offset\<rparr>"
  by (simp add: pack_loop.simps)

lemma pack_loop_step:
  assumes "n_bits \<noteq> 0"
  defines "buf' offset buf \<equiv> (if offset = 0 then buf @ [0] else buf)"
  shows "n_bits < 8 - offset \<Longrightarrow> pack_loop val n_bits buf offset =
      \<lparr>enc_buf = add_back (ucast (push_bit (8 - offset - n_bits) (take_bit n_bits val))) (buf' offset buf),
        enc_offset = offset + n_bits\<rparr>"
    "\<not> n_bits < 8 - offset \<Longrightarrow> pack_loop val n_bits buf offset =
      pack_loop (take_bit n_bits val) (n_bits - (8 - offset))
        (add_back (ucast (drop_bit (n_bits - (8 - offset)) (take_bit n_bits val))) (buf' offset buf)) 0"
  using assms by (simp_all only: pack_loop.simps [of val n_bits] pack_loop_0 Let_def and_ones if_False if_True)

lemma pack_loop_bits:
  assumes "enc_ok buf offset" "n_bits < 64"
  shows "encoder_ok (pack_loop val n_bits buf offset) \<and>
    encoder_bits (pack_loop val n_bits buf offset) = enc_bits buf offset @ val_bits n_bits val"
  using assms
proof (induction n_bits arbitrary: val buf offset rule: less_induct)
  case (less n)
  define buf' where "buf' = (if offset = 0 then buf @ [0] else buf)"
  define val' where "val' = take_bit n val"
  note st = pack_start [OF less.prems(1), folded buf'_def]
  from less.prems(1) have off: "offset < 8" by (simp add: enc_ok_def)
  show ?case
  proof (cases "n = 0")
    case True
    with less.prems show ?thesis by simp
  next
    case n: False
    show ?thesis
    proof (cases "n < 8 - offset")
      case True
      define x where "x = (ucast (push_bit (8 - offset - n) val') :: u8)"
      have x: "take_bit (8 - offset) x = x"
        by (rule bit_word_eqI) (use True in \<open>auto simp: x_def val'_def bit_simps\<close>)
      have bits: "val_bits 8 (last buf' + x) = take offset (val_bits 8 (last buf')) @ val_bits (8 - offset) x"
        by (rule fill_byte [OF off st(2) x])
      have "val_bits (8 - offset) x = val_bits n val @ replicate (8 - offset - n) False"
        by (rule nth_equalityI) (use True in \<open>auto simp: x_def val'_def nth_append bit_simps\<close>)
      with bits off True have b: "take (offset + n) (val_bits 8 (last buf' + x)) =
          take offset (val_bits 8 (last buf')) @ val_bits n val"
        by simp
      have z: "take_bit (8 - (offset + n)) (last buf' + x) = 0"
      proof (rule bit_word_eqI)
        fix i
        show "bit (take_bit (8 - (offset + n)) (last buf' + x)) i = bit (0 :: u8) i"
          using True by (auto simp: bit_take_bit_iff add_disjoint [OF st(2) x]) (auto simp: x_def bit_simps)
      qed
      have "pack_loop val n buf offset = \<lparr>enc_buf = add_back x buf', enc_offset = offset + n\<rparr>"
        using pack_loop_step(1) [OF n True] by (simp add: buf'_def x_def val'_def)
      with b z st n True show ?thesis
        by (auto simp: enc_ok_def enc_bits_def add_back_def)
    next
      case False
      define k where "k = n - (8 - offset)"
      define x where "x = (ucast (drop_bit k val') :: u8)"
      have kn: "k < n" "n - k = 8 - offset" using False off by (auto simp: k_def)
      have x: "take_bit (8 - offset) x = x"
        by (rule bit_word_eqI) (use kn in \<open>auto simp: x_def val'_def bit_simps\<close>)
      have "val_bits 8 (last buf' + x) = take offset (val_bits 8 (last buf')) @ val_bits (8 - offset) x"
        by (rule fill_byte [OF off st(2) x])
      moreover have "val_bits (8 - offset) x = val_bits (n - k) (drop_bit k val)"
        by (rule nth_equalityI) (use kn in \<open>auto simp: x_def val'_def bit_simps\<close>)
      ultimately have "bytes_bits (add_back x buf') = enc_bits buf offset @ val_bits (n - k) (drop_bit k val)"
        using st by (simp add: add_back_def)
      moreover have "pack_loop val n buf offset = pack_loop val' k (add_back x buf') 0"
        using pack_loop_step(2) [OF n False] by (simp add: buf'_def x_def val'_def k_def)
      moreover have "val_bits k val' = val_bits k val"
        using kn by (simp add: val'_def val_bits_take_bit)
      moreover have "enc_ok (add_back x buf') 0" "enc_bits (add_back x buf') 0 = bytes_bits (add_back x buf')"
        by (simp_all add: enc_ok_def enc_bits_def)
      moreover have "val_bits n val = val_bits (n - k) (drop_bit k val) @ val_bits k val"
        using kn(1) by (intro val_bits_split) simp
      moreover have "k < 64" using kn(1) less.prems(2) by simp
      ultimately show ?thesis
        using less.IH [OF kn(1), of "add_back x buf'" 0 val'] by (simp only: append_assoc simp_thms)
    qed
  qed
qed

lemma pack_bits:
  assumes "encoder_ok e" "n < 64"
  obtains e' where "pack v n e = Inr e'" "encoder_ok e'" "encoder_bits e' = encoder_bits e @ val_bits n v"
  using pack_loop_bits [OF assms(1), of n v] assms(2) by (simp add: pack_def)

section \<open>The decoder\<close>

record bit_decoder =
  dec_buf :: bytes
  dec_it :: nat
  dec_offset :: nat

definition bit_decoder_init :: "bytes \<Rightarrow> bit_decoder" where
  "bit_decoder_init buf = \<lparr>dec_buf = buf, dec_it = 0, dec_offset = 0\<rparr>"

definition dec_nof_bytes :: "bit_decoder \<Rightarrow> nat" where
  "dec_nof_bytes d = dec_it d + (if dec_offset d \<noteq> 0 then 1 else 0)"

definition dec_nof_bits :: "bit_decoder \<Rightarrow> nat" where
  "dec_nof_bits d = dec_offset d + 8 * dec_it d"

definition divide_ceil :: "u32 \<Rightarrow> u32 \<Rightarrow> u32" where
  "divide_ceil num den = (num + (den - 1)) div den"

definition advance_bits :: "u32 \<Rightarrow> bit_decoder \<Rightarrow> bool \<times> bit_decoder" where
  "advance_bits n_bits d =
    (let extra_bits = (of_nat (dec_offset d) + n_bits) mod 8;
         bytes_required = divide_ceil (of_nat (dec_offset d) + n_bits) 8;
         bytes_offset = (of_nat (dec_offset d) + n_bits) div 8
     in if length (dec_buf d) - dec_it d < unat bytes_required then (False, d)
        else (True, d\<lparr>dec_it := dec_it d + unat bytes_offset, dec_offset := unat extra_bits\<rparr>))"

text \<open>\<open>unpack\<close> for an unsigned type of the width of the result; its value is added up byte by byte.\<close>

function unpack_loop :: "'a::len word \<Rightarrow> nat \<Rightarrow> bytes \<Rightarrow> nat \<Rightarrow> nat \<Rightarrow> (bool \<times> 'a word \<times> nat \<times> nat) res" where
  "unpack_loop val n_bits buf it offset =
    (if n_bits = 0 then Inr (True, val, it, offset)
     else if length buf \<le> it then Inr (False, val, it, offset)
     else if n_bits < 8 - offset then
       let mk = ucast (push_bit (8 - offset) (1 :: u32)) - ucast (push_bit (8 - offset - n_bits) (1 :: u32)) in
       unpack_loop (val + ucast (drop_bit (8 - offset - n_bits) (ucast (buf ! it AND mk) :: u32))) 0
         buf it (offset + n_bits)
     else
       let mk = ucast (push_bit (8 - offset) (1 :: u32) - 1);
           n_bits' = n_bits - (8 - offset)
       in if 32 \<le> n_bits' then Inl Undefined_shift
          else unpack_loop (val + ucast (push_bit n_bits' (ucast (buf ! it AND mk) :: u32))) n_bits'
            buf (it + 1) 0)"
  by pat_completeness auto
termination
  by (relation "measures [\<lambda>(v, n, b, i, off). n, \<lambda>(v, n, b, i, off). off]") auto

declare unpack_loop.simps [simp del]

definition unpack :: "nat \<Rightarrow> bit_decoder \<Rightarrow> (bool \<times> 'a::len word \<times> bit_decoder) res" where
  "unpack n_bits d =
    (if LENGTH('a) < n_bits then Inl Assertion_failed
     else (case unpack_loop 0 n_bits (dec_buf d) (dec_it d) (dec_offset d) of
         Inl f \<Rightarrow> Inl f
       | Inr (ok, val, it, offset) \<Rightarrow> Inr (ok, val, d\<lparr>dec_it := it, dec_offset := offset\<rparr>)))"

text \<open>The unaligned case reads byte by byte into the span.\<close>

fun unpack_each :: "nat \<Rightarrow> bit_decoder \<Rightarrow> (bool \<times> bytes \<times> bit_decoder) res" where
  "unpack_each 0 d = Inr (True, [], d)"
| "unpack_each (Suc n) d =
    (case unpack 8 d of
       Inl f \<Rightarrow> Inl f
     | Inr (ok, b, d') \<Rightarrow>
        if ok then
          (case unpack_each n d' of
             Inl f \<Rightarrow> Inl f
           | Inr (ok', bs, d'') \<Rightarrow> Inr (ok', b # bs, d''))
        else Inr (False, [b], d'))"

text \<open>
  The aligned case copies the whole buffer, from its first byte on, into the span, and a copy past the end of
  the span is an invalid access.
\<close>

definition unpack_bytes :: "nat \<Rightarrow> bit_decoder \<Rightarrow> (bool \<times> bytes \<times> bit_decoder) res" where
  "unpack_bytes nof_bytes d =
    (if nof_bytes = 0 then Inr (True, [], d)
     else if length (dec_buf d) - dec_it d < nof_bytes then Inr (False, [], d)
     else if dec_offset d = 0 then
       (if nof_bytes < length (dec_buf d) then Inl Invalid_access
        else Inr (True, dec_buf d, d\<lparr>dec_it := dec_it d + nof_bytes\<rparr>))
     else unpack_each nof_bytes d)"

definition dec_align_bytes :: "bit_decoder \<Rightarrow> bit_decoder" where
  "dec_align_bytes d = (if dec_offset d \<noteq> 0 then d\<lparr>dec_it := dec_it d + 1, dec_offset := 0\<rparr> else d)"

section \<open>Unpacking takes bits off the front\<close>

definition dec_bits :: "bytes \<Rightarrow> nat \<Rightarrow> nat \<Rightarrow> bool list" where
  "dec_bits buf it offset = drop (8 * it + offset) (bytes_bits buf)"

definition dec_ok :: "bytes \<Rightarrow> nat \<Rightarrow> nat \<Rightarrow> bool" where
  "dec_ok buf it offset \<longleftrightarrow> offset < 8 \<and> it \<le> length buf \<and> (it = length buf \<longrightarrow> offset = 0)"

abbreviation decoder_bits :: "bit_decoder \<Rightarrow> bool list" where
  "decoder_bits d \<equiv> dec_bits (dec_buf d) (dec_it d) (dec_offset d)"

abbreviation decoder_ok :: "bit_decoder \<Rightarrow> bool" where
  "decoder_ok d \<equiv> dec_ok (dec_buf d) (dec_it d) (dec_offset d)"

lemma decoder_init [simp]:
  "decoder_ok (bit_decoder_init buf)" "decoder_bits (bit_decoder_init buf) = bytes_bits buf"
  by (simp_all add: bit_decoder_init_def dec_ok_def dec_bits_def)

text \<open>The current byte.\<close>

lemma dec_bits_byte:
  assumes "it < length buf" "offset < 8"
  shows "dec_bits buf it offset = drop offset (val_bits 8 (buf ! it)) @ dec_bits buf (it + 1) 0"
proof -
  have "bytes_bits buf = bytes_bits (take it buf) @ val_bits 8 (buf ! it) @ bytes_bits (drop (it + 1) buf)"
    using id_take_nth_drop [OF assms(1)] by (metis Suc_eq_plus1 bytes_bits_simps(2,3))
  then show ?thesis using assms by (simp add: dec_bits_def)
qed

lemma bits_val_append_plus:
  "bits_val (xs @ ys) = push_bit (length ys) (bits_val xs) + (bits_val ys :: 'a::len word)"
proof -
  have "push_bit (length ys) (bits_val xs) AND (bits_val ys :: 'a word) = 0"
    by (rule bit_word_eqI) (auto simp: bit_simps bit_bits_val)
  from disjunctive_add_eq_or [OF this] show ?thesis by (simp add: bits_val_append)
qed

text \<open>The masks of the loop select the bits before and after the offset.\<close>

lemma field_mask:
  assumes "offset < 8" "0 < n" "n < 8 - offset"
  shows "ucast (push_bit (8 - offset) (1 :: u32)) - ucast (push_bit (8 - offset - n) (1 :: u32)) =
    (push_bit (8 - offset - n) (mask n) :: u8)"
proof -
  from assms have "offset \<in> {0, 1, 2, 3, 4, 5, 6}" "n \<in> {1, 2, 3, 4, 5, 6, 7}" by auto
  with assms show ?thesis by (auto simp: mask_eq_exp_minus_1)
qed

lemma rest_mask:
  assumes "offset < 8"
  shows "ucast (push_bit (8 - offset) (1 :: u32) - 1) = (mask (8 - offset) :: u8)"
proof -
  from assms have "offset \<in> {0, 1, 2, 3, 4, 5, 6, 7}" by auto
  with assms show ?thesis by (auto simp: mask_eq_exp_minus_1)
qed

lemma field_val:
  assumes "offset < 8" "n < 8 - offset"
  shows "(ucast (drop_bit (8 - offset - n) (ucast ((b :: u8) AND push_bit (8 - offset - n) (mask n)) :: u32)) :: 'a::len word) =
    bits_val (take n (drop offset (val_bits 8 b)))"
proof (rule bit_word_eqI)
  fix i
  assume "i < LENGTH('a)"
  show "bit (ucast (drop_bit (8 - offset - n) (ucast (b AND push_bit (8 - offset - n) (mask n)) :: u32)) :: 'a word) i \<longleftrightarrow>
      bit (bits_val (take n (drop offset (val_bits 8 b))) :: 'a word) i"
    using assms \<open>i < LENGTH('a)\<close> by (cases "i < n") (auto simp: bit_bits_val bit_simps min_def algebra_simps)
qed

lemma rest_val:
  assumes "offset < 8" "sh + (8 - offset) \<le> 32"
  shows "(ucast (push_bit sh (ucast ((b :: u8) AND mask (8 - offset)) :: u32)) :: 'a::len word) =
    push_bit sh (bits_val (drop offset (val_bits 8 b)))"
proof (rule bit_word_eqI)
  fix i
  assume "i < LENGTH('a)"
  show "bit (ucast (push_bit sh (ucast (b AND mask (8 - offset)) :: u32)) :: 'a word) i \<longleftrightarrow>
      bit (push_bit sh (bits_val (drop offset (val_bits 8 b))) :: 'a word) i"
    using assms \<open>i < LENGTH('a)\<close>
    by (cases "i - sh < 8 - offset") (auto simp: bit_bits_val bit_simps algebra_simps)
qed

lemma unpack_loop_0 [simp]: "unpack_loop val 0 buf it offset = Inr (True, val, it, offset)"
  by (simp add: unpack_loop.simps)

lemma unpack_loop_end: "n \<noteq> 0 \<Longrightarrow> unpack_loop val n buf (length buf) offset = Inr (False, val, length buf, offset)"
  by (simp add: unpack_loop.simps)

lemma unpack_loop_step:
  assumes "offset < 8" "it < length buf" "n \<noteq> 0"
  shows "n < 8 - offset \<Longrightarrow> unpack_loop val n buf it offset =
      Inr (True, val + bits_val (take n (drop offset (val_bits 8 (buf ! it)))), it, offset + n)"
    "8 - offset \<le> n \<Longrightarrow> n \<le> 32 \<Longrightarrow> unpack_loop val n buf it offset =
      unpack_loop (val + push_bit (n - (8 - offset)) (bits_val (drop offset (val_bits 8 (buf ! it)))))
        (n - (8 - offset)) buf (it + 1) 0"
proof -
  assume n: "n < 8 - offset"
  show "unpack_loop val n buf it offset =
      Inr (True, val + bits_val (take n (drop offset (val_bits 8 (buf ! it)))), it, offset + n)"
    using assms n unfolding unpack_loop.simps [of val n] Let_def field_mask [OF assms(1) _ n, simplified]
    by (simp only: field_mask field_val [OF assms(1) n] unpack_loop_0) simp
next
  assume n: "8 - offset \<le> n" "n \<le> 32"
  then have "n - (8 - offset) + (8 - offset) \<le> 32" "\<not> 32 \<le> n - (8 - offset)" "\<not> n < 8 - offset"
    using assms(1) by auto
  with assms show "unpack_loop val n buf it offset =
      unpack_loop (val + push_bit (n - (8 - offset)) (bits_val (drop offset (val_bits 8 (buf ! it)))))
        (n - (8 - offset)) buf (it + 1) 0"
    unfolding unpack_loop.simps [of val n] Let_def rest_mask [OF assms(1)]
    by (simp only: rest_val if_False not_le simp_thms) simp
qed

lemma unpack_loop_bits:
  assumes "dec_ok buf it offset" "n \<le> length (dec_bits buf it offset)" "n \<le> 32"
  shows "\<exists>it' offset'. unpack_loop val n buf it offset =
      Inr (True, val + bits_val (take n (dec_bits buf it offset)), it', offset') \<and>
    dec_ok buf it' offset' \<and> dec_bits buf it' offset' = drop n (dec_bits buf it offset)"
  using assms
proof (induction n arbitrary: val it offset rule: less_induct)
  case (less n)
  from less.prems(1) have off: "offset < 8" by (simp add: dec_ok_def)
  show ?case
  proof (cases "n = 0")
    case True
    with less.prems show ?thesis by (auto intro!: exI [of _ it] exI [of _ offset])
  next
    case n: False
    with less.prems(1,2) have it: "it < length buf"
      by (auto simp: dec_ok_def dec_bits_def)
    let ?bs = "drop offset (val_bits 8 (buf ! it))"
    note byte = dec_bits_byte [OF it off]
    show ?thesis
    proof (cases "n < 8 - offset")
      case True
      have "dec_bits buf it (offset + n) = drop n (dec_bits buf it offset)"
        by (simp add: dec_bits_def ac_simps)
      moreover have "dec_ok buf it (offset + n)" using True it by (simp add: dec_ok_def)
      moreover have "take n (dec_bits buf it offset) = take n ?bs" using True by (simp add: byte)
      ultimately show ?thesis
        using unpack_loop_step(1) [OF off it n True, of val] by auto
    next
      case False
      define m where "m = n - (8 - offset)"
      have m: "m < n" "n = (8 - offset) + m" using off False by (auto simp: m_def)
      have ok: "dec_ok buf (it + 1) 0" "m \<le> length (dec_bits buf (it + 1) 0)" "m \<le> 32"
        using it less.prems(2,3) m by (auto simp: dec_ok_def byte)
      obtain it' offset' where r: "unpack_loop (val + push_bit m (bits_val ?bs)) m buf (it + 1) 0 =
            Inr (True, val + push_bit m (bits_val ?bs) + bits_val (take m (dec_bits buf (it + 1) 0)), it', offset')"
          "dec_ok buf it' offset'" "dec_bits buf it' offset' = drop m (dec_bits buf (it + 1) 0)"
        using less.IH [OF m(1) ok] by blast
      have tk: "take n (dec_bits buf it offset) = ?bs @ take m (dec_bits buf (it + 1) 0)"
        "drop n (dec_bits buf it offset) = drop m (dec_bits buf (it + 1) 0)"
        using off by (simp_all add: byte m(2))
      have "unpack_loop val n buf it offset = unpack_loop (val + push_bit m (bits_val ?bs)) m buf (it + 1) 0"
        using unpack_loop_step(2) [OF off it n _ less.prems(3)] False by (simp add: m_def)
      moreover have "val + bits_val (take n (dec_bits buf it offset)) =
          val + push_bit m (bits_val ?bs) + bits_val (take m (dec_bits buf (it + 1) 0))"
        using ok(2) by (simp add: tk bits_val_append_plus)
      ultimately show ?thesis using r tk(2) by auto
    qed
  qed
qed

lemma unpack_loop_short:
  assumes "dec_ok buf it offset" "length (dec_bits buf it offset) < n" "n \<le> 32"
  shows "\<exists>v. unpack_loop val n buf it offset = Inr (False, v, length buf, 0)"
  using assms
proof (induction n arbitrary: val it offset rule: less_induct)
  case (less n)
  from less.prems(1,2) have off: "offset < 8" "n \<noteq> 0" by (auto simp: dec_ok_def)
  show ?case
  proof (cases "it = length buf")
    case True
    with less.prems(1) have "offset = 0" by (simp add: dec_ok_def)
    with True off show ?thesis by (simp add: unpack_loop_end)
  next
    case False
    with less.prems(1) have it: "it < length buf" by (simp add: dec_ok_def)
    note byte = dec_bits_byte [OF it off(1)]
    define m where "m = n - (8 - offset)"
    have n: "8 - offset \<le> n" "m < n" "length (dec_bits buf (it + 1) 0) < m" "m \<le> 32"
      using less.prems(2,3) off by (auto simp: byte m_def)
    have "dec_ok buf (it + 1) 0" using it by (simp add: dec_ok_def)
    from less.IH [OF n(2) this n(3,4)] show ?thesis
      unfolding unpack_loop_step(2) [OF off(1) it off(2) n(1) less.prems(3)] m_def by blast
  qed
qed

lemma unpack_bits:
  assumes "decoder_ok d" "n \<le> length (decoder_bits d)" "n \<le> 32" "n \<le> LENGTH('a::len)"
  obtains d' where "unpack n d = Inr (True, bits_val (take n (decoder_bits d)) :: 'a word, d')"
    "decoder_ok d'" "decoder_bits d' = drop n (decoder_bits d)" "dec_buf d' = dec_buf d"
  using unpack_loop_bits [OF assms(1-3), of "0 :: 'a word"] assms(4) by (auto simp: unpack_def)

lemma unpack_short:
  assumes "decoder_ok d" "length (decoder_bits d) < n" "n \<le> 32" "n \<le> LENGTH('a::len)"
  obtains v :: "'a::len word" where
    "unpack n d = Inr (False, v, d\<lparr>dec_it := length (dec_buf d), dec_offset := 0\<rparr>)"
  using unpack_loop_short [OF assms(1-3), of "0 :: 'a word"] assms(4) by (auto simp: unpack_def)

text \<open>A bit that was read moves the decoder on, so that a loop that reads bits until the end of the buffer ends.\<close>

definition dec_left :: "bit_decoder \<Rightarrow> nat" where
  "dec_left d = 8 * (length (dec_buf d) - dec_it d) + (7 - dec_offset d)"

lemma unpack_loop_far:
  assumes "8 \<le> offset" "it < length buf"
  shows "\<exists>val'. unpack_loop val (Suc 0) buf it offset = unpack_loop (val' :: u32) (Suc 0) buf (it + 1) 0"
proof -
  have "8 - offset = 0" "\<not> length buf \<le> it" "\<not> Suc 0 < 0" "\<not> 32 \<le> Suc 0 - 0" "Suc 0 \<noteq> 0" "Suc 0 - 0 = Suc 0"
    using assms by simp_all
  then show ?thesis
    unfolding unpack_loop.simps [of val "Suc 0" buf it offset] Let_def by (simp only: if_False) blast
qed

lemma unpack_loop_1:
  fixes val :: u32
  assumes "unpack_loop val (Suc 0) buf it offset = Inr (True, v, it', offset')"
  shows "it < length buf" "offset < 7 \<and> it' = it \<and> offset' = offset + 1 \<or> 7 \<le> offset \<and> it' = it + 1"
proof -
  have past: "unpack_loop w (Suc 0) buf i off \<noteq> Inr (True, v, it', offset')" if "length buf \<le> i" for w :: u32 and i off
    using that by (simp add: unpack_loop.simps [of w "Suc 0"])
  show it: "it < length buf"
    using assms past by (metis not_le)
  consider "offset < 7" | "offset = 7" | "8 \<le> offset" by linarith
  then show "offset < 7 \<and> it' = it \<and> offset' = offset + 1 \<or> 7 \<le> offset \<and> it' = it + 1"
  proof cases
    case 1
    with unpack_loop_step(1) [of offset it buf "Suc 0" val] assms it show ?thesis by simp
  next
    case 2
    with unpack_loop_step(2) [of offset it buf "Suc 0" val] assms it show ?thesis by simp
  next
    case 3
    from unpack_loop_far [OF 3 it] assms obtain val' where
      u: "unpack_loop val' (Suc 0) buf (it + 1) 0 = Inr (True, v, it', offset')" by metis
    with past have "it + 1 < length buf" by (metis not_le)
    with unpack_loop_step(1) [of 0 "it + 1" buf "Suc 0" val'] u 3 show ?thesis by simp
  qed
qed

lemma unpack_1_decreases:
  assumes "unpack (Suc 0) d = Inr (True, b :: u32, d')"
  shows "dec_left d' < dec_left d"
proof -
  obtain it offset where "unpack_loop 0 (Suc 0) (dec_buf d) (dec_it d) (dec_offset d) = Inr (True, b, it, offset)"
      "d' = d\<lparr>dec_it := it, dec_offset := offset\<rparr>"
    using assms by (auto simp: unpack_def split: if_splits sum.splits)
  with unpack_loop_1 [OF this(1)] show ?thesis by (auto simp: dec_left_def)
qed

section \<open>Fields one after another\<close>

fun pack_fields :: "(u64 \<times> nat) list \<Rightarrow> bit_encoder \<Rightarrow> bit_encoder res" where
  "pack_fields [] e = Inr e"
| "pack_fields ((v, n) # fs) e = (case pack v n e of Inl f \<Rightarrow> Inl f | Inr e' \<Rightarrow> pack_fields fs e')"

text \<open>Reads the fields until one is not complete.\<close>

fun unpack_fields :: "nat list \<Rightarrow> bit_decoder \<Rightarrow> (u64 list \<times> bit_decoder) res" where
  "unpack_fields [] d = Inr ([], d)"
| "unpack_fields (n # ns) d =
    (case unpack n d of
       Inl f \<Rightarrow> Inl f
     | Inr (ok, v, d') \<Rightarrow>
        if ok then (case unpack_fields ns d' of Inl f \<Rightarrow> Inl f | Inr (vs, d'') \<Rightarrow> Inr (v # vs, d''))
        else Inr ([], d'))"

abbreviation field_bits :: "(u64 \<times> nat) list \<Rightarrow> bool list" where
  "field_bits fs \<equiv> concat (map (\<lambda>(v, n). val_bits n v) fs)"

lemma pack_fields_bits:
  assumes "encoder_ok e" "list_all (\<lambda>(v, n). n < 64) fs"
  shows "\<exists>e'. pack_fields fs e = Inr e' \<and> encoder_ok e' \<and> encoder_bits e' = encoder_bits e @ field_bits fs"
  using assms
proof (induction fs arbitrary: e)
  case (Cons x fs)
  obtain v n where x: "x = (v, n)" by (cases x)
  with Cons.prems have "n < 64" by simp
  then obtain e1 where e1: "pack v n e = Inr e1" "encoder_ok e1" "encoder_bits e1 = encoder_bits e @ val_bits n v"
    using pack_bits [OF Cons.prems(1)] by blast
  from Cons.IH [OF e1(2)] Cons.prems(2) e1(1,3) x show ?case by simp
qed simp

lemma unpack_fields_bits:
  assumes "decoder_ok d" "decoder_bits d = field_bits fs @ pad" "list_all (\<lambda>(v, n). n \<le> 32) fs"
  shows "\<exists>d'. unpack_fields (map snd fs) d = Inr (map (\<lambda>(v, n). take_bit n v) fs, d') \<and> decoder_ok d' \<and>
    decoder_bits d' = pad \<and> dec_buf d' = dec_buf d"
  using assms
proof (induction fs arbitrary: d)
  case (Cons x fs)
  obtain v n where x: "x = (v, n)" by (cases x)
  with Cons.prems have n: "n \<le> 32" "n \<le> length (decoder_bits d)" "n \<le> LENGTH(64)"
      "take n (decoder_bits d) = val_bits n v" "drop n (decoder_bits d) = field_bits fs @ pad"
    by simp_all
  obtain d1 where d1: "unpack n d = Inr (True, bits_val (val_bits n v) :: u64, d1)"
      "decoder_ok d1" "decoder_bits d1 = field_bits fs @ pad" "dec_buf d1 = dec_buf d"
    using unpack_bits [OF Cons.prems(1) n(2,1,3)] n(4,5) by metis
  from Cons.IH [OF d1(2,3)] Cons.prems(3) obtain d2 where
    "unpack_fields (map snd fs) d1 = Inr (map (\<lambda>(v, n). take_bit n v) fs, d2)" "decoder_ok d2"
    "decoder_bits d2 = pad" "dec_buf d2 = dec_buf d1"
    by auto
  with x d1(1,4) show ?case by (simp add: bits_val_val_bits)
qed simp

text \<open>The buffer holds the bits packed, filled up to whole bytes.\<close>

lemma enc_bits_padded:
  assumes "enc_ok buf offset"
  obtains pad where "bytes_bits buf = enc_bits buf offset @ pad" "length pad < 8"
proof (cases "offset = 0")
  case True
  then show ?thesis using that [of "[]"] by (simp add: enc_bits_def)
next
  case False
  with assms have "buf = butlast buf @ [last buf]" by (simp add: enc_ok_def)
  then have "bytes_bits buf = bytes_bits (butlast buf) @ val_bits 8 (last buf)"
    by (metis append_Nil2 bytes_bits_simps(1,2,3))
  with False that [of "drop offset (val_bits 8 (last buf))"] show ?thesis
    by (simp add: enc_bits_def)
qed

lemma enc_nof_bits_eq: "encoder_ok e \<Longrightarrow> enc_nof_bits e = length (encoder_bits e)"
  by (auto simp: enc_nof_bits_def enc_ok_def enc_bits_def)

section \<open>Properties\<close>

text \<open>C19: Fields of up to 32 bits packed one after another, at any bit offset, are unpacked with the values
  that were packed, cut to their widths, and exactly the bits of the fields are written.\<close>

theorem bit_fields_roundtrip:
  assumes "list_all (\<lambda>(v, n). n \<le> 32) fs"
  shows "\<exists>e d. pack_fields fs (bit_encoder_init []) = Inr e \<and> enc_nof_bits e = sum_list (map snd fs) \<and>
    unpack_fields (map snd fs) (bit_decoder_init (enc_buf e)) = Inr (map (\<lambda>(v, n). take_bit n v) fs, d)"
proof -
  have "list_all (\<lambda>(v, n). n < 64) fs"
    using assms by (auto simp: list_all_iff)
  from pack_fields_bits [OF encoder_init(1) [of "[]"] this] obtain e where e:
    "pack_fields fs (bit_encoder_init []) = Inr e" "encoder_ok e" "encoder_bits e = field_bits fs"
    by auto
  obtain pad where pad: "decoder_bits (bit_decoder_init (enc_buf e)) = field_bits fs @ pad"
    using enc_bits_padded [OF e(2)] e(3) by auto
  have "length (field_bits fs) = sum_list (map snd fs)"
    by (induction fs) auto
  with e unpack_fields_bits [OF decoder_init(1) pad assms] show ?thesis
    by (auto simp: enc_nof_bits_eq)
qed

theorem bit_fields_roundtrip_witness:
  "\<exists>e d. pack_fields [(0b1011, 4), (0b01100, 5), (0xdeadbeef, 32)] (bit_encoder_init []) = Inr e \<and>
    enc_nof_bits e = 41 \<and>
    unpack_fields [4, 5, 32] (bit_decoder_init (enc_buf e)) = Inr ([0b1011, 0b01100, 0xdeadbeef], d)"
  using bit_fields_roundtrip [of "[(0b1011, 4), (0b01100, 5), (0xdeadbeef, 32)]"] by simp

text \<open>
  Beyond 32 bits the value is lost: a byte is shifted as a 32-bit value before it is added to the result.
\<close>

lemma unpack_36_bits_loses_the_top:
  "unpack 36 (bit_decoder_init [0xff, 0, 0, 0, 0]) =
    Inr (True, 0xf0000000 :: u64, \<lparr>dec_buf = [0xff, 0, 0, 0, 0], dec_it = 4, dec_offset = 4\<rparr>)"
  by (simp add: unpack_def bit_decoder_init_def unpack_loop.simps Let_def)

lemma unpack_48_bits_undefined: "unpack 48 (bit_decoder_init (b # bs)) = (Inl Undefined_shift :: (bool \<times> u64 \<times> bit_decoder) res)"
  by (simp add: unpack_def bit_decoder_init_def unpack_loop.simps Let_def)

text \<open>An aligned read of some bytes that are not the whole buffer runs past the span.\<close>

lemma unpack_bytes_overruns:
  assumes "0 < n" "n < length buf"
  shows "unpack_bytes n (bit_decoder_init buf) = Inl Invalid_access"
  using assms by (simp add: unpack_bytes_def bit_decoder_init_def)

end
