(* ===== verification/Ordered_Map.thy ===== *)
theory Ordered_Map
  imports Main
begin

text \<open>
  \<open>std::map\<close> as the entities use it: an association list in increasing order of the keys, so that
  iterating over the map is going through the list.  \<open>om_update\<close> is assignment through
  \<open>operator[]\<close>, \<open>om_emplace\<close> keeps an existing entry, \<open>om_erase\<close> removes one.  The locale
  \<open>finite_map\<close> states the laws of lookup; it is interpreted on these operations.
\<close>

type_synonym ('k, 'v) omap = "('k \<times> 'v) list"

definition om_wf :: "('k::linorder, 'v) omap \<Rightarrow> bool" where
  "om_wf m \<longleftrightarrow> sorted_wrt (<) (map fst m)"

definition om_lookup :: "('k, 'v) omap \<Rightarrow> 'k \<Rightarrow> 'v option" where
  "om_lookup m k = map_of m k"

fun om_update :: "'k::linorder \<Rightarrow> 'v \<Rightarrow> ('k, 'v) omap \<Rightarrow> ('k, 'v) omap" where
  "om_update k v [] = [(k, v)]"
| "om_update k v ((k', v') # m) =
    (if k < k' then (k, v) # (k', v') # m
     else if k = k' then (k, v) # m
     else (k', v') # om_update k v m)"

definition om_emplace :: "'k::linorder \<Rightarrow> 'v \<Rightarrow> ('k, 'v) omap \<Rightarrow> ('k, 'v) omap" where
  "om_emplace k v m = (case om_lookup m k of None \<Rightarrow> om_update k v m | Some _ \<Rightarrow> m)"

definition om_erase :: "'k \<Rightarrow> ('k, 'v) omap \<Rightarrow> ('k, 'v) omap" where
  "om_erase k m = filter (\<lambda>(k', _). k' \<noteq> k) m"

lemma om_wf_Nil [simp]: "om_wf []"
  by (simp add: om_wf_def)

lemma om_wf_single [simp]: "om_wf [x]"
  by (simp add: om_wf_def)

lemma om_wf_Cons: "om_wf (x # m) \<longleftrightarrow> (\<forall>y \<in> set m. fst x < fst y) \<and> om_wf m"
  by (auto simp: om_wf_def)

lemma om_update_keys: "fst ` set (om_update k v m) = insert k (fst ` set m)"
  by (induction k v m rule: om_update.induct) auto

lemma om_update_set: "set (om_update k v m) \<subseteq> insert (k, v) (set m)"
  by (induction k v m rule: om_update.induct) auto

lemma om_wf_update: "om_wf m \<Longrightarrow> om_wf (om_update k v m)"
proof (induction k v m rule: om_update.induct)
  case (2 k v k' v' m)
  have keys: "fst y = k \<or> fst y \<in> fst ` set m" if "y \<in> set (om_update k v m)" for y
    using that om_update_keys [of k v m] by (metis image_eqI insertE)
  consider "k < k'" | "k = k'" | "k' < k" by fastforce
  then show ?case
  proof cases
    case 1
    with "2.prems" show ?thesis by (auto simp: om_wf_Cons)
  next
    case 2
    with "2.prems" show ?thesis by (simp add: om_wf_Cons)
  next
    case 3
    have "\<forall>y \<in> set (om_update k v m). k' < fst y"
      using 3 keys "2.prems" by (force simp: om_wf_Cons)
    moreover from 3 have "\<not> k < k'" "k \<noteq> k'" by auto
    ultimately show ?thesis using "2.IH" "2.prems" by (simp add: om_wf_Cons)
  qed
qed simp

lemma om_lookup_update:
  "om_lookup (om_update k v m) k' = (if k' = k then Some v else om_lookup m k')"
  by (induction k v m rule: om_update.induct) (auto simp: om_lookup_def)

lemma om_wf_filter: "om_wf m \<Longrightarrow> om_wf (filter P m)"
  by (induction m) (auto simp: om_wf_Cons)

lemma om_wf_erase: "om_wf m \<Longrightarrow> om_wf (om_erase k m)"
  by (simp add: om_erase_def om_wf_filter)

lemma om_lookup_erase: "om_lookup (om_erase k m) k' = (if k' = k then None else om_lookup m k')"
  by (induction m) (auto simp: om_lookup_def om_erase_def)

lemma om_lookup_Nil [simp]: "om_lookup [] k = None"
  by (simp add: om_lookup_def)

lemma om_lookup_Cons [simp]: "om_lookup ((k', v) # m) k = (if k = k' then Some v else om_lookup m k)"
  by (simp add: om_lookup_def)

lemma om_lookup_None: "om_lookup m k = None \<longleftrightarrow> k \<notin> fst ` set m"
  by (simp add: om_lookup_def map_of_eq_None_iff)

lemma om_lookup_in: "om_lookup m k = Some v \<Longrightarrow> (k, v) \<in> set m"
  by (simp add: om_lookup_def map_of_SomeD)

lemma om_emplace_new: "om_lookup m k = None \<Longrightarrow> om_emplace k v m = om_update k v m"
  by (simp add: om_emplace_def)

lemma om_emplace_old: "om_lookup m k = Some w \<Longrightarrow> om_emplace k v m = m"
  by (simp add: om_emplace_def)

lemma om_wf_emplace: "om_wf m \<Longrightarrow> om_wf (om_emplace k v m)"
  by (simp add: om_emplace_def om_wf_update split: option.split)

lemma om_lookup_emplace:
  "om_lookup (om_emplace k v m) k' =
    (if k' = k \<and> om_lookup m k = None then Some v else om_lookup m k')"
  by (auto simp: om_emplace_def om_lookup_update split: option.split)

text \<open>Where a new entry goes: before it the smaller keys, after it the larger ones.\<close>

lemma om_update_split:
  "om_wf m \<Longrightarrow> k \<notin> fst ` set m \<Longrightarrow>
    om_update k v m = filter (\<lambda>(k', _). k' < k) m @ (k, v) # filter (\<lambda>(k', _). k < k') m"
proof (induction k v m rule: om_update.induct)
  case (2 k v k' v' m)
  show ?case
  proof (cases "k < k'")
    case True
    with "2.prems" have "\<forall>y \<in> set m. k < fst y" by (auto simp: om_wf_Cons)
    then have "filter (\<lambda>(k', _). k' < k) m = []" "filter (\<lambda>(k', _). k < k') m = m"
      by (auto simp: filter_empty_conv filter_id_conv)
    with True show ?thesis by auto
  next
    case False
    with "2.prems"(2) have "k \<noteq> k'" "\<not> k < k'" by auto
    with "2.IH" "2.prems" show ?thesis by (auto simp: om_wf_Cons)
  qed
qed simp

section \<open>Laws\<close>

locale finite_map =
  fixes empty :: 'm and wf :: "'m \<Rightarrow> bool" and look :: "'m \<Rightarrow> 'k \<Rightarrow> 'v option"
    and upd :: "'k \<Rightarrow> 'v \<Rightarrow> 'm \<Rightarrow> 'm" and del :: "'k \<Rightarrow> 'm \<Rightarrow> 'm"
  assumes empty_law: "wf empty" "look empty k = None"
    and upd_law: "wf m \<Longrightarrow> wf (upd k v m)" "wf m \<Longrightarrow> look (upd k v m) k' = (if k' = k then Some v else look m k')"
    and del_law: "wf m \<Longrightarrow> wf (del k m)" "wf m \<Longrightarrow> look (del k m) k' = (if k' = k then None else look m k')"
begin

lemma upd_same: "wf m \<Longrightarrow> look (upd k v m) k = Some v"
  by (simp add: upd_law)

lemma del_upd: "wf m \<Longrightarrow> look m k = None \<Longrightarrow> look (del k (upd k v m)) = look m"
  by (auto simp: upd_law del_law)

lemma upd_upd: "wf m \<Longrightarrow> look (upd k v (upd k w m)) = look (upd k v m)"
  by (auto simp: upd_law)

end

interpretation om: finite_map "[]" om_wf om_lookup om_update om_erase
  by unfold_locales
    (simp_all add: om_wf_update om_wf_erase om_lookup_update om_lookup_erase)

end
