(* ===== verification/Pdcp_Tx.thy ===== *)
theory Pdcp_Tx
  imports Pdcp_Config Bit_Encoding Ordered_Map
begin

text \<open>
  The transmitting PDCP entity (\<open>pdcp_entity_tx.h\<close>, \<open>.cpp\<close>).  An SDU gets the next COUNT, a header, a message
  authentication code and ciphering, and goes to the lower layer; a discard timer may be started for it.  The
  map of discard timers is an ordered map from COUNT to the entry; an entry stands for a running timer, and
  expiry of the timer of a COUNT is the operation \<open>discard_timer_expired\<close>.  Calls to the neighbours are lists of
  events.  The status report of the own receiver is an argument of the functions that send one.
\<close>

section \<open>State\<close>

record discard_info =
  di_count :: u32
  di_sdu :: bytes

record pdcp_tx_pdu =
  tx_pdu_buf :: bytes
  tx_pdu_pdcp_sn :: "u32 option"

datatype pdcp_tx_event =
    Tx_new_pdu pdcp_tx_pdu
  | Tx_discard_pdu u32
  | Tx_protocol_failure
  | Tx_max_count_reached

record pdcp_entity_tx =
  tx_next :: u32
  tx_sec_cfg :: sec_128_as_config
  tx_integrity_on :: bool
  tx_ciphering_on :: bool
  tx_max_count_notified :: bool
  tx_max_count_overflow :: bool
  discard_timers_map :: "(u32, discard_info) omap"

definition sec_cfg_default :: sec_128_as_config where
  "sec_cfg_default =
    \<lparr>sec_domain_128 = Rrc_domain, k_128_int = replicate 16 0, k_128_enc = replicate 16 0,
     integ_algo_128 = Nia0, cipher_algo_128 = Nea0\<rparr>"

text \<open>A configuration the constructor refuses ends the program.\<close>

definition pdcp_entity_tx_init :: "pdcp_tx_config \<Rightarrow> pdcp_entity_tx res" where
  "pdcp_entity_tx_init cfg =
    (if pc_rb_type cfg = Srb \<and> pc_sn_size cfg \<noteq> Sn_size12bits then Inl Assertion_failed
     else if pc_rb_type cfg = Srb \<and> pc_rlc_mode cfg = Pdcp_um then Inl Assertion_failed
     else Inr \<lparr>tx_next = 0, tx_sec_cfg = sec_cfg_default, tx_integrity_on = False, tx_ciphering_on = False,
       tx_max_count_notified = False, tx_max_count_overflow = False, discard_timers_map = []\<rparr>)"

section \<open>Protection\<close>

definition integrity_generate ::
  "'ctx crypto_lib \<Rightarrow> sec_128_as_config \<Rightarrow> u8 \<Rightarrow> security_direction \<Rightarrow> bytes \<Rightarrow> u32 \<Rightarrow> bytes res" where
  "integrity_generate lib sec bearer dir buf count =
    (case integ_algo_128 sec of
       Nia0 \<Rightarrow> Inr sec_mac_zero
     | Nia1 \<Rightarrow> security_nia1 sec_mac_zero (k_128_int sec) count bearer dir buf
     | Nia2 \<Rightarrow> security_nia2 lib sec_mac_zero (k_128_int sec) count bearer dir buf
     | Nia3 \<Rightarrow> security_nia3 sec_mac_zero (k_128_int sec) count bearer dir buf)"

definition cipher_encrypt ::
  "'ctx crypto_lib \<Rightarrow> sec_128_as_config \<Rightarrow> u8 \<Rightarrow> security_direction \<Rightarrow> bytes \<Rightarrow> u32 \<Rightarrow> bytes res" where
  "cipher_encrypt lib sec bearer dir msg count =
    (case cipher_algo_128 sec of
       Nea0 \<Rightarrow> Inr msg
     | Nea1 \<Rightarrow> security_nea1 (k_128_enc sec) count bearer dir msg
     | Nea2 \<Rightarrow> security_nea2 lib (k_128_enc sec) count bearer dir msg
     | Nea3 \<Rightarrow> security_nea3 (k_128_enc sec) count bearer dir msg)"

definition apply_ciphering_and_integrity_protection ::
  "'ctx crypto_lib \<Rightarrow> u8 \<Rightarrow> pdcp_tx_config \<Rightarrow> bytes \<Rightarrow> bytes \<Rightarrow> u32 \<Rightarrow> pdcp_entity_tx \<Rightarrow> bytes res" where
  "apply_ciphering_and_integrity_protection lib bearer cfg hdr sdu count e =
    (case (if tx_integrity_on e then integrity_generate lib (tx_sec_cfg e) bearer (pc_direction cfg) (hdr @ sdu) count
           else Inr sec_mac_zero) of
       Inl f \<Rightarrow> Inl f
     | Inr mac \<Rightarrow>
        let buf = sdu @ (if pc_rb_type cfg = Srb \<or> pc_rb_type cfg = Drb \<and> tx_integrity_on e then mac else []) in
        (case (if tx_ciphering_on e then cipher_encrypt lib (tx_sec_cfg e) bearer (pc_direction cfg) buf count
               else Inr buf) of
           Inl f \<Rightarrow> Inl f
         | Inr ct \<Rightarrow> Inr (hdr @ ct)))"

section \<open>Sending\<close>

definition write_data_pdu_to_lower_layers :: "pdcp_tx_config \<Rightarrow> u32 \<Rightarrow> bytes \<Rightarrow> pdcp_tx_event" where
  "write_data_pdu_to_lower_layers cfg count buf =
    Tx_new_pdu \<lparr>tx_pdu_buf = buf,
      tx_pdu_pdcp_sn = (if pc_rb_type cfg = Drb then Some (pdcp_compute_sn count (pc_sn_size cfg)) else None)\<rparr>"

definition write_control_pdu_to_lower_layers :: "bytes \<Rightarrow> pdcp_tx_event" where
  "write_control_pdu_to_lower_layers buf = Tx_new_pdu \<lparr>tx_pdu_buf = buf, tx_pdu_pdcp_sn = None\<rparr>"

text \<open>Header, protection and hand-over of one SDU.\<close>

definition build_data_pdu ::
  "'ctx crypto_lib \<Rightarrow> u8 \<Rightarrow> pdcp_tx_config \<Rightarrow> bytes \<Rightarrow> u32 \<Rightarrow> pdcp_entity_tx \<Rightarrow> bytes res" where
  "build_data_pdu lib bearer cfg sdu count e =
    (case write_data_pdu_header (pc_rb_type cfg) (pc_sn_size cfg) (pdcp_compute_sn count (pc_sn_size cfg)) of
       Inl f \<Rightarrow> Inl f
     | Inr hdr \<Rightarrow> apply_ciphering_and_integrity_protection lib bearer cfg hdr sdu count e)"

definition discard_timer_configured :: "pdcp_tx_config \<Rightarrow> bool" where
  "discard_timer_configured cfg \<longleftrightarrow> pc_discard_timer cfg \<noteq> -1 \<and> pc_discard_timer cfg \<noteq> 0"

definition start_discard_timer :: "pdcp_tx_config \<Rightarrow> bytes \<Rightarrow> pdcp_entity_tx \<Rightarrow> pdcp_entity_tx" where
  "start_discard_timer cfg sdu e =
    (if discard_timer_configured cfg
     then e\<lparr>discard_timers_map := om_emplace (tx_next e)
            \<lparr>di_count = tx_next e, di_sdu = (if pc_rlc_mode cfg = Pdcp_um then [] else sdu)\<rparr>
            (discard_timers_map e)\<rparr>
     else e)"

definition pdcp_tx_handle_sdu ::
  "'ctx crypto_lib \<Rightarrow> u8 \<Rightarrow> pdcp_tx_config \<Rightarrow> bytes \<Rightarrow> pdcp_entity_tx \<Rightarrow> (pdcp_tx_event list \<times> pdcp_entity_tx) res" where
  "pdcp_tx_handle_sdu lib bearer cfg sdu e =
    (if mc_hard (pc_tx_max_count cfg) \<le> tx_next e then
       (if \<not> tx_max_count_overflow e then Inr ([Tx_protocol_failure], e\<lparr>tx_max_count_overflow := True\<rparr>)
        else Inr ([], e))
     else
       let notify = mc_notify (pc_tx_max_count cfg) \<le> tx_next e \<and> \<not> tx_max_count_notified e;
           e = (if notify then e\<lparr>tx_max_count_notified := True\<rparr> else e)
       in case build_data_pdu lib bearer cfg sdu (tx_next e) e of
            Inl f \<Rightarrow> Inl f
          | Inr protected_buf \<Rightarrow>
             let e' = start_discard_timer cfg sdu e in
             Inr ((if notify then [Tx_max_count_reached] else []) @
                    [write_data_pdu_to_lower_layers cfg (tx_next e') protected_buf],
                  e'\<lparr>tx_next := tx_next e' + 1\<rparr>))"

section \<open>Retransmission, security and re-establishment\<close>

fun retransmit_loop ::
  "'ctx crypto_lib \<Rightarrow> u8 \<Rightarrow> pdcp_tx_config \<Rightarrow> pdcp_entity_tx \<Rightarrow> (u32, discard_info) omap \<Rightarrow> pdcp_tx_event list res" where
  "retransmit_loop lib bearer cfg e [] = Inr []"
| "retransmit_loop lib bearer cfg e ((k, info) # m) =
    (case build_data_pdu lib bearer cfg (di_sdu info) (di_count info) e of
       Inl f \<Rightarrow> Inl f
     | Inr buf \<Rightarrow>
        (case retransmit_loop lib bearer cfg e m of
           Inl f \<Rightarrow> Inl f
         | Inr evs \<Rightarrow> Inr (write_data_pdu_to_lower_layers cfg k buf # evs)))"

definition retransmit_all_pdus ::
  "'ctx crypto_lib \<Rightarrow> u8 \<Rightarrow> pdcp_tx_config \<Rightarrow> pdcp_entity_tx \<Rightarrow> pdcp_tx_event list res" where
  "retransmit_all_pdus lib bearer cfg e = retransmit_loop lib bearer cfg e (discard_timers_map e)"

definition discard_all_pdus :: "pdcp_entity_tx \<Rightarrow> pdcp_entity_tx" where
  "discard_all_pdus e = e\<lparr>discard_timers_map := []\<rparr>"

definition sec_domain_ok :: "pdcp_rb_type \<Rightarrow> sec_128_as_config \<Rightarrow> bool" where
  "sec_domain_ok rb sec \<longleftrightarrow>
    rb = Srb \<and> sec_domain_128 sec = Rrc_domain \<or> rb = Drb \<and> sec_domain_128 sec = Up_domain"

definition tx_enable_security :: "pdcp_tx_config \<Rightarrow> sec_128_as_config \<Rightarrow> pdcp_entity_tx \<Rightarrow> pdcp_entity_tx res" where
  "tx_enable_security cfg sec e =
    (if sec_domain_ok (pc_rb_type cfg) sec
     then Inr (e\<lparr>tx_integrity_on := True, tx_ciphering_on := True, tx_sec_cfg := sec\<rparr>)
     else Inl Assertion_failed)"

definition tx_reestablish ::
  "'ctx crypto_lib \<Rightarrow> u8 \<Rightarrow> pdcp_tx_config \<Rightarrow> sec_128_as_config \<Rightarrow> pdcp_entity_tx \<Rightarrow>
    (pdcp_tx_event list \<times> pdcp_entity_tx) res" where
  "tx_reestablish lib bearer cfg sec e =
    (let e = (if pc_rb_type cfg = Srb \<or> pc_rlc_mode cfg = Pdcp_um then discard_all_pdus (e\<lparr>tx_next := 0\<rparr>) else e) in
     case tx_enable_security cfg sec e of
       Inl f \<Rightarrow> Inl f
     | Inr e' \<Rightarrow>
        if pc_rlc_mode cfg = Pdcp_am
        then map_sum id (\<lambda>evs. (evs, e')) (retransmit_all_pdus lib bearer cfg e')
        else Inr ([], e'))"

definition send_status_report :: "pdcp_tx_config \<Rightarrow> bytes \<Rightarrow> pdcp_tx_event list" where
  "send_status_report cfg status_report =
    (if pc_status_report_required cfg then [write_control_pdu_to_lower_layers status_report] else [])"

definition data_recovery ::
  "'ctx crypto_lib \<Rightarrow> u8 \<Rightarrow> pdcp_tx_config \<Rightarrow> bytes \<Rightarrow> pdcp_entity_tx \<Rightarrow> pdcp_tx_event list res" where
  "data_recovery lib bearer cfg status_report e =
    (if \<not> (pc_rb_type cfg = Drb \<and> pc_rlc_mode cfg = Pdcp_am) then Inl Assertion_failed
     else map_sum id (\<lambda>evs. (if pc_status_report_required cfg then send_status_report cfg status_report else []) @ evs)
       (retransmit_all_pdus lib bearer cfg e))"

section \<open>Discard timers\<close>

definition discard_timer_expired :: "pdcp_tx_config \<Rightarrow> u32 \<Rightarrow> pdcp_entity_tx \<Rightarrow> pdcp_tx_event list \<times> pdcp_entity_tx" where
  "discard_timer_expired cfg discard_count e =
    ([Tx_discard_pdu (pdcp_compute_sn discard_count (pc_sn_size cfg))],
     e\<lparr>discard_timers_map := om_erase discard_count (discard_timers_map e)\<rparr>)"

text \<open>The loop over the COUNTs up to the highest one; it has no value where it never ends.\<close>

partial_function (option) stop_timers_loop ::
  "u32 \<Rightarrow> u32 \<Rightarrow> (u32, discard_info) omap \<Rightarrow> (u32, discard_info) omap option" where
  "stop_timers_loop count highest_count m =
    (if count \<le> highest_count then stop_timers_loop (count + 1) highest_count (om_erase count m) else Some m)"

declare stop_timers_loop.simps [code]

definition stop_discard_timer :: "pdcp_tx_config \<Rightarrow> u32 \<Rightarrow> pdcp_entity_tx \<Rightarrow> pdcp_entity_tx option" where
  "stop_discard_timer cfg highest_sn e =
    (if \<not> discard_timer_configured cfg then Some e
     else
       (case discard_timers_map e of
          [] \<Rightarrow> Some e
        | (tx_next_deliv, _) # _ \<Rightarrow>
           map_option (\<lambda>m. e\<lparr>discard_timers_map := m\<rparr>)
             (stop_timers_loop tx_next_deliv (infer_count (pc_sn_size cfg) tx_next_deliv highest_sn)
               (discard_timers_map e))))"

definition handle_transmit_notification :: "pdcp_tx_config \<Rightarrow> u32 \<Rightarrow> pdcp_entity_tx \<Rightarrow> pdcp_entity_tx option" where
  "handle_transmit_notification cfg highest_sn e =
    (if pdcp_sn_cardinality (pc_sn_size cfg) \<le> highest_sn then Some e
     else if pc_rlc_mode cfg = Pdcp_um then stop_discard_timer cfg highest_sn e
     else Some e)"

definition handle_delivery_notification :: "pdcp_tx_config \<Rightarrow> u32 \<Rightarrow> pdcp_entity_tx \<Rightarrow> pdcp_entity_tx option" where
  "handle_delivery_notification cfg highest_sn e =
    (if pdcp_sn_cardinality (pc_sn_size cfg) \<le> highest_sn then Some e
     else if pc_rlc_mode cfg = Pdcp_am then stop_discard_timer cfg highest_sn e
     else Some e)"

section \<open>Status reports\<close>

text \<open>SDUs below the first missing COUNT (FMC) are discarded from the map, in ascending order.\<close>

definition discard_below_fmc ::
  "pdcp_tx_config \<Rightarrow> u32 \<Rightarrow> (u32, discard_info) omap \<Rightarrow> pdcp_tx_event list \<times> (u32, discard_info) omap" where
  "discard_below_fmc cfg fmc m =
    (map (\<lambda>(k, _). Tx_discard_pdu (pdcp_compute_sn k (pc_sn_size cfg))) (filter (\<lambda>(k, _). k < fmc) m),
     filter (\<lambda>(k, _). \<not> k < fmc) m)"

function status_bitmap_loop ::
  "pdcp_tx_config \<Rightarrow> bit_decoder \<Rightarrow> u32 \<Rightarrow> (u32, discard_info) omap \<Rightarrow> (pdcp_tx_event list \<times> (u32, discard_info) omap) res" where
  "status_bitmap_loop cfg d fmc m =
    (case unpack 1 d :: (bool \<times> u32 \<times> bit_decoder) res of
       Inl f \<Rightarrow> Inl f
     | Inr (ok, b, d') \<Rightarrow>
        if \<not> ok then Inr ([], m)
        else
          let fmc' = fmc + 1 in
          if b = 1 then
            map_sum id (\<lambda>(evs, m'). (Tx_discard_pdu (pdcp_compute_sn fmc' (pc_sn_size cfg)) # evs, m'))
              (status_bitmap_loop cfg d' fmc' (om_erase fmc' m))
          else status_bitmap_loop cfg d' fmc' m)"
  by pat_completeness auto
termination
  by (relation "measure (\<lambda>(c, d, f, m). dec_left d)") (auto dest: unpack_1_decreases)

declare status_bitmap_loop.simps [simp del]

text \<open>The fields of the report; the outcomes of the reads are not checked.\<close>

definition handle_status_report ::
  "pdcp_tx_config \<Rightarrow> bytes \<Rightarrow> pdcp_entity_tx \<Rightarrow> (pdcp_tx_event list \<times> pdcp_entity_tx) res" where
  "handle_status_report cfg status e =
    (case unpack 1 (bit_decoder_init status) of
       Inl f \<Rightarrow> Inl f
     | Inr (_, dc :: u32, d) \<Rightarrow>
        if dc \<noteq> 0 then Inr ([], e)
        else
          (case unpack 3 d of
             Inl f \<Rightarrow> Inl f
           | Inr (_, cpt :: u32, d) \<Rightarrow>
              if cpt \<noteq> 0 then Inr ([], e)
              else
                (case unpack 4 d of
                   Inl f \<Rightarrow> Inl f
                 | Inr (_, reserved :: u32, d) \<Rightarrow>
                    if reserved \<noteq> 0 then Inr ([], e)
                    else
                      (case unpack 32 d of
                         Inl f \<Rightarrow> Inl f
                       | Inr (_, fmc :: u32, d) \<Rightarrow>
                          (case discard_below_fmc cfg fmc (discard_timers_map e) of
                             (evs, m) \<Rightarrow>
                              map_sum id (\<lambda>(evs', m'). (evs @ evs', e\<lparr>discard_timers_map := m'\<rparr>))
                                (status_bitmap_loop cfg d fmc m))))))"

section \<open>What a PDU depends on\<close>

lemma build_data_pdu_same_sec:
  assumes "tx_sec_cfg e' = tx_sec_cfg e" "tx_integrity_on e' = tx_integrity_on e" "tx_ciphering_on e' = tx_ciphering_on e"
  shows "build_data_pdu lib bearer cfg sdu count e' = build_data_pdu lib bearer cfg sdu count e"
  unfolding build_data_pdu_def apply_ciphering_and_integrity_protection_def assms ..

section \<open>Stopping timers\<close>

lemma stop_timers_loop_done:
  "highest \<noteq> - 1 \<Longrightarrow> stop_timers_loop count highest m = Some (filter (\<lambda>(k, _). \<not> (count \<le> k \<and> k \<le> highest)) m)"
proof (induction "unat highest + 1 - unat count" arbitrary: count m)
  case 0
  then have gt: "\<not> count \<le> highest" by (simp add: word_le_nat_alt)
  then have "filter (\<lambda>(k, _). \<not> (count \<le> k \<and> k \<le> highest)) m = m"
    by (intro filter_True) (auto dest: order_trans)
  with gt show ?case by (subst stop_timers_loop.simps) simp
next
  case (Suc n)
  then have le: "count \<le> highest" by (simp add: word_le_nat_alt)
  have "count \<noteq> - 1" using le Suc.prems word_order.extremum_unique by blast
  then have u: "unat (count + 1) = unat count + 1"
    by (metis Suc_eq_plus1 add.commute unatSuc add_eq_0_iff)
  have "n = unat highest + 1 - unat (count + 1)" using Suc.hyps(2) u by simp
  from Suc.hyps(1) [OF this Suc.prems, of "om_erase count m"]
  have "stop_timers_loop count highest m =
      Some (filter (\<lambda>(k, _). \<not> (count + 1 \<le> k \<and> k \<le> highest)) (om_erase count m))"
    using le by (subst stop_timers_loop.simps) simp
  moreover have "k \<noteq> count \<and> (count + 1 \<le> k \<longrightarrow> \<not> k \<le> highest) \<longleftrightarrow> (count \<le> k \<longrightarrow> \<not> k \<le> highest)" for k
    using le u by (auto simp: word_le_nat_alt word_unat_eq_iff)
  ultimately show ?case
    by (simp add: om_erase_def case_prod_beta' cong: filter_cong)
qed

lemma stop_timers_loop_ends:
  assumes "stop_timers_loop count h m = Some m'"
  shows "h \<noteq> - 1"
proof (rule stop_timers_loop.raw_induct [of "\<lambda>count h m m'. h \<noteq> - 1", OF _ assms])
  fix loop and count h :: u32 and m m'
  assume ih: "\<And>count h m m'. loop count h m = Some m' \<Longrightarrow> h \<noteq> - 1"
    and eq: "(if count \<le> h then loop (count + 1) h (om_erase count m) else Some m) = Some m'"
  show "h \<noteq> - 1"
  proof
    assume "h = - 1"
    then have "count \<le> h" by simp
    with eq ih \<open>h = - 1\<close> show False by auto
  qed
qed

lemma stop_timers_loop_forever: "stop_timers_loop count (- 1) m = None"
  using stop_timers_loop_ends [of count "- 1" m] by (cases "stop_timers_loop count (- 1) m") auto

section \<open>Properties\<close>

text \<open>C18: When the lower layer notifies that the PDUs up to an SN were delivered, and this SN belongs to a COUNT in
  the window above the oldest SDU whose delivery is not confirmed, exactly the timers and stored SDUs with COUNTs up
  to that one are removed, although the notification carries only the SN.\<close>

theorem pdcp_delivery_stops_timers:
  assumes "pc_rlc_mode cfg = Pdcp_am" "discard_timer_configured cfg"
    "om_wf (discard_timers_map e)" "discard_timers_map e = (d, info) # m"
    "d \<le> c" "unat c < unat d + unat (pdcp_window_size (pc_sn_size cfg))" "c < - 1"
  shows "handle_delivery_notification cfg (pdcp_compute_sn c (pc_sn_size cfg)) e =
    Some (e\<lparr>discard_timers_map := filter (\<lambda>(k, _). c < k) (discard_timers_map e)\<rparr>)"
proof -
  let ?sn = "pdcp_compute_sn c (pc_sn_size cfg)"
  have card: "unat (pdcp_sn_cardinality sz) = sn_mod sz" for sz
    by (cases sz) (simp_all add: pdcp_sn_cardinality_def sn_mod_def pdcp_sn_size_to_uint_def)
  have sn: "\<not> pdcp_sn_cardinality (pc_sn_size cfg) \<le> ?sn"
    using compute_sn_less [of c "pc_sn_size cfg"] by (simp add: word_le_nat_alt card)
  have inf: "infer_count (pc_sn_size cfg) d ?sn = c"
    using assms(5,6) by (intro infer_count_window) (simp_all add: word_le_nat_alt)
  have ge: "d \<le> k" if "(k, v) \<in> set (discard_timers_map e)" for k v
    using that assms(3,4) by (auto simp: om_wf_Cons less_imp_le)
  have "c \<noteq> - 1" using assms(7) by auto
  from stop_timers_loop_done [OF this, of d "discard_timers_map e"]
  have "stop_timers_loop d c (discard_timers_map e) = Some (filter (\<lambda>(k, _). c < k) (discard_timers_map e))"
    using ge by (auto simp: not_le intro!: filter_cong dest: leD)
  with sn inf assms(1,2,4) show ?thesis
    by (simp add: handle_delivery_notification_def stop_discard_timer_def)
qed

theorem pdcp_delivery_stops_timers_witness:
  "handle_delivery_notification
     \<lparr>pc_rb_type = Drb, pc_rlc_mode = Pdcp_am, pc_sn_size = Sn_size12bits, pc_direction = Downlink,
      pc_discard_timer = 50, pc_status_report_required = False, pc_tx_max_count = pdcp_tx_default_max_count\<rparr>
     (pdcp_compute_sn 4097 Sn_size12bits)
     \<lparr>tx_next = 4099, tx_sec_cfg = sec_cfg_default, tx_integrity_on = False, tx_ciphering_on = False,
      tx_max_count_notified = False, tx_max_count_overflow = False,
      discard_timers_map = [(4094, \<lparr>di_count = 4094, di_sdu = [1]\<rparr>), (4097, \<lparr>di_count = 4097, di_sdu = [2]\<rparr>),
        (4098, \<lparr>di_count = 4098, di_sdu = [3]\<rparr>)]\<rparr> =
   Some \<lparr>tx_next = 4099, tx_sec_cfg = sec_cfg_default, tx_integrity_on = False, tx_ciphering_on = False,
      tx_max_count_notified = False, tx_max_count_overflow = False,
      discard_timers_map = [(4098, \<lparr>di_count = 4098, di_sdu = [3]\<rparr>)]\<rparr>"
  by (subst pdcp_delivery_stops_timers [of "\<lparr>pc_rb_type = Drb, pc_rlc_mode = Pdcp_am, pc_sn_size = Sn_size12bits,
      pc_direction = Downlink, pc_discard_timer = 50, pc_status_report_required = False,
      pc_tx_max_count = pdcp_tx_default_max_count\<rparr>" _ 4094 _ _ 4097, simplified])
    (simp_all add: discard_timer_configured_def om_wf_def pdcp_window_size_def)

text \<open>C31: A delivery notification for an SN a window or more above the oldest unconfirmed SDU, while the HFN is
  still zero, is taken for a COUNT before zero, which wraps around to the largest COUNTs: all timers and stored SDUs
  are removed, and for the largest SN the call never returns.\<close>

theorem pdcp_stale_notification_removes_all:
  assumes "pc_rlc_mode cfg = Pdcp_am" "discard_timer_configured cfg" "pc_sn_size cfg = Sn_size12bits"
    "om_wf (discard_timers_map e)" "discard_timers_map e = (d, info) # m"
    "list_all (\<lambda>(k, _). k < 0xfffff800) m" "unat d + 2048 \<le> unat sn" "unat sn < 4096"
  shows "handle_delivery_notification cfg sn e =
    (if sn = 4095 then None else Some (e\<lparr>discard_timers_map := []\<rparr>))"
proof -
  let ?c = "infer_count Sn_size12bits d sn"
  have w: "pdcp_W Sn_size12bits = 2048" by (simp add: pdcp_window_size_def)
  have c: "unat ?c = 0xfffff000 + unat sn"
    using assms(7,8) w by (intro infer_count_wraps) simp_all
  have sn: "\<not> pdcp_sn_cardinality Sn_size12bits \<le> sn"
    using assms(8) by (simp add: pdcp_sn_cardinality_def pdcp_sn_size_to_uint_def word_le_nat_alt)
  have "(- 1 :: u32) = 0xffffffff" by simp
  then have last: "?c = - 1 \<longleftrightarrow> sn = 4095" by (simp only: word_unat_eq_iff c) auto
  have le: "d \<le> k \<and> k \<le> ?c" if "(k, v) \<in> set (discard_timers_map e)" for k v
    using that assms(4-7) by (auto simp: om_wf_Cons list_all_iff word_less_nat_alt word_le_nat_alt c)
  have "stop_timers_loop d ?c (discard_timers_map e) = (if sn = 4095 then None else Some [])"
  proof (cases "sn = 4095")
    case True
    with last show ?thesis by (simp add: stop_timers_loop_forever)
  next
    case False
    with last have "?c \<noteq> - 1" by simp
    with stop_timers_loop_done [OF this] le False show ?thesis by (auto simp: filter_empty_conv)
  qed
  with sn assms(1,2,3,5) show ?thesis
    by (simp add: handle_delivery_notification_def stop_discard_timer_def)
qed

theorem pdcp_stale_notification_removes_all_witness:
  "handle_delivery_notification
     \<lparr>pc_rb_type = Drb, pc_rlc_mode = Pdcp_am, pc_sn_size = Sn_size12bits, pc_direction = Downlink,
      pc_discard_timer = 50, pc_status_report_required = False, pc_tx_max_count = pdcp_tx_default_max_count\<rparr> 4095
     \<lparr>tx_next = 1, tx_sec_cfg = sec_cfg_default, tx_integrity_on = False, tx_ciphering_on = False,
      tx_max_count_notified = False, tx_max_count_overflow = False,
      discard_timers_map = [(0, \<lparr>di_count = 0, di_sdu = [1]\<rparr>)]\<rparr> = None"
  by (subst pdcp_stale_notification_removes_all [of _ _ 0 "\<lparr>di_count = 0, di_sdu = [1]\<rparr>" "[]" 4095])
    (simp_all add: discard_timer_configured_def om_wf_def)

end
