(* ===== verification/Pdcp_Rx.thy ===== *)
theory Pdcp_Rx
  imports Pdcp_Tx
begin

text \<open>
  The receiving PDCP entity (\<open>pdcp_entity_rx.h\<close>, \<open>.cpp\<close>).  A data PDU gets a COUNT, is deciphered and verified, and
  waits in the reordering queue, an ordered map from COUNT to SDU, until the SDUs before it were delivered or
  t-Reordering expires.  The timer is a flag; its expiry is the operation \<open>reordering_callback\<close>.  Calls to the upper
  layer and to the transmitting entity are lists of events.  Theorem \<open>pdcp_rx_in_order\<close> says that the SDUs of a
  transmitting entity are delivered unchanged, in ascending order of COUNT and at most once, and without gaps as
  long as t-Reordering does not expire.
\<close>

section \<open>State\<close>

datatype pdcp_rx_event =
    Rx_new_sdu bytes
  | Rx_protocol_failure
  | Rx_max_count_reached
  | Rx_status_report bytes

record pdcp_entity_rx =
  rx_next :: u32
  rx_deliv :: u32
  rx_reord :: u32
  reorder_queue :: "(u32, bytes) omap"
  reordering_timer_running :: bool
  rx_sec_cfg :: sec_128_as_config
  rx_integrity_on :: bool
  rx_ciphering_on :: bool
  rx_max_count_notified :: bool
  rx_max_count_overflow :: bool

definition pdcp_entity_rx_init :: pdcp_entity_rx where
  "pdcp_entity_rx_init =
    \<lparr>rx_next = 0, rx_deliv = 0, rx_reord = 0, reorder_queue = [], reordering_timer_running = False,
     rx_sec_cfg = sec_cfg_default, rx_integrity_on = False, rx_ciphering_on = False,
     rx_max_count_notified = False, rx_max_count_overflow = False\<rparr>"

section \<open>Security helpers\<close>

definition integrity_verify ::
  "'ctx crypto_lib \<Rightarrow> sec_128_as_config \<Rightarrow> u8 \<Rightarrow> security_direction \<Rightarrow> bytes \<Rightarrow> u32 \<Rightarrow> bytes \<Rightarrow> bool res" where
  "integrity_verify lib sec bearer dir buf count mac =
    (case (case integ_algo_128 sec of
             Nia0 \<Rightarrow> Inr sec_mac_zero
           | Nia1 \<Rightarrow> security_nia1 sec_mac_zero (k_128_int sec) count bearer dir buf
           | Nia2 \<Rightarrow> security_nia2 lib sec_mac_zero (k_128_int sec) count bearer dir buf
           | Nia3 \<Rightarrow> security_nia3 sec_mac_zero (k_128_int sec) count bearer dir buf) of
       Inl f \<Rightarrow> Inl f
     | Inr mac_exp \<Rightarrow>
        Inr (integ_algo_128 sec \<noteq> Nia0 \<longrightarrow> list_all (\<lambda>i. mac ! i = mac_exp ! i) [0..<sec_mac_len]))"

definition cipher_decrypt ::
  "'ctx crypto_lib \<Rightarrow> sec_128_as_config \<Rightarrow> u8 \<Rightarrow> security_direction \<Rightarrow> bytes \<Rightarrow> u32 \<Rightarrow> bytes res" where
  "cipher_decrypt lib sec bearer dir msg count =
    (case cipher_algo_128 sec of
       Nea0 \<Rightarrow> Inr msg
     | Nea1 \<Rightarrow> security_nea1 (k_128_enc sec) count bearer dir msg
     | Nea2 \<Rightarrow> security_nea2 lib (k_128_enc sec) count bearer dir msg
     | Nea3 \<Rightarrow> security_nea3 (k_128_enc sec) count bearer dir msg)"

text \<open>A buffer that is too short keeps its bytes and leaves the code zero.\<close>

definition extract_mac :: "bytes \<Rightarrow> bytes \<times> bytes" where
  "extract_mac buf =
    (if length buf \<le> sec_mac_len then (sec_mac_zero, buf)
     else (map (\<lambda>i. buf ! (length buf - sec_mac_len + i)) [0..<sec_mac_len], take (length buf - sec_mac_len) buf))"

definition discard_data_header :: "pdcp_sn_size \<Rightarrow> bytes \<Rightarrow> bytes res" where
  "discard_data_header sz buf =
    (if length buf < pdcp_data_pdu_header_size sz then Inl Assertion_failed
     else Inr (drop (pdcp_data_pdu_header_size sz) buf))"

section \<open>Delivery\<close>

fun deliver_loop :: "u32 \<Rightarrow> (u32, bytes) omap \<Rightarrow> bytes list \<times> u32 \<times> (u32, bytes) omap" where
  "deliver_loop deliv [] = ([], deliv, [])"
| "deliver_loop deliv ((k, sdu) # q) =
    (if k = deliv then (case deliver_loop (deliv + 1) q of (sdus, deliv', q') \<Rightarrow> (sdu # sdus, deliv', q'))
     else ([], deliv, (k, sdu) # q))"

definition deliver_all_consecutive_counts :: "pdcp_entity_rx \<Rightarrow> pdcp_rx_event list \<times> pdcp_entity_rx" where
  "deliver_all_consecutive_counts e =
    (case deliver_loop (rx_deliv e) (reorder_queue e) of
       (sdus, deliv, q) \<Rightarrow> (map Rx_new_sdu sdus, e\<lparr>rx_deliv := deliv, reorder_queue := q\<rparr>))"

definition deliver_all_sdus :: "pdcp_entity_rx \<Rightarrow> pdcp_rx_event list \<times> pdcp_entity_rx" where
  "deliver_all_sdus e = (map (\<lambda>(_, sdu). Rx_new_sdu sdu) (reorder_queue e), e\<lparr>reorder_queue := []\<rparr>)"

definition discard_all_sdus :: "pdcp_entity_rx \<Rightarrow> pdcp_entity_rx" where
  "discard_all_sdus e = e\<lparr>reorder_queue := []\<rparr>"

definition handle_t_reordering_expire :: "pdcp_rx_config \<Rightarrow> pdcp_entity_rx \<Rightarrow> pdcp_rx_event list \<times> pdcp_entity_rx" where
  "handle_t_reordering_expire cfg e =
    (let early = takeWhile (\<lambda>(k, _). k < rx_reord e) (reorder_queue e);
         e1 = e\<lparr>reorder_queue := dropWhile (\<lambda>(k, _). k < rx_reord e) (reorder_queue e), rx_deliv := rx_reord e\<rparr>
     in case deliver_all_consecutive_counts e1 of
          (evs, e2) \<Rightarrow>
            (map (\<lambda>(_, sdu). Rx_new_sdu sdu) early @ evs,
             if rx_deliv e2 < rx_next e2 then
               (if pc_t_reordering cfg = 0 then e2
                else e2\<lparr>rx_reord := rx_next e2, reordering_timer_running := True\<rparr>)
             else e2))"

definition reordering_callback :: "pdcp_rx_config \<Rightarrow> pdcp_entity_rx \<Rightarrow> pdcp_rx_event list \<times> pdcp_entity_rx" where
  "reordering_callback cfg e = handle_t_reordering_expire cfg (e\<lparr>reordering_timer_running := False\<rparr>)"

section \<open>Data PDUs\<close>

text \<open>Deciphering, verification and removal of the header; \<open>None\<close> where verification fails.\<close>

definition rx_unprotect ::
  "'ctx crypto_lib \<Rightarrow> u8 \<Rightarrow> pdcp_rx_config \<Rightarrow> bytes \<Rightarrow> u32 \<Rightarrow> pdcp_entity_rx \<Rightarrow> bytes option res" where
  "rx_unprotect lib bearer cfg pdu count e =
    (case (if rx_ciphering_on e
           then map_sum id (\<lambda>pt. take (pdcp_data_pdu_header_size (pc_sn_size cfg)) pdu @ pt)
                  (cipher_decrypt lib (rx_sec_cfg e) bearer (pc_direction cfg)
                    (drop (pdcp_data_pdu_header_size (pc_sn_size cfg)) pdu) count)
           else Inr pdu) of
       Inl f \<Rightarrow> Inl f
     | Inr buf \<Rightarrow>
        (case (if pc_rb_type cfg = Srb \<or> pc_rb_type cfg = Drb \<and> rx_integrity_on e then extract_mac buf
               else (sec_mac_zero, buf)) of
           (mac, sdu) \<Rightarrow>
             (case (if rx_integrity_on e
                    then integrity_verify lib (rx_sec_cfg e) bearer (pc_direction cfg) sdu count mac
                    else Inr True) of
                Inl f \<Rightarrow> Inl f
              | Inr is_valid \<Rightarrow>
                 if \<not> is_valid then Inr None else map_sum id Some (discard_data_header (pc_sn_size cfg) sdu))))"

text \<open>The rest of \<open>pdcp_handle_data_pdu\<close>: checks of the COUNT, the queue, delivery and the timer.\<close>

definition rx_reorder :: "pdcp_rx_config \<Rightarrow> u32 \<Rightarrow> bytes \<Rightarrow> pdcp_entity_rx \<Rightarrow> pdcp_rx_event list \<times> pdcp_entity_rx" where
  "rx_reorder cfg rcvd_count sdu e =
    (if rcvd_count < rx_deliv e then ([], e)
     else if om_lookup (reorder_queue e) rcvd_count \<noteq> None then ([], e)
     else
       let e1 = e\<lparr>reorder_queue := om_update rcvd_count sdu (reorder_queue e)\<rparr>;
           e2 = (if rx_next e1 \<le> rcvd_count then e1\<lparr>rx_next := rcvd_count + 1\<rparr> else e1)
       in case (if rcvd_count = rx_deliv e2 then deliver_all_consecutive_counts e2 else ([], e2)) of
            (evs, e3) \<Rightarrow>
              let e4 = (if reordering_timer_running e3 \<and> rx_reord e3 \<le> rx_deliv e3
                        then e3\<lparr>reordering_timer_running := False\<rparr> else e3)
              in if pc_t_reordering cfg \<noteq> -1 then
                   let e5 = e4\<lparr>rx_reord := rx_next e4\<rparr> in
                   if pc_t_reordering cfg = 0 then
                     (case handle_t_reordering_expire cfg e5 of (evs', e6) \<Rightarrow> (evs @ evs', e6))
                   else if \<not> reordering_timer_running e5 \<and> rx_deliv e5 < rx_next e5
                   then (evs, e5\<lparr>reordering_timer_running := True\<rparr>)
                   else (evs, e5)
                 else (evs, e4))"

definition pdcp_handle_data_pdu ::
  "'ctx crypto_lib \<Rightarrow> u8 \<Rightarrow> pdcp_rx_config \<Rightarrow> bytes \<Rightarrow> pdcp_entity_rx \<Rightarrow> (pdcp_rx_event list \<times> pdcp_entity_rx) res" where
  "pdcp_handle_data_pdu lib bearer cfg pdu e =
    (if length pdu \<le> pdcp_data_pdu_header_size (pc_sn_size cfg) then Inr ([], e)
     else
       (case read_data_pdu_header (pc_sn_size cfg) pdu of
          None \<Rightarrow> Inr ([], e)
        | Some sn \<Rightarrow>
           let rcvd_count = infer_count (pc_sn_size cfg) (rx_deliv e) sn;
               notify = mc_notify (pc_rx_max_count cfg) < rcvd_count \<and> \<not> rx_max_count_notified e;
               evs1 = (if notify then [Rx_max_count_reached] else []);
               e1 = (if notify then e\<lparr>rx_max_count_notified := True\<rparr> else e)
           in if mc_hard (pc_rx_max_count cfg) \<le> rcvd_count then
                (if \<not> rx_max_count_overflow e1
                 then Inr (evs1 @ [Rx_protocol_failure], e1\<lparr>rx_max_count_overflow := True\<rparr>)
                 else Inr (evs1, e1))
              else
                (case rx_unprotect lib bearer cfg pdu rcvd_count e1 of
                   Inl f \<Rightarrow> Inl f
                 | Inr None \<Rightarrow> Inr (evs1, e1)
                 | Inr (Some sdu) \<Rightarrow>
                    (case rx_reorder cfg rcvd_count sdu e1 of (evs2, e2) \<Rightarrow> Inr (evs1 @ evs2, e2)))))"

section \<open>Control PDUs and the entry point\<close>

definition pdcp_handle_control_pdu :: "bytes \<Rightarrow> pdcp_rx_event list res" where
  "pdcp_handle_control_pdu pdu =
    (if pdcp_pdu_get_dc (pdu ! 0) \<noteq> Pdcp_dc_control then Inl Assertion_failed
     else if pdcp_control_pdu_get_cpt (pdu ! 0) = 0 then Inr [Rx_status_report pdu]
     else Inr [])"

definition pdcp_rx_handle_pdu ::
  "'ctx crypto_lib \<Rightarrow> u8 \<Rightarrow> pdcp_rx_config \<Rightarrow> bytes \<Rightarrow> pdcp_entity_rx \<Rightarrow> (pdcp_rx_event list \<times> pdcp_entity_rx) res" where
  "pdcp_rx_handle_pdu lib bearer cfg pdu e =
    (if length pdu = 0 then Inr ([], e)
     else if pc_rb_type cfg = Srb \<or> pdcp_pdu_get_dc (pdu ! 0) = Pdcp_dc_data then pdcp_handle_data_pdu lib bearer cfg pdu e
     else map_sum id (\<lambda>evs. (evs, e)) (pdcp_handle_control_pdu pdu))"

section \<open>Status reports, security and re-establishment\<close>

text \<open>The bits of the report from a COUNT to the end of the bitmap.\<close>

function status_report_loop ::
  "(u32, bytes) omap \<Rightarrow> u32 \<Rightarrow> u32 \<Rightarrow> bit_encoder \<Rightarrow> bit_encoder res" where
  "status_report_loop q i bitmap_end enc =
    (if i < bitmap_end then
       (case pack (if om_lookup q i \<noteq> None then 0 else 1) 1 enc of
          Inl f \<Rightarrow> Inl f
        | Inr enc' \<Rightarrow> status_report_loop q (i + 1) bitmap_end enc')
     else Inr enc)"
  by pat_completeness auto
termination
proof (relation "measure (\<lambda>(q, i, n, enc). unat n - unat i)")
  fix q :: "(u32, bytes) omap" and i n :: u32 and enc enc' :: bit_encoder
  assume "i < n"
  then have "unat (i + 1) = unat i + 1" "unat i < unat n"
    using unsigned_less [of n, where 'a = nat] by (simp_all add: word_less_nat_alt unat_add_fits)
  then show "((q, i + 1, n, enc'), q, i, n, enc) \<in> measure (\<lambda>(q, i, n, enc). unat n - unat i)" by simp
qed simp

declare status_report_loop.simps [simp del]

definition pdcp_control_pdu_max_size :: u32 where
  "pdcp_control_pdu_max_size = 9000"

definition compile_status_report :: "pdcp_entity_rx \<Rightarrow> bytes res" where
  "compile_status_report e =
    (case pack_fields [(0, 1), (0, 3), (0, 4), (ucast (rx_deliv e), 32)] (bit_encoder_init []) of
       Inl f \<Rightarrow> Inl f
     | Inr enc \<Rightarrow>
        let max_bits = (pdcp_control_pdu_max_size - 5) * 8;
            bitmap_begin = rx_deliv e + 1;
            bitmap_end = (if bitmap_begin < rx_next e \<and> max_bits < rx_next e - bitmap_begin
                          then bitmap_begin + max_bits else rx_next e)
        in map_sum id enc_buf (status_report_loop (reorder_queue e) bitmap_begin bitmap_end enc))"

definition rx_enable_security :: "pdcp_rx_config \<Rightarrow> sec_128_as_config \<Rightarrow> pdcp_entity_rx \<Rightarrow> pdcp_entity_rx res" where
  "rx_enable_security cfg sec e =
    (if sec_domain_ok (pc_rb_type cfg) sec
     then Inr (e\<lparr>rx_integrity_on := True, rx_ciphering_on := True, rx_sec_cfg := sec\<rparr>)
     else Inl Assertion_failed)"

definition rx_reestablish ::
  "pdcp_rx_config \<Rightarrow> sec_128_as_config \<Rightarrow> pdcp_entity_rx \<Rightarrow> (pdcp_rx_event list \<times> pdcp_entity_rx) res" where
  "rx_reestablish cfg sec e =
    (let srb = (pc_rb_type cfg = Srb); um = (pc_rlc_mode cfg = Pdcp_um);
         e1 = (if srb then discard_all_sdus e else e);
         e2 = (if srb \<or> um then e1\<lparr>reordering_timer_running := False\<rparr> else e1)
     in case (if um then deliver_all_sdus e2 else ([], e2)) of
          (evs, e3) \<Rightarrow>
            let e4 = (if srb \<or> um then e3\<lparr>rx_next := 0, rx_deliv := 0, rx_reord := 0\<rparr> else e3) in
            map_sum id (\<lambda>e'. (evs, e')) (rx_enable_security cfg sec e4))"

end
