(* ===== verification/Pdcp_Rx_Order.thy ===== *)
theory Pdcp_Rx_Order
  imports Pdcp_Rx
begin

text \<open>
  What the receiving PDCP entity does with the PDUs of a transmitting one: the protection is undone, and the SDUs are
  delivered in ascending order of their COUNTs.
\<close>

section \<open>Protection is undone\<close>

text \<open>What is relied on of the cryptographic library, where the algorithms in use call it.\<close>

definition sec_lib_ok :: "'ctx crypto_lib \<Rightarrow> sec_128_as_config \<Rightarrow> bool" where
  "sec_lib_ok lib sec \<longleftrightarrow>
    (cipher_algo_128 sec = Nea2 \<longrightarrow> ctr_law lib \<and> fst (aes_setkey_enc lib (k_128_enc sec)) = 0) \<and>
    (integ_algo_128 sec = Nia2 \<longrightarrow> ecb_law lib)"

text \<open>The two ends of a bearer have the same configuration and the same keys.\<close>

definition pdcp_peers :: "pdcp_tx_config \<Rightarrow> pdcp_entity_tx \<Rightarrow> pdcp_rx_config \<Rightarrow> pdcp_entity_rx \<Rightarrow> bool" where
  "pdcp_peers tc te rc re \<longleftrightarrow>
    pc_rb_type rc = pc_rb_type tc \<and> pc_sn_size rc = pc_sn_size tc \<and> pc_direction rc = pc_direction tc \<and>
    rx_sec_cfg re = tx_sec_cfg te \<and> rx_integrity_on re = tx_integrity_on te \<and>
    rx_ciphering_on re = tx_ciphering_on te \<and> (pc_rb_type tc = Srb \<longrightarrow> pc_sn_size tc = Sn_size12bits)"

lemma cipher_decrypt_encrypt: "cipher_decrypt = cipher_encrypt"
  by (intro ext) (simp add: cipher_decrypt_def cipher_encrypt_def)

lemma cipher_encrypt_cipher:
  assumes "sec_lib_ok lib sec"
  shows "stream_cipher (\<lambda>msg. cipher_encrypt lib sec bearer dir msg count)"
proof (cases "cipher_algo_128 sec")
  case Nea0
  then show ?thesis by unfold_locales (simp add: cipher_encrypt_def)
next
  case Nea1
  then show ?thesis using nea1.stream_cipher_axioms by (simp add: cipher_encrypt_def)
next
  case Nea2
  with assms have "stream_cipher (security_nea2 lib (k_128_enc sec) count bearer dir)"
    by (intro nea2_cipher) (simp_all add: sec_lib_ok_def)
  with Nea2 show ?thesis by (simp add: cipher_encrypt_def)
next
  case Nea3
  then show ?thesis using nea3.stream_cipher_axioms by (simp add: cipher_encrypt_def)
qed

lemma integrity_generate_returns:
  assumes "sec_lib_ok lib sec" "0 < length buf" "length buf < 2 ^ 28"
  obtains mac where "integrity_generate lib sec bearer dir buf count = Inr mac" "length mac = sec_mac_len"
proof (cases "integ_algo_128 sec")
  case Nia0
  then show ?thesis using that by (simp add: integrity_generate_def sec_mac_zero_def sec_mac_len_def)
next
  case Nia1
  obtain m where "security_nia1 sec_mac_zero (k_128_int sec) count bearer dir buf = Inr m" "length m = 4"
    by (rule nia1_returns [OF assms(2,3)])
  with Nia1 that show ?thesis by (simp add: integrity_generate_def sec_mac_len_def)
next
  case Nia2
  with assms(1) have "ecb_law lib" by (simp add: sec_lib_ok_def)
  then obtain m where "security_nia2 lib sec_mac_zero (k_128_int sec) count bearer dir buf = Inr m" "length m = 4"
    by (rule nia2_returns [OF _ assms(2,3)])
  with Nia2 that show ?thesis by (simp add: integrity_generate_def sec_mac_len_def)
next
  case Nia3
  obtain m where "security_nia3 sec_mac_zero (k_128_int sec) count bearer dir buf = Inr m" "length m = 4"
    by (rule nia3_returns [OF assms(2,3)])
  with Nia3 that show ?thesis by (simp add: integrity_generate_def sec_mac_len_def)
qed

lemma integrity_verify_generated:
  assumes "integrity_generate lib sec bearer dir buf count = Inr mac"
  shows "integrity_verify lib sec bearer dir buf count mac = Inr True"
proof -
  have "(case integrity_generate lib sec bearer dir buf count of Inl f \<Rightarrow> Inl f
      | Inr m \<Rightarrow> Inr (integ_algo_128 sec \<noteq> Nia0 \<longrightarrow> list_all (\<lambda>i. mac ! i = m ! i) [0..<sec_mac_len])) = Inr True"
    using assms by (simp add: list_all_iff)
  then show ?thesis unfolding integrity_verify_def integrity_generate_def .
qed

lemma extract_appended_mac:
  assumes "length mac = sec_mac_len" "buf \<noteq> []"
  shows "extract_mac (buf @ mac) = (mac, buf)"
proof -
  have "map (\<lambda>i. (buf @ mac) ! (length buf + i)) [0..<sec_mac_len] = mac"
    by (rule nth_equalityI) (simp_all add: assms(1) nth_append)
  with assms show ?thesis by (simp add: extract_mac_def)
qed

lemma unprotect_protect:
  assumes peers: "pdcp_peers tc te rc re" and lib: "sec_lib_ok lib (tx_sec_cfg te)"
    and sdu: "sdu \<noteq> []" "length sdu < 2 ^ 23"
  obtains pdu where "build_data_pdu lib bearer tc sdu c te = Inr pdu"
    "pdcp_data_pdu_header_size (pc_sn_size rc) < length pdu"
    "pc_rb_type rc = Drb \<Longrightarrow> pdcp_pdu_get_dc (pdu ! 0) = Pdcp_dc_data"
    "read_data_pdu_header (pc_sn_size rc) pdu = Some (pdcp_compute_sn c (pc_sn_size rc))"
    "rx_unprotect lib bearer rc pdu c re = Inr (Some sdu)" "length pdu \<le> length sdu + 7"
proof -
  let ?sz = "pc_sn_size tc" let ?sec = "tx_sec_cfg te" let ?dir = "pc_direction tc"
  let ?with = "pc_rb_type tc = Srb \<or> pc_rb_type tc = Drb \<and> tx_integrity_on te"
  have p: "pc_rb_type rc = pc_rb_type tc" "pc_sn_size rc = ?sz" "pc_direction rc = ?dir" "rx_sec_cfg re = ?sec"
      "rx_integrity_on re = tx_integrity_on te" "rx_ciphering_on re = tx_ciphering_on te"
    using peers by (simp_all add: pdcp_peers_def)
  obtain h where h: "write_data_pdu_header (pc_rb_type tc) ?sz (pdcp_compute_sn c ?sz) = Inr h"
      "length h = pdcp_data_pdu_header_size ?sz" "pc_rb_type tc = Drb \<Longrightarrow> pdcp_pdu_get_dc (h ! 0) = Pdcp_dc_data"
    using peers header_written [of "pc_rb_type tc" ?sz] by (auto simp: pdcp_peers_def)
  have hlen: "h \<noteq> []" "length h \<le> 3"
    using h(2) by (auto simp: pdcp_data_pdu_header_size_def split: pdcp_sn_size.splits)
  obtain mac where mac: "(if tx_integrity_on te then integrity_generate lib ?sec bearer ?dir (h @ sdu) c
        else Inr sec_mac_zero) = Inr mac" "length mac = sec_mac_len"
  proof (cases "tx_integrity_on te")
    case True
    obtain m where "integrity_generate lib ?sec bearer ?dir (h @ sdu) c = Inr m" "length m = sec_mac_len"
      by (rule integrity_generate_returns [OF lib, of "h @ sdu"]) (use sdu hlen in auto)
    with True that show ?thesis by simp
  next
    case False
    with that show ?thesis by (simp add: sec_mac_zero_def sec_mac_len_def)
  qed
  define pt where "pt = sdu @ (if ?with then mac else [])"
  have pt: "cipher_len_ok pt" "pt \<noteq> []"
    using sdu mac(2) by (auto simp: pt_def cipher_len_ok_def sec_mac_len_def)
  define crypt where "crypt m = (if tx_ciphering_on te then cipher_encrypt lib ?sec bearer ?dir m c else Inr m)" for m
  obtain ct where ct: "crypt pt = Inr ct" "length ct = length pt" "crypt ct = Inr pt"
    using stream_cipher.crypt_law [OF cipher_encrypt_cipher [OF lib, where bearer = bearer and dir = ?dir and count = c] pt(1)]
    by (cases "tx_ciphering_on te") (auto simp: crypt_def)
  have ext: "extract_mac (h @ sdu @ mac) = (mac, h @ sdu)"
    using extract_appended_mac [OF mac(2), of "h @ sdu"] hlen by simp
  have ver: "tx_integrity_on te \<Longrightarrow> integrity_verify lib ?sec bearer ?dir (h @ sdu) c mac = Inr True"
    using mac(1) by (simp add: integrity_verify_generated)
  have "build_data_pdu lib bearer tc sdu c te = Inr (h @ ct)"
    using ct(1) mac(1) by (simp add: build_data_pdu_def h(1) apply_ciphering_and_integrity_protection_def
      pt_def crypt_def split del: if_split)
  moreover have "rx_unprotect lib bearer rc (h @ ct) c re = Inr (Some sdu)"
  proof -
    have buf: "(if tx_ciphering_on te
        then map_sum id ((@) (take (length h) (h @ ct))) (cipher_decrypt lib ?sec bearer ?dir (drop (length h) (h @ ct)) c)
        else Inr (h @ ct)) = Inr (h @ pt)"
      using ct(1,3) by (auto simp: crypt_def cipher_decrypt_encrypt)
    show ?thesis
      unfolding rx_unprotect_def p h(2) [symmetric] buf
      using ext ver by (cases "pc_rb_type tc"; cases "tx_integrity_on te") (auto simp: pt_def discard_data_header_def h(2))
  qed
  moreover have "ct \<noteq> []" using ct(2) pt(2) by auto
  moreover have "read_data_pdu_header ?sz (h @ ct) = Some (pdcp_compute_sn c ?sz)"
    using header_read [OF h(1) compute_sn_less] \<open>ct \<noteq> []\<close> by simp
  moreover have "(h @ ct) ! 0 = h ! 0" "0 < length h" using hlen(1) by (simp_all add: nth_append)
  moreover have "length (h @ ct) \<le> length sdu + 7"
    using hlen(2) ct(2) mac(2) by (simp add: pt_def sec_mac_len_def)
  ultimately show thesis using h(2,3) by (intro that [of "h @ ct"]) (simp_all add: p)
qed

section \<open>The reordering queue\<close>

lemma deliver_loop_spec:
  assumes "om_wf q" "\<forall>(k, v) \<in> set q. d \<le> k \<and> k < n \<and> v = src k" "d \<le> n"
  obtains ks d' q' where "deliver_loop d q = (map src ks, d', q')" "map unat ks = [unat d..<unat d']"
    "q = map (\<lambda>k. (k, src k)) ks @ q'" "d \<le> d'" "d' \<le> n" "\<forall>(k, v) \<in> set q'. d' < k"
  using assms
proof (induction q arbitrary: d thesis)
  case Nil
  then show ?case using Nil.prems(1) [of "[]" d "[]"] by simp
next
  case (Cons x q)
  obtain k v where x: "x = (k, v)" by (cases x)
  from Cons.prems(2,3) have k: "d \<le> k" "k < n" "v = src k" and q: "om_wf q" "\<forall>(k', v) \<in> set q. k < k' \<and> k' < n \<and> v = src k'"
    by (auto simp: om_wf_Cons x)
  show ?case
  proof (cases "k = d")
    case False
    with k(1) have "d < k" by simp
    with q(2) have "\<forall>(k', v) \<in> set (x # q). d < k'" by (auto simp: x)
    with Cons.prems(1) [of "[]" d "x # q"] Cons.prems(4) False show ?thesis by (simp add: x)
  next
    case True
    with k(2) have d: "unat (d + 1) = unat d + 1" "d + 1 \<le> n"
      using unsigned_less [of n, where 'a = nat] by (simp_all add: word_less_nat_alt word_le_nat_alt unat_add_fits)
    have "\<forall>(k', v) \<in> set q. d + 1 \<le> k' \<and> k' < n \<and> v = src k'"
      using q(2) True by (auto simp: word_le_nat_alt word_less_nat_alt d(1))
    from Cons.IH [OF _ q(1) this d(2)] obtain ks d' q' where IH: "deliver_loop (d + 1) q = (map src ks, d', q')"
        "map unat ks = [unat (d + 1)..<unat d']" "q = map (\<lambda>k. (k, src k)) ks @ q'" "d + 1 \<le> d'" "d' \<le> n"
        "\<forall>(k, v) \<in> set q'. d' < k"
      by blast
    moreover have "unat d < unat d'" using IH(4) d(1) by (simp add: word_le_nat_alt)
    ultimately show ?thesis
      using True k(3) d(1) by (intro Cons.prems(1) [of "d # ks" d' q'])
        (auto simp: x upt_conv_Cons word_le_nat_alt)
  qed
qed

text \<open>
  The state after the COUNTs in \<open>A\<close> arrived and the SDUs of the COUNTs \<open>D\<close> were delivered: queued COUNTs wait for
  the COUNT RX_DELIV, and delivered ones are below it.
\<close>

definition rx_queue_ok :: "(u32 \<Rightarrow> bytes) \<Rightarrow> u32 set \<Rightarrow> u32 list \<Rightarrow> pdcp_entity_rx \<Rightarrow> bool" where
  "rx_queue_ok src A D e \<longleftrightarrow> om_wf (reorder_queue e) \<and> rx_deliv e \<le> rx_next e \<and>
    (\<forall>(k, v) \<in> set (reorder_queue e). rx_deliv e < k \<and> k < rx_next e \<and> v = src k \<and> k \<in> A) \<and>
    sorted_wrt (<) D \<and> (\<forall>d \<in> set D. d < rx_deliv e \<and> d \<in> A) \<and>
    (\<forall>c \<in> A. c < rx_deliv e \<or> c \<in> fst ` set (reorder_queue e)) \<and> (rx_next e = 0 \<or> rx_next e - 1 \<in> A)"

definition rx_ok :: "pdcp_rx_config \<Rightarrow> (u32 \<Rightarrow> bytes) \<Rightarrow> u32 set \<Rightarrow> u32 list \<Rightarrow> pdcp_entity_rx \<Rightarrow> bool" where
  "rx_ok cfg src A D e \<longleftrightarrow> rx_queue_ok src A D e \<and>
    (reordering_timer_running e \<longrightarrow> rx_reord e = rx_next e \<and> pc_t_reordering cfg \<noteq> -1)"

text \<open>What the queue and the timer do not touch.\<close>

definition same_sec :: "pdcp_entity_rx \<Rightarrow> pdcp_entity_rx \<Rightarrow> bool" where
  "same_sec e e' \<longleftrightarrow> rx_sec_cfg e' = rx_sec_cfg e \<and> rx_integrity_on e' = rx_integrity_on e \<and>
    rx_ciphering_on e' = rx_ciphering_on e \<and> rx_max_count_notified e' = rx_max_count_notified e \<and>
    rx_max_count_overflow e' = rx_max_count_overflow e"

lemma rx_ok_init: "rx_ok cfg src {} [] pdcp_entity_rx_init"
  by (simp add: rx_ok_def rx_queue_ok_def pdcp_entity_rx_init_def)

lemma sorted_append_above:
  "sorted_wrt (<) D \<Longrightarrow> sorted_wrt (<) ks \<Longrightarrow> \<forall>d \<in> set D. d < m \<Longrightarrow> \<forall>k \<in> set ks. m \<le> (k :: u32) \<Longrightarrow>
    sorted_wrt (<) (D @ ks)"
  by (fastforce simp: sorted_wrt_append)

text \<open>RX_REORD is RX_NEXT whenever the timer expires, so that everything in the queue is delivered.\<close>

lemma expire_ok:
  assumes ok: "rx_queue_ok src A D e" and reord: "rx_reord e = rx_next e"
  obtains ks e' where "handle_t_reordering_expire cfg e = (map (Rx_new_sdu \<circ> src) ks, e')"
    "rx_queue_ok src A (D @ ks) e'" "same_sec e e'" "rx_deliv e \<le> rx_deliv e'"
    "rx_reord e' = rx_next e'" "reordering_timer_running e' = reordering_timer_running e"
proof -
  let ?q = "reorder_queue e" let ?ks = "map fst ?q"
  let ?e = "e\<lparr>reorder_queue := [], rx_deliv := rx_next e\<rparr>"
  have q: "om_wf ?q" "\<forall>(k, v) \<in> set ?q. rx_deliv e < k \<and> k < rx_next e \<and> v = src k \<and> k \<in> A"
    and D: "sorted_wrt (<) D" "\<forall>d \<in> set D. d < rx_deliv e \<and> d \<in> A" "rx_deliv e \<le> rx_next e"
    and A: "\<forall>c \<in> A. c < rx_deliv e \<or> c \<in> fst ` set ?q" "rx_next e = 0 \<or> rx_next e - 1 \<in> A"
    using ok by (simp_all add: rx_queue_ok_def)
  have "takeWhile (\<lambda>(k, _). k < rx_next e) ?q = ?q" "dropWhile (\<lambda>(k, _). k < rx_next e) ?q = []"
    using q(2) by (auto simp: takeWhile_eq_all_conv dropWhile_eq_Nil_conv)
  moreover have "map (\<lambda>(_, sdu). Rx_new_sdu sdu) ?q = map (Rx_new_sdu \<circ> src) ?ks"
    using q(2) by auto
  ultimately have expired: "handle_t_reordering_expire cfg e = (map (Rx_new_sdu \<circ> src) ?ks, ?e)"
    unfolding handle_t_reordering_expire_def reord Let_def
    by (simp only:) (simp add: deliver_all_consecutive_counts_def)
  have "sorted_wrt (<) (D @ ?ks)"
    using q D by (intro sorted_append_above [where m = "rx_deliv e"]) (auto simp: om_wf_def less_imp_le)
  moreover have "\<forall>c \<in> fst ` set ?q. c < rx_next e \<and> c \<in> A" using q(2) by auto
  then have "\<forall>c \<in> A. c < rx_next e" "\<forall>d \<in> set (D @ ?ks). d < rx_next e \<and> d \<in> A"
    using D(2,3) A(1) by (auto intro: less_le_trans)
  ultimately have "rx_queue_ok src A (D @ ?ks) ?e"
    using A(2) by (simp add: rx_queue_ok_def)
  with expired show thesis using reord D(3) by (intro that [of ?ks ?e]) (simp_all add: same_sec_def)
qed

lemma unat_next: "c \<noteq> - 1 \<Longrightarrow> unat (c + 1 :: u32) = unat c + 1"
  by (metis Suc_eq_plus1 add.commute unatSuc add_eq_0_iff)

lemma store_ok:
  assumes ok: "rx_queue_ok src A D e" and c: "c \<noteq> - 1" "rx_deliv e \<le> c" "om_lookup (reorder_queue e) c = None"
    and e2: "e2 = e\<lparr>reorder_queue := om_update c (src c) (reorder_queue e),
      rx_next := (if rx_next e \<le> c then c + 1 else rx_next e)\<rparr>"
  obtains ks e3 where
    "(if c = rx_deliv e2 then deliver_all_consecutive_counts e2 else ([], e2)) = (map (Rx_new_sdu \<circ> src) ks, e3)"
    "rx_queue_ok src (insert c A) (D @ ks) e3" "map unat ks = [unat (rx_deliv e)..<unat (rx_deliv e3)]"
    "e3 = e2\<lparr>rx_deliv := rx_deliv e3, reorder_queue := reorder_queue e3\<rparr>" "rx_deliv e \<le> rx_deliv e3"
proof -
  let ?q = "reorder_queue e2" let ?n = "rx_next e2" let ?d = "rx_deliv e"
  have q: "om_wf (reorder_queue e)"
      "\<forall>(k, v) \<in> set (reorder_queue e). ?d < k \<and> k < rx_next e \<and> v = src k \<and> k \<in> A"
    and D: "sorted_wrt (<) D" "\<forall>d \<in> set D. d < ?d \<and> d \<in> A" "?d \<le> rx_next e"
    and A: "\<forall>c \<in> A. c < ?d \<or> c \<in> fst ` set (reorder_queue e)" and top: "rx_next e = 0 \<or> rx_next e - 1 \<in> A"
    using ok by (simp_all add: rx_queue_ok_def)
  have c1: "c < c + 1" using unat_next [OF c(1)] by (simp add: word_less_nat_alt)
  have wf2: "om_wf ?q" and keys2: "fst ` set ?q = insert c (fst ` set (reorder_queue e))"
    using q(1) by (simp_all add: e2 om_wf_update om_update_keys)
  have q2: "\<forall>(k, v) \<in> set ?q. ?d \<le> k \<and> k < ?n \<and> v = src k \<and> k \<in> insert c A"
  proof clarify
    fix k v assume "(k, v) \<in> set ?q"
    then have "(k, v) = (c, src c) \<or> (k, v) \<in> set (reorder_queue e)"
      using om_update_set [of c "src c" "reorder_queue e"] by (auto simp: e2)
    then show "?d \<le> k \<and> k < ?n \<and> v = src k \<and> k \<in> insert c A"
      using q(2) c(2) c1 by (fastforce simp: e2)
  qed
  have n2: "?d \<le> ?n" using D(3) c(2) c1 by (auto simp: e2)
  have top2: "?n = 0 \<or> ?n - 1 \<in> insert c A" using top by (auto simp: e2)
  have [simp]: "rx_deliv e2 = ?d" by (simp add: e2)
  show thesis
  proof (cases "c = ?d")
    case True
    have q2': "\<forall>(k, v) \<in> set ?q. ?d \<le> k \<and> k < ?n \<and> v = src k" using q2 by auto
    obtain ks d' q' where dl: "deliver_loop ?d ?q = (map src ks, d', q')" "map unat ks = [unat ?d..<unat d']"
        "?q = map (\<lambda>k. (k, src k)) ks @ q'" "?d \<le> d'" "d' \<le> ?n" "\<forall>(k, v) \<in> set q'. d' < k"
      by (rule deliver_loop_spec [OF wf2 q2' n2])
    let ?e3 = "e2\<lparr>rx_deliv := d', reorder_queue := q'\<rparr>"
    have ks: "?d \<le> k \<and> k < d'" if "k \<in> set ks" for k
    proof -
      from that have "unat k \<in> set (map unat ks)" by simp
      then show ?thesis unfolding dl(2) by (simp add: word_le_nat_alt word_less_nat_alt)
    qed
    have "sorted_wrt (<) (map unat ks)" unfolding dl(2) by simp
    then have "sorted_wrt (<) ks" by (simp add: sorted_wrt_map word_less_nat_alt [abs_def])
    then have "sorted_wrt (<) (D @ ks)"
      using D ks by (intro sorted_append_above [where m = ?d]) auto
    moreover have "om_wf q'" using wf2 unfolding dl(3) by (simp add: om_wf_def sorted_wrt_append)
    moreover have "\<forall>(k, v) \<in> set q'. d' < k \<and> k < ?n \<and> v = src k \<and> k \<in> insert c A"
      using dl(6) q2 unfolding dl(3) by auto
    moreover have "\<forall>x \<in> insert c A. x < d' \<or> x \<in> fst ` set q'"
    proof
      fix x assume "x \<in> insert c A"
      then have "x < ?d \<or> x \<in> fst ` set ?q" using A keys2 by auto
      then have "x < ?d \<or> x \<in> set ks \<or> x \<in> fst ` set q'" unfolding dl(3) by (auto simp: image_image)
      then show "x < d' \<or> x \<in> fst ` set q'" using dl(4) ks by (auto intro: less_le_trans)
    qed
    moreover have "\<forall>k \<in> set ks. k \<in> insert c A" using q2 unfolding dl(3) by auto
    then have "\<forall>d \<in> set (D @ ks). d < d' \<and> d \<in> insert c A"
      using D(2) dl(4) ks by (auto intro: less_le_trans)
    ultimately have "rx_queue_ok src (insert c A) (D @ ks) ?e3"
      using dl(5) top2 by (simp add: rx_queue_ok_def)
    with that [of ks ?e3] True dl(1,2,4) show thesis by (simp add: deliver_all_consecutive_counts_def)
  next
    case False
    have "?d \<notin> fst ` set ?q" using q(2) False unfolding keys2 by auto
    then have "k \<noteq> ?d" if "(k, v) \<in> set ?q" for k v
      using that by force
    then have "\<forall>(k, v) \<in> set ?q. ?d < k \<and> k < ?n \<and> v = src k \<and> k \<in> insert c A"
      using q2 by (auto simp: order.strict_iff_order)
    moreover have "\<forall>x \<in> insert c A. x < ?d \<or> x \<in> fst ` set ?q" using A unfolding keys2 by blast
    ultimately have "rx_queue_ok src (insert c A) D e2"
      using wf2 n2 D(1,2) top2 by (simp add: rx_queue_ok_def)
    with that [of "[]" e2] False show thesis by simp
  qed
qed

lemma reorder_ok:
  assumes ok: "rx_ok cfg src A D e" and c: "c \<noteq> - 1"
  obtains ks e' where "rx_reorder cfg c (src c) e = (map (Rx_new_sdu \<circ> src) ks, e')"
    "rx_ok cfg src (insert c A) (D @ ks) e'" "same_sec e e'" "rx_deliv e \<le> rx_deliv e'"
    "pc_t_reordering cfg \<noteq> 0 \<Longrightarrow> map unat ks = [unat (rx_deliv e)..<unat (rx_deliv e')]"
proof (cases "c < rx_deliv e \<or> om_lookup (reorder_queue e) c \<noteq> None")
  case True
  then have dropped: "rx_reorder cfg c (src c) e = (map (Rx_new_sdu \<circ> src) [], e)"
    unfolding rx_reorder_def by (elim disjE) simp_all
  have "c < rx_deliv e \<or> c \<in> fst ` set (reorder_queue e)"
    using True by (simp add: om_lookup_None)
  moreover have "\<forall>(k, v) \<in> set (reorder_queue e). rx_deliv e < k \<and> k < rx_next e \<and> v = src k \<and> k \<in> insert c A"
    using ok by (auto simp: rx_ok_def rx_queue_ok_def)
  moreover have "rx_next e = 0 \<or> rx_next e - 1 \<in> insert c A" using ok by (auto simp: rx_ok_def rx_queue_ok_def)
  ultimately have "rx_ok cfg src (insert c A) D e" using ok by (simp add: rx_ok_def rx_queue_ok_def)
  then show thesis by (intro that [OF dropped]) (simp_all add: same_sec_def)
next
  case False
  define e2 where "e2 = e\<lparr>reorder_queue := om_update c (src c) (reorder_queue e),
    rx_next := (if rx_next e \<le> c then c + 1 else rx_next e)\<rparr>"
  have e2: "(let e1 = e\<lparr>reorder_queue := om_update c (src c) (reorder_queue e)\<rparr>
      in if rx_next e1 \<le> c then e1\<lparr>rx_next := c + 1\<rparr> else e1) = e2"
    by (simp add: e2_def)
  from False have late: "\<not> c < rx_deliv e" and dup: "\<not> om_lookup (reorder_queue e) c \<noteq> None" by auto
  from False have new: "rx_deliv e \<le> c" "om_lookup (reorder_queue e) c = None" by auto
  from ok have qok: "rx_queue_ok src A D e" by (simp add: rx_ok_def)
  obtain ks e3 where e3:
      "(if c = rx_deliv e2 then deliver_all_consecutive_counts e2 else ([], e2)) = (map (Rx_new_sdu \<circ> src) ks, e3)"
      "rx_queue_ok src (insert c A) (D @ ks) e3" "map unat ks = [unat (rx_deliv e)..<unat (rx_deliv e3)]"
      "e3 = e2\<lparr>rx_deliv := rx_deliv e3, reorder_queue := reorder_queue e3\<rparr>" "rx_deliv e \<le> rx_deliv e3"
    by (rule store_ok [OF qok c new e2_def])
  define e4 where "e4 = (if reordering_timer_running e3 \<and> rx_reord e3 \<le> rx_deliv e3
    then e3\<lparr>reordering_timer_running := False\<rparr> else e3)"
  have e4: "rx_queue_ok src (insert c A) (D @ ks) e4" "rx_deliv e4 = rx_deliv e3" "same_sec e e4"
      "reordering_timer_running e4 \<Longrightarrow> reordering_timer_running e"
  proof -
    show "rx_queue_ok src (insert c A) (D @ ks) e4" "rx_deliv e4 = rx_deliv e3"
      using e3(2) by (simp_all add: e4_def rx_queue_ok_def)
    have "same_sec e e3" "reordering_timer_running e3 = reordering_timer_running e"
      by (subst e3(4), simp add: same_sec_def e2_def)+
    then show "same_sec e e4" "reordering_timer_running e4 \<Longrightarrow> reordering_timer_running e"
      by (auto simp: e4_def same_sec_def split: if_splits)
  qed
  have run: "rx_reorder cfg c (src c) e =
    (if pc_t_reordering cfg \<noteq> -1 then
       let e5 = e4\<lparr>rx_reord := rx_next e4\<rparr> in
       if pc_t_reordering cfg = 0 then
         (case handle_t_reordering_expire cfg e5 of (evs', e6) \<Rightarrow> (map (Rx_new_sdu \<circ> src) ks @ evs', e6))
       else if \<not> reordering_timer_running e5 \<and> rx_deliv e5 < rx_next e5
       then (map (Rx_new_sdu \<circ> src) ks, e5\<lparr>reordering_timer_running := True\<rparr>)
       else (map (Rx_new_sdu \<circ> src) ks, e5)
     else (map (Rx_new_sdu \<circ> src) ks, e4))"
    unfolding rx_reorder_def Let_def e2 [unfolded Let_def] e3(1) prod.case e4_def [symmetric] if_not_P [OF late] if_not_P [OF dup] ..
  let ?e5 = "e4\<lparr>rx_reord := rx_next e4\<rparr>"
  have e5: "rx_queue_ok src (insert c A) (D @ ks) ?e5" using e4(1) by (simp add: rx_queue_ok_def)
  consider "pc_t_reordering cfg = -1" | "pc_t_reordering cfg = 0" | "pc_t_reordering cfg \<noteq> -1" "pc_t_reordering cfg \<noteq> 0"
    by blast
  then show thesis
  proof cases
    case 1
    with ok e4(4) have "\<not> reordering_timer_running e4" by (auto simp: rx_ok_def)
    with e4(1) have "rx_ok cfg src (insert c A) (D @ ks) e4" by (simp add: rx_ok_def)
    moreover have "rx_reorder cfg c (src c) e = (map (Rx_new_sdu \<circ> src) ks, e4)" unfolding run 1 by simp
    ultimately show thesis using that [of ks e4] e3(3,5) e4(2,3) by simp
  next
    case 2
    have "rx_reord ?e5 = rx_next ?e5" by simp
    with e5 obtain ks' e6 where e6: "handle_t_reordering_expire cfg ?e5 = (map (Rx_new_sdu \<circ> src) ks', e6)"
        "rx_queue_ok src (insert c A) ((D @ ks) @ ks') e6" "same_sec ?e5 e6" "rx_deliv ?e5 \<le> rx_deliv e6"
        "rx_reord e6 = rx_next e6" "reordering_timer_running e6 = reordering_timer_running ?e5"
      by (rule expire_ok)
    have "rx_reorder cfg c (src c) e = (map (Rx_new_sdu \<circ> src) (ks @ ks'), e6)" unfolding run 2 Let_def e6(1) by simp
    moreover have "rx_ok cfg src (insert c A) (D @ ks @ ks') e6" using e6(2,5) 2 by (simp add: rx_ok_def)
    moreover have "same_sec e e6" using e4(3) e6(3) by (simp add: same_sec_def)
    moreover have "rx_deliv e \<le> rx_deliv e6" using e3(5) e4(2) e6(4) by simp
    ultimately show thesis using that [of "ks @ ks'" e6] 2 by simp
  next
    case 3
    let ?e6 = "if \<not> reordering_timer_running ?e5 \<and> rx_deliv ?e5 < rx_next ?e5
      then ?e5\<lparr>reordering_timer_running := True\<rparr> else ?e5"
    have "rx_ok cfg src (insert c A) (D @ ks) ?e6" using e5 3 by (simp add: rx_ok_def rx_queue_ok_def)
    moreover have "rx_reorder cfg c (src c) e = (map (Rx_new_sdu \<circ> src) ks, ?e6)"
      unfolding run Let_def using 3 by simp
    moreover have "same_sec e ?e6" "rx_deliv ?e6 = rx_deliv e3" using e4(2,3) by (simp_all add: same_sec_def)
    ultimately show thesis using that [of ks ?e6] e3(3,5) by simp
  qed
qed

section \<open>Runs\<close>

text \<open>
  The PDUs of a transmitting entity arrive in any order, with losses and duplicates, and t-Reordering expires at any
  time it runs.  \<open>src\<close> gives the SDU of a COUNT.
\<close>

datatype rx_call = Rx_arrival u32 | Rx_timer_expiry

definition rx_step ::
  "'ctx crypto_lib \<Rightarrow> u8 \<Rightarrow> pdcp_rx_config \<Rightarrow> pdcp_tx_config \<Rightarrow> pdcp_entity_tx \<Rightarrow> (u32 \<Rightarrow> bytes) \<Rightarrow> rx_call \<Rightarrow>
    pdcp_entity_rx \<Rightarrow> (pdcp_rx_event list \<times> pdcp_entity_rx) res" where
  "rx_step lib bearer rc tc te src call e =
    (case call of
       Rx_arrival c \<Rightarrow>
        (case build_data_pdu lib bearer tc (src c) c te of
           Inl f \<Rightarrow> Inl f
         | Inr pdu \<Rightarrow> pdcp_rx_handle_pdu lib bearer rc pdu e)
     | Rx_timer_expiry \<Rightarrow> Inr (if reordering_timer_running e then reordering_callback rc e else ([], e)))"

fun pdcp_rx_run ::
  "'ctx crypto_lib \<Rightarrow> u8 \<Rightarrow> pdcp_rx_config \<Rightarrow> pdcp_tx_config \<Rightarrow> pdcp_entity_tx \<Rightarrow> (u32 \<Rightarrow> bytes) \<Rightarrow> rx_call list \<Rightarrow>
    pdcp_entity_rx \<Rightarrow> (pdcp_rx_event list \<times> pdcp_entity_rx) res" where
  "pdcp_rx_run lib bearer rc tc te src [] e = Inr ([], e)"
| "pdcp_rx_run lib bearer rc tc te src (call # calls) e =
    (case rx_step lib bearer rc tc te src call e of
       Inl f \<Rightarrow> Inl f
     | Inr (evs, e') \<Rightarrow> map_sum id (\<lambda>(evs', e''). (evs @ evs', e'')) (pdcp_rx_run lib bearer rc tc te src calls e'))"

text \<open>A COUNT that arrives is in the window around RX_DELIV and below the maxima, and its SDU is not empty.\<close>

definition rx_call_ok :: "pdcp_rx_config \<Rightarrow> (u32 \<Rightarrow> bytes) \<Rightarrow> rx_call \<Rightarrow> pdcp_entity_rx \<Rightarrow> bool" where
  "rx_call_ok rc src call e \<longleftrightarrow>
    (case call of
       Rx_arrival c \<Rightarrow>
         unat (rx_deliv e) \<le> unat c + unat (pdcp_window_size (pc_sn_size rc)) \<and>
         unat c < unat (rx_deliv e) + unat (pdcp_window_size (pc_sn_size rc)) \<and>
         c \<le> mc_notify (pc_rx_max_count rc) \<and> c < mc_hard (pc_rx_max_count rc) \<and>
         src c \<noteq> [] \<and> length (src c) < 2 ^ 23
     | Rx_timer_expiry \<Rightarrow> True)"

fun rx_calls_ok ::
  "'ctx crypto_lib \<Rightarrow> u8 \<Rightarrow> pdcp_rx_config \<Rightarrow> pdcp_tx_config \<Rightarrow> pdcp_entity_tx \<Rightarrow> (u32 \<Rightarrow> bytes) \<Rightarrow> rx_call list \<Rightarrow>
    pdcp_entity_rx \<Rightarrow> bool" where
  "rx_calls_ok lib bearer rc tc te src [] e \<longleftrightarrow> True"
| "rx_calls_ok lib bearer rc tc te src (call # calls) e \<longleftrightarrow> rx_call_ok rc src call e \<and>
    (case rx_step lib bearer rc tc te src call e of
       Inl _ \<Rightarrow> True
     | Inr (_, e') \<Rightarrow> rx_calls_ok lib bearer rc tc te src calls e')"

definition arrived :: "rx_call list \<Rightarrow> u32 set" where
  "arrived calls = {c. Rx_arrival c \<in> set calls}"

definition rx_fresh :: "pdcp_entity_rx \<Rightarrow> bool" where
  "rx_fresh e \<longleftrightarrow> rx_next e = 0 \<and> rx_deliv e = 0 \<and> reorder_queue e = [] \<and> \<not> reordering_timer_running e"

lemma rx_fresh_ok: "rx_fresh e \<Longrightarrow> rx_ok rc src {} [] e"
  by (simp add: rx_fresh_def rx_ok_def rx_queue_ok_def)

lemma same_sec_peers: "pdcp_peers tc te rc e \<Longrightarrow> same_sec e e' \<Longrightarrow> pdcp_peers tc te rc e'"
  by (simp add: pdcp_peers_def same_sec_def)

lemma handle_pdu_data:
  assumes "pdcp_data_pdu_header_size (pc_sn_size rc) < length pdu"
    "pc_rb_type rc = Drb \<Longrightarrow> pdcp_pdu_get_dc (pdu ! 0) = Pdcp_dc_data"
    "read_data_pdu_header (pc_sn_size rc) pdu = Some sn" "infer_count (pc_sn_size rc) (rx_deliv e) sn = c"
    "c \<le> mc_notify (pc_rx_max_count rc)" "c < mc_hard (pc_rx_max_count rc)"
    "rx_unprotect lib bearer rc pdu c e = Inr (Some sdu)"
  shows "pdcp_rx_handle_pdu lib bearer rc pdu e = Inr (rx_reorder rc c sdu e)"
proof -
  have "pc_rb_type rc = Srb \<or> pdcp_pdu_get_dc (pdu ! 0) = Pdcp_dc_data" "length pdu \<noteq> 0"
    using assms(2) order.strict_trans1 [OF le0 assms(1)] by (cases "pc_rb_type rc", simp_all)
  moreover have "\<not> mc_notify (pc_rx_max_count rc) < c" "\<not> mc_hard (pc_rx_max_count rc) \<le> c"
    "\<not> length pdu \<le> pdcp_data_pdu_header_size (pc_sn_size rc)"
    using assms(1,5,6) by auto
  ultimately show ?thesis
    by (simp only: pdcp_rx_handle_pdu_def pdcp_handle_data_pdu_def assms(3,4,7) Let_def if_False if_True simp_thms
      option.case sum.case append_Nil) (simp split: prod.split)
qed

lemma rx_step_ok:
  assumes ok: "rx_ok rc src A D e" and peers: "pdcp_peers tc te rc e" and lib: "sec_lib_ok lib (tx_sec_cfg te)"
    and call: "rx_call_ok rc src call e"
  obtains ks e' where "rx_step lib bearer rc tc te src call e = Inr (map (Rx_new_sdu \<circ> src) ks, e')"
    "rx_ok rc src (A \<union> arrived [call]) (D @ ks) e'" "pdcp_peers tc te rc e'" "rx_deliv e \<le> rx_deliv e'"
    "call \<noteq> Rx_timer_expiry \<Longrightarrow> pc_t_reordering rc \<noteq> 0 \<Longrightarrow> map unat ks = [unat (rx_deliv e)..<unat (rx_deliv e')]"
proof (cases call)
  case (Rx_arrival c)
  with call have c: "unat (rx_deliv e) \<le> unat c + pdcp_W (pc_sn_size rc)"
      "unat c < unat (rx_deliv e) + pdcp_W (pc_sn_size rc)"
      "c \<le> mc_notify (pc_rx_max_count rc)" "c < mc_hard (pc_rx_max_count rc)" "src c \<noteq> []" "length (src c) < 2 ^ 23"
    by (simp_all add: rx_call_ok_def)
  obtain pdu where pdu: "build_data_pdu lib bearer tc (src c) c te = Inr pdu"
      "pdcp_data_pdu_header_size (pc_sn_size rc) < length pdu"
      "pc_rb_type rc = Drb \<Longrightarrow> pdcp_pdu_get_dc (pdu ! 0) = Pdcp_dc_data"
      "read_data_pdu_header (pc_sn_size rc) pdu = Some (pdcp_compute_sn c (pc_sn_size rc))"
      "rx_unprotect lib bearer rc pdu c e = Inr (Some (src c))"
    by (rule unprotect_protect [OF peers lib c(5,6), where bearer = bearer and c = c]) blast
  have handled: "pdcp_rx_handle_pdu lib bearer rc pdu e = Inr (rx_reorder rc c (src c) e)"
    using handle_pdu_data [OF pdu(2,3,4) infer_count_window [OF c(1,2)] c(3,4) pdu(5)] by blast
  have "c \<noteq> - 1" using c(4) by (metis word_n1_ge leD)
  then obtain ks e' where r: "rx_reorder rc c (src c) e = (map (Rx_new_sdu \<circ> src) ks, e')"
      "rx_ok rc src (insert c A) (D @ ks) e'" "same_sec e e'" "rx_deliv e \<le> rx_deliv e'"
      "pc_t_reordering rc \<noteq> 0 \<Longrightarrow> map unat ks = [unat (rx_deliv e)..<unat (rx_deliv e')]"
    by (rule reorder_ok [OF ok]) blast
  have "A \<union> arrived [call] = insert c A" by (auto simp: arrived_def Rx_arrival)
  with r handled pdu(1) same_sec_peers [OF peers] show thesis
    by (intro that [of ks e']) (simp_all add: rx_step_def Rx_arrival)
next
  case Rx_timer_expiry
  have A: "A \<union> arrived [call] = A" by (simp add: arrived_def Rx_timer_expiry)
  show thesis
  proof (cases "reordering_timer_running e")
    case False
    with ok peers A show thesis by (intro that [of "[]" e]) (simp_all add: rx_step_def Rx_timer_expiry)
  next
    case True
    let ?e = "e\<lparr>reordering_timer_running := False\<rparr>"
    have "rx_queue_ok src A D ?e" "rx_reord ?e = rx_next ?e"
      using ok True by (simp_all add: rx_ok_def rx_queue_ok_def)
    then obtain ks e' where r: "handle_t_reordering_expire rc ?e = (map (Rx_new_sdu \<circ> src) ks, e')"
        "rx_queue_ok src A (D @ ks) e'" "same_sec ?e e'" "rx_deliv ?e \<le> rx_deliv e'" "rx_reord e' = rx_next e'"
        "reordering_timer_running e' = reordering_timer_running ?e"
      by (rule expire_ok)
    moreover have "same_sec e e'" using r(3) by (simp add: same_sec_def)
    ultimately show thesis using True A same_sec_peers [OF peers]
      by (intro that [of ks e']) (simp_all add: rx_step_def Rx_timer_expiry reordering_callback_def rx_ok_def)
  qed
qed

lemma rx_run_ok:
  assumes "rx_ok rc src A D e" "pdcp_peers tc te rc e" "sec_lib_ok lib (tx_sec_cfg te)"
    "rx_calls_ok lib bearer rc tc te src calls e"
  shows "\<exists>ks e'. pdcp_rx_run lib bearer rc tc te src calls e = Inr (map (Rx_new_sdu \<circ> src) ks, e') \<and>
    rx_ok rc src (A \<union> arrived calls) (D @ ks) e' \<and>
    (Rx_timer_expiry \<notin> set calls \<and> pc_t_reordering rc \<noteq> 0 \<longrightarrow>
      rx_deliv e \<le> rx_deliv e' \<and> map unat ks = [unat (rx_deliv e)..<unat (rx_deliv e')])"
  using assms
proof (induction calls arbitrary: A D e)
  case Nil
  then show ?case by (auto simp: arrived_def intro!: exI [of _ "[]"])
next
  case (Cons call calls)
  from Cons.prems(4) have call: "rx_call_ok rc src call e" by simp
  obtain ks e1 where e1: "rx_step lib bearer rc tc te src call e = Inr (map (Rx_new_sdu \<circ> src) ks, e1)"
      "rx_ok rc src (A \<union> arrived [call]) (D @ ks) e1" "pdcp_peers tc te rc e1" "rx_deliv e \<le> rx_deliv e1"
      "call \<noteq> Rx_timer_expiry \<Longrightarrow> pc_t_reordering rc \<noteq> 0 \<Longrightarrow> map unat ks = [unat (rx_deliv e)..<unat (rx_deliv e1)]"
    by (rule rx_step_ok [OF Cons.prems(1-3) call, where bearer = bearer]) blast
  from Cons.prems(4) e1(1) have "rx_calls_ok lib bearer rc tc te src calls e1" by simp
  from Cons.IH [OF e1(2,3) Cons.prems(3) this] obtain ks' e' where e': 
      "pdcp_rx_run lib bearer rc tc te src calls e1 = Inr (map (Rx_new_sdu \<circ> src) ks', e')"
      "rx_ok rc src (A \<union> arrived [call] \<union> arrived calls) ((D @ ks) @ ks') e'"
      "Rx_timer_expiry \<notin> set calls \<and> pc_t_reordering rc \<noteq> 0 \<Longrightarrow>
        rx_deliv e1 \<le> rx_deliv e' \<and> map unat ks' = [unat (rx_deliv e1)..<unat (rx_deliv e')]"
    by blast
  have "A \<union> arrived [call] \<union> arrived calls = A \<union> arrived (call # calls)" by (auto simp: arrived_def)
  moreover have "rx_deliv e \<le> rx_deliv e' \<and> map unat (ks @ ks') = [unat (rx_deliv e)..<unat (rx_deliv e')]"
    if "Rx_timer_expiry \<notin> set (call # calls) \<and> pc_t_reordering rc \<noteq> 0"
    using that e1(4,5) e'(3) upt_add_eq_append [of "unat (rx_deliv e)" "unat (rx_deliv e1)"
      "unat (rx_deliv e') - unat (rx_deliv e1)"] by (auto simp: word_le_nat_alt)
  ultimately show ?case using e1(1) e'(1,2) by (intro exI [of _ "ks @ ks'"] exI [of _ e']) simp
qed

text \<open>Arrivals that all are in the first window are always in the window around RX_DELIV.\<close>

lemma rx_deliv_bound:
  assumes "rx_ok rc src A D e" "\<forall>c \<in> A. unat c < n"
  shows "unat (rx_deliv e) \<le> n"
proof -
  have le: "unat (rx_deliv e) \<le> unat (rx_next e)" and "rx_next e = 0 \<or> rx_next e - 1 \<in> A"
    using assms(1) by (simp_all add: rx_ok_def rx_queue_ok_def word_le_nat_alt)
  then consider "rx_next e = 0" | "rx_next e \<noteq> 0" "unat (rx_next e - 1) < n" using assms(2) by blast
  then have "unat (rx_next e) \<le> n"
    by cases (simp, simp add: unat_minus_one unat_gt_0)
  with le show ?thesis by linarith
qed

lemma rx_calls_ok_short:
  assumes "rx_ok rc src A D e" "pdcp_peers tc te rc e" "sec_lib_ok lib (tx_sec_cfg te)"
    "\<forall>c \<in> A \<union> arrived calls. unat c < pdcp_W (pc_sn_size rc) \<and> c \<le> mc_notify (pc_rx_max_count rc) \<and>
      c < mc_hard (pc_rx_max_count rc) \<and> src c \<noteq> [] \<and> length (src c) < 2 ^ 23"
  shows "rx_calls_ok lib bearer rc tc te src calls e"
  using assms
proof (induction calls arbitrary: A D e)
  case (Cons call calls)
  from Cons.prems(4) have arr: "call = Rx_arrival c \<Longrightarrow> unat c < pdcp_W (pc_sn_size rc) \<and>
      c \<le> mc_notify (pc_rx_max_count rc) \<and> c < mc_hard (pc_rx_max_count rc) \<and> src c \<noteq> [] \<and> length (src c) < 2 ^ 23" for c
    by (auto simp: arrived_def)
  have "unat (rx_deliv e) \<le> pdcp_W (pc_sn_size rc)"
    using Cons.prems(1,4) by (intro rx_deliv_bound) auto
  with arr have call: "rx_call_ok rc src call e"
    by (auto simp: rx_call_ok_def split: rx_call.split)
  obtain ks e1 where e1: "rx_step lib bearer rc tc te src call e = Inr (map (Rx_new_sdu \<circ> src) ks, e1)"
      "rx_ok rc src (A \<union> arrived [call]) (D @ ks) e1" "pdcp_peers tc te rc e1"
    by (rule rx_step_ok [OF Cons.prems(1-3) call, where bearer = bearer]) blast
  have "A \<union> arrived (call # calls) = A \<union> arrived [call] \<union> arrived calls" by (auto simp: arrived_def)
  with Cons.IH [OF e1(2,3) Cons.prems(3)] Cons.prems(4) e1(1) call show ?case by simp
qed simp

section \<open>An example bearer\<close>

text \<open>A library whose key stream is constant and whose block function is the identity, and a bearer on it.\<close>

definition example_lib :: "bytes crypto_lib" where
  "example_lib = \<lparr>aes_setkey_enc = (\<lambda>k. (0, k)), aes_crypt_ecb = (\<lambda>ctx b. take 16 (b @ replicate 16 0)),
     aes_crypt_ctr = (\<lambda>ctx (off, nonce, blk) b. (0, ((off + 1) mod 16, nonce, blk), b XOR 0x5a)),
     hmac_sha256 = (\<lambda>k m. replicate 32 0)\<rparr>"

definition example_sec :: sec_128_as_config where
  "example_sec = \<lparr>sec_domain_128 = Up_domain, k_128_int = replicate 16 1, k_128_enc = replicate 16 2,
     integ_algo_128 = Nia2, cipher_algo_128 = Nea2\<rparr>"

definition example_tx_config :: pdcp_tx_config where
  "example_tx_config = \<lparr>pc_rb_type = Drb, pc_rlc_mode = Pdcp_um, pc_sn_size = Sn_size12bits, pc_direction = Downlink,
     pc_discard_timer = -1, pc_status_report_required = False, pc_tx_max_count = pdcp_tx_default_max_count\<rparr>"

definition example_rx_config :: pdcp_rx_config where
  "example_rx_config = \<lparr>pc_rb_type = Drb, pc_rlc_mode = Pdcp_um, pc_sn_size = Sn_size12bits, pc_direction = Downlink,
     pc_t_reordering = 50, pc_rx_max_count = pdcp_rx_default_max_count\<rparr>"

definition example_tx :: pdcp_entity_tx where
  "example_tx = \<lparr>tx_next = 0, tx_sec_cfg = example_sec, tx_integrity_on = True, tx_ciphering_on = True,
     tx_max_count_notified = False, tx_max_count_overflow = False, discard_timers_map = []\<rparr>"

definition example_rx :: pdcp_entity_rx where
  "example_rx = pdcp_entity_rx_init\<lparr>rx_sec_cfg := example_sec, rx_integrity_on := True, rx_ciphering_on := True\<rparr>"

lemma example_bearer:
  "sec_lib_ok example_lib (tx_sec_cfg example_tx)"
  "pdcp_peers example_tx_config example_tx example_rx_config example_rx" "rx_fresh example_rx"
proof -
  have "ctr_law example_lib" by (auto simp: ctr_law_def example_lib_def)
  moreover have "ecb_law example_lib" by (auto simp: ecb_law_def example_lib_def)
  ultimately show "sec_lib_ok example_lib (tx_sec_cfg example_tx)"
    by (simp add: sec_lib_ok_def) (simp add: example_lib_def)
  show "pdcp_peers example_tx_config example_tx example_rx_config example_rx"
    by (simp add: pdcp_peers_def example_tx_config_def example_rx_config_def example_tx_def example_rx_def)
  show "rx_fresh example_rx" by (simp add: rx_fresh_def example_rx_def pdcp_entity_rx_init_def)
qed

section \<open>Properties\<close>

text \<open>C4: The PDUs of a transmitting PDCP entity arrive in any order, some of them never and some several times, and
  t-Reordering expires at any time, each COUNT that arrives being in the window around RX_DELIV.  The receiving entity
  with the same configuration and keys delivers the original SDUs, in strictly ascending order of COUNT, hence none
  twice, and only those that arrived.  As long as t-Reordering does not expire there are no gaps: the SDUs delivered are
  those of the COUNTs from zero on, up to the first COUNT that did not arrive.\<close>

theorem pdcp_rx_in_order:
  assumes "pdcp_peers tc te rc e" "sec_lib_ok lib (tx_sec_cfg te)" "rx_fresh e"
    "rx_calls_ok lib bearer rc tc te src calls e"
  shows "\<exists>D e'. pdcp_rx_run lib bearer rc tc te src calls e = Inr (map (Rx_new_sdu \<circ> src) D, e') \<and>
    sorted_wrt (<) D \<and> set D \<subseteq> arrived calls \<and>
    (Rx_timer_expiry \<notin> set calls \<and> pc_t_reordering rc \<noteq> 0 \<longrightarrow>
      map unat D = [0..<unat (rx_deliv e')] \<and> rx_deliv e' \<notin> arrived calls)"
proof -
  from rx_run_ok [OF rx_fresh_ok [OF assms(3)] assms(1,2,4)] obtain D e' where D:
      "pdcp_rx_run lib bearer rc tc te src calls e = Inr (map (Rx_new_sdu \<circ> src) D, e')"
      "rx_ok rc src (arrived calls) D e'"
      "Rx_timer_expiry \<notin> set calls \<and> pc_t_reordering rc \<noteq> 0 \<Longrightarrow> map unat D = [unat (rx_deliv e)..<unat (rx_deliv e')]"
    by auto
  have "rx_deliv e' \<notin> fst ` set (reorder_queue e')" using D(2) by (auto simp: rx_ok_def rx_queue_ok_def)
  then have "sorted_wrt (<) D" "set D \<subseteq> arrived calls" "rx_deliv e' \<notin> arrived calls"
    using D(2) unfolding rx_ok_def rx_queue_ok_def by blast+
  moreover have "unat (rx_deliv e) = 0" using assms(3) by (simp add: rx_fresh_def)
  ultimately show ?thesis using D(1,3) by auto
qed

theorem pdcp_rx_in_order_witness:
  "\<exists>D e'. pdcp_rx_run example_lib 3 example_rx_config example_tx_config example_tx (\<lambda>c. [ucast c, 7])
      [Rx_arrival 1, Rx_arrival 0, Rx_arrival 1, Rx_arrival 3] example_rx = Inr (map (Rx_new_sdu \<circ> (\<lambda>c :: u32. [ucast c, 7])) D, e') \<and>
    sorted_wrt (<) D \<and> set D \<subseteq> {0, 1, 3} \<and> map unat D = [0..<unat (rx_deliv e')] \<and> rx_deliv e' \<notin> {0, 1, 3}"
proof -
  let ?calls = "[Rx_arrival 1, Rx_arrival 0, Rx_arrival 1, Rx_arrival 3]"
  have a: "arrived ?calls = {0, 1, 3}" by (auto simp: arrived_def)
  have "rx_calls_ok example_lib 3 example_rx_config example_tx_config example_tx (\<lambda>c. [ucast c, 7]) ?calls example_rx"
    by (rule rx_calls_ok_short [OF rx_fresh_ok [OF example_bearer(3)] example_bearer(2,1)])
      (simp add: a example_rx_config_def pdcp_window_size_def pdcp_rx_default_max_count_def)
  note run = pdcp_rx_in_order [OF example_bearer(2,1,3) this, unfolded a]
  have no_expiry: "(Rx_timer_expiry \<notin> set ?calls \<and> pc_t_reordering example_rx_config \<noteq> 0) = True"
    by (simp add: example_rx_config_def)
  show ?thesis using run by (simp only: no_expiry simp_thms)
qed

text \<open>C32: While RX_DELIV is in the first half of the SN space, any data PDU with a 12-bit SN at least a window above it is
  given a COUNT near the maximum, whatever its contents: before the integrity of the PDU is looked at, the receiver
  reports that the maximum COUNT is near, and, if the COUNT reaches the hard limit, a protocol failure.  Nothing is
  authenticated, so one forged PDU is enough.\<close>

theorem pdcp_unverified_pdu_reports_failure:
  assumes "pc_sn_size rc = Sn_size12bits" "pc_rb_type rc = Srb \<or> pdcp_pdu_get_dc (pdu ! 0) = Pdcp_dc_data" "2 < length pdu"
    "read_data_pdu_header Sn_size12bits pdu = Some sn" "unat (rx_deliv e) + 2048 \<le> unat sn"
    "unat (mc_notify (pc_rx_max_count rc)) < 0xfffff800" "unat (mc_hard (pc_rx_max_count rc)) \<le> 0xfffff000 + unat sn"
    "\<not> rx_max_count_notified e" "\<not> rx_max_count_overflow e"
  shows "pdcp_rx_handle_pdu lib bearer rc pdu e = Inr ([Rx_max_count_reached, Rx_protocol_failure],
    e\<lparr>rx_max_count_notified := True, rx_max_count_overflow := True\<rparr>)"
proof -
  have sn: "unat sn < 4096"
  proof -
    have "sn = push_bit 8 (ucast (pdu ! 0 AND 0x0f)) OR ucast (pdu ! 1 AND 0xff)"
      using assms(3,4) by (simp add: read_data_pdu_header_def pdcp_data_pdu_header_size_def)
    moreover have "bit (push_bit 8 (ucast (pdu ! 0 AND 0x0f)) OR ucast (pdu ! 1 AND 0xff) :: u32) i \<Longrightarrow> i < 12" for i
      unfolding mask_lits by (auto simp: bit_simps)
    ultimately have "bit sn i \<Longrightarrow> i < 12" for i by blast
    then have "take_bit 12 sn = sn" by (intro bit_word_eqI) (auto simp: bit_take_bit_iff)
    then have "take_bit 12 (unat sn) = unat sn" by (metis unsigned_take_bit_eq)
    then show ?thesis using take_bit_nat_less_exp [of 12 "unat sn"] by simp
  qed
  let ?c = "infer_count Sn_size12bits (rx_deliv e) sn"
  have c: "unat ?c = 0xfffff000 + unat sn"
    using assms(5) sn by (intro infer_count_wraps) (simp_all add: pdcp_window_size_def)
  have "mc_notify (pc_rx_max_count rc) < ?c" "mc_hard (pc_rx_max_count rc) \<le> ?c"
    using assms(5-7) c by (simp_all add: word_less_nat_alt word_le_nat_alt)
  moreover have "\<not> length pdu \<le> pdcp_data_pdu_header_size Sn_size12bits"
    using assms(3) by (simp add: pdcp_data_pdu_header_size_def)
  ultimately have "pdcp_handle_data_pdu lib bearer rc pdu e = Inr ([Rx_max_count_reached, Rx_protocol_failure],
      e\<lparr>rx_max_count_notified := True, rx_max_count_overflow := True\<rparr>)"
    using assms(8,9) by (simp only: pdcp_handle_data_pdu_def assms(1,4) Let_def option.case if_True if_False simp_thms) simp
  moreover have "length pdu \<noteq> 0" using assms(3) by linarith
  ultimately show ?thesis using assms(2) by (simp add: pdcp_rx_handle_pdu_def)
qed

theorem pdcp_unverified_pdu_reports_failure_witness:
  "pdcp_rx_handle_pdu example_lib 3 example_rx_config [0x8f, 0xff, 0] example_rx =
   Inr ([Rx_max_count_reached, Rx_protocol_failure],
     example_rx\<lparr>rx_max_count_notified := True, rx_max_count_overflow := True\<rparr>)"
  by (rule pdcp_unverified_pdu_reports_failure [of _ _ 4095])
    (simp_all add: example_rx_config_def example_rx_def pdcp_entity_rx_init_def pdcp_pdu_get_dc_def
      read_data_pdu_header_def pdcp_data_pdu_header_size_def pdcp_rx_default_max_count_def)

text \<open>C33: On a signalling bearer a PDU of five bytes is too short to hold the header, the authentication code and any
  data, but it is not dropped: the code is cut off all the same, and removing the header from the single byte left
  violates the precondition of the buffer, as long as integrity protection is not active.\<close>

theorem pdcp_short_srb_pdu_fails:
  assumes "pc_rb_type rc = Srb" "pc_sn_size rc = Sn_size12bits" "length pdu = 5" "\<not> rx_integrity_on e"
    "\<not> rx_ciphering_on e" "read_data_pdu_header Sn_size12bits pdu = Some sn"
    "infer_count Sn_size12bits (rx_deliv e) sn < mc_hard (pc_rx_max_count rc)"
  shows "pdcp_rx_handle_pdu lib bearer rc pdu e = Inl Assertion_failed"
  using assms
  by (simp add: pdcp_rx_handle_pdu_def pdcp_handle_data_pdu_def rx_unprotect_def extract_mac_def discard_data_header_def
    sec_mac_len_def pdcp_data_pdu_header_size_def Let_def not_le)

theorem pdcp_short_srb_pdu_fails_witness:
  "pdcp_rx_handle_pdu example_lib 0 (get_rx_config pdcp_make_default_srb_config) [0, 0, 1, 2, 3] pdcp_entity_rx_init =
    Inl Assertion_failed"
  by (rule pdcp_short_srb_pdu_fails [where sn = 0])
    (simp_all add: get_rx_config_def pdcp_make_default_srb_config_def pdcp_entity_rx_init_def read_data_pdu_header_def
      pdcp_data_pdu_header_size_def infer_count_def pdcp_compute_sn_def pdcp_compute_hfn_def pdcp_compute_count_def
      pdcp_window_size_def pdcp_rx_default_max_count_def pdcp_sn_size_to_uint_def)

end
