(* ===== verification/Pdcp.thy ===== *)
theory Pdcp
  imports Pdcp_Rx_Order
begin

text \<open>
  A PDCP entity joins a transmitting and a receiving one (\<open>pdcp_entity_impl.h\<close>): status reports received go to
  the transmitting side, and the transmitting side asks the receiving one for the reports it sends.  The theorem
  \<open>pdcp_status_report_exchange\<close> follows a report from the receiver that compiles it to the transmitter that reads
  it.
\<close>

section \<open>The entity\<close>

datatype pdcp_event = Pdcp_tx_event pdcp_tx_event | Pdcp_rx_event pdcp_rx_event

record pdcp_entity_impl =
  pdcp_tx_side :: pdcp_entity_tx
  pdcp_rx_side :: pdcp_entity_rx

definition pdcp_entity_impl_init :: "pdcp_config \<Rightarrow> pdcp_entity_impl res" where
  "pdcp_entity_impl_init cfg =
    map_sum id (\<lambda>tx. \<lparr>pdcp_tx_side = tx, pdcp_rx_side = pdcp_entity_rx_init\<rparr>) (pdcp_entity_tx_init (get_tx_config cfg))"

text \<open>A status report is handled by the transmitting side at once; the other events leave the entity.\<close>

fun pdcp_route_events ::
  "pdcp_tx_config \<Rightarrow> pdcp_rx_event list \<Rightarrow> pdcp_entity_tx \<Rightarrow> (pdcp_event list \<times> pdcp_entity_tx) res" where
  "pdcp_route_events cfg [] tx = Inr ([], tx)"
| "pdcp_route_events cfg (ev # evs) tx =
    (case (case ev of
             Rx_status_report r \<Rightarrow> map_sum id (\<lambda>(es, tx'). (map Pdcp_tx_event es, tx')) (handle_status_report cfg r tx)
           | _ \<Rightarrow> Inr ([Pdcp_rx_event ev], tx)) of
       Inl f \<Rightarrow> Inl f
     | Inr (es, tx') \<Rightarrow> map_sum id (\<lambda>(es', tx''). (es @ es', tx'')) (pdcp_route_events cfg evs tx'))"

definition pdcp_handle_pdu ::
  "'ctx crypto_lib \<Rightarrow> u8 \<Rightarrow> pdcp_config \<Rightarrow> bytes \<Rightarrow> pdcp_entity_impl \<Rightarrow> (pdcp_event list \<times> pdcp_entity_impl) res" where
  "pdcp_handle_pdu lib bearer cfg pdu e =
    (case pdcp_rx_handle_pdu lib bearer (get_rx_config cfg) pdu (pdcp_rx_side e) of
       Inl f \<Rightarrow> Inl f
     | Inr (evs, rx) \<Rightarrow>
        map_sum id (\<lambda>(es, tx). (es, \<lparr>pdcp_tx_side = tx, pdcp_rx_side = rx\<rparr>))
          (pdcp_route_events (get_tx_config cfg) evs (pdcp_tx_side e)))"

definition pdcp_handle_sdu ::
  "'ctx crypto_lib \<Rightarrow> u8 \<Rightarrow> pdcp_config \<Rightarrow> bytes \<Rightarrow> pdcp_entity_impl \<Rightarrow> (pdcp_event list \<times> pdcp_entity_impl) res" where
  "pdcp_handle_sdu lib bearer cfg sdu e =
    map_sum id (\<lambda>(evs, tx). (map Pdcp_tx_event evs, e\<lparr>pdcp_tx_side := tx\<rparr>))
      (pdcp_tx_handle_sdu lib bearer (get_tx_config cfg) sdu (pdcp_tx_side e))"

definition pdcp_data_recovery ::
  "'ctx crypto_lib \<Rightarrow> u8 \<Rightarrow> pdcp_config \<Rightarrow> pdcp_entity_impl \<Rightarrow> pdcp_event list res" where
  "pdcp_data_recovery lib bearer cfg e =
    (case compile_status_report (pdcp_rx_side e) of
       Inl f \<Rightarrow> Inl f
     | Inr r \<Rightarrow> map_sum id (map Pdcp_tx_event) (data_recovery lib bearer (get_tx_config cfg) r (pdcp_tx_side e)))"

section \<open>The bits of a status report\<close>

text \<open>Unused bits of the last byte are zero.\<close>

lemma enc_bits_zero_padded:
  assumes "enc_ok buf offset"
  obtains n where "bytes_bits buf = enc_bits buf offset @ replicate n False"
proof (cases "offset = 0")
  case True
  then show ?thesis using that [of 0] by (simp add: enc_bits_def)
next
  case False
  with assms have buf: "buf = butlast buf @ [last buf]" "offset < 8" "take_bit (8 - offset) (last buf) = 0"
    by (simp_all add: enc_ok_def)
  have "bytes_bits buf = bytes_bits (butlast buf) @ val_bits 8 (last buf)"
    by (subst buf(1)) simp
  moreover have "val_bits 8 (last buf) = take offset (val_bits 8 (last buf)) @ replicate (8 - offset) False"
  proof (rule nth_equalityI)
    fix i assume i: "i < length (val_bits 8 (last buf))"
    have "\<not> bit (last buf) j" if "j < 8 - offset" for j
      using buf(3) that bit_take_bit_iff [of "8 - offset" "last buf" j] by simp
    with i buf(2) show "val_bits 8 (last buf) ! i = (take offset (val_bits 8 (last buf)) @ replicate (8 - offset) False) ! i"
      by (simp add: nth_append)
  qed (use buf(2) in simp)
  ultimately show ?thesis using that False by (simp add: enc_bits_def)
qed

lemma status_report_loop_bits:
  assumes "encoder_ok enc"
  shows "\<exists>enc'. status_report_loop q i n enc = Inr enc' \<and> encoder_ok enc' \<and>
    encoder_bits enc' = encoder_bits enc @ map (\<lambda>k. om_lookup q (of_nat k) = None) [unat i..<unat n]"
  using assms
proof (induction "unat n - unat i" arbitrary: i enc)
  case 0
  then have "\<not> i < n" by (simp add: word_less_nat_alt)
  then have "status_report_loop q i n enc = Inr enc" by (subst status_report_loop.simps) simp
  with 0 show ?case by simp
next
  case (Suc k)
  then have lt: "i < n" by (simp add: word_less_nat_alt)
  then have i1: "unat (i + 1) = unat i + 1"
    using unsigned_less [of n, where 'a = nat] by (simp add: word_less_nat_alt unat_add_fits)
  let ?b = "(if om_lookup q i \<noteq> None then 0 else 1) :: u64"
  obtain enc1 where enc1: "pack ?b 1 enc = Inr enc1" "encoder_ok enc1" "encoder_bits enc1 = encoder_bits enc @ val_bits 1 ?b"
    using pack_bits [OF Suc.prems, of 1 ?b] by auto
  have "k = unat n - unat (i + 1)" using Suc.hyps(2) i1 by simp
  from Suc.hyps(1) [OF this enc1(2)] obtain enc' where enc': "status_report_loop q (i + 1) n enc1 = Inr enc'"
      "encoder_ok enc'" "encoder_bits enc' = encoder_bits enc1 @ map (\<lambda>k. om_lookup q (of_nat k) = None) [unat (i + 1)..<unat n]"
    by blast
  have "status_report_loop q i n enc = Inr enc'"
    using lt enc1(1) enc'(1) status_report_loop.simps [of q i n enc] by (simp only: if_True sum.case)
  moreover have "val_bits 1 ?b = [om_lookup q i = None]" by (simp add: val_bits_def)
  moreover have "[unat i..<unat n] = unat i # [unat (i + 1)..<unat n]"
    using lt i1 by (simp add: word_less_nat_alt upt_conv_Cons)
  ultimately show ?case using enc'(2,3) enc1(3) by simp
qed

lemma status_bitmap_loop_bits:
  assumes "decoder_ok d"
  shows "\<exists>evs. status_bitmap_loop cfg d fmc m = Inr (evs, filter (\<lambda>(k, _).
    \<not> (\<exists>j < length (decoder_bits d). decoder_bits d ! j \<and> k = fmc + 1 + of_nat j)) m)"
  using assms
proof (induction "decoder_bits d" arbitrary: d fmc m)
  case Nil
  obtain v d' where "unpack 1 d = Inr (False, v :: u32, d')"
  proof -
    have "length (decoder_bits d) < 1" "(1 :: nat) \<le> 32" "1 \<le> LENGTH(32)" by (simp_all flip: Nil.hyps)
    from unpack_short [OF Nil.prems this] that show thesis by blast
  qed
  then have "status_bitmap_loop cfg d fmc m = Inr ([], m)" by (subst status_bitmap_loop.simps) simp
  moreover have "length (decoder_bits d) = 0" by (simp flip: Nil.hyps)
  ultimately show ?case by simp
next
  case (Cons b bs)
  note bits = Cons.hyps(2) [symmetric]
  obtain d' where d': "unpack 1 d = Inr (True, bits_val [b] :: u32, d')" "decoder_ok d'" "decoder_bits d' = bs"
  proof -
    have "1 \<le> length (decoder_bits d)" "(1 :: nat) \<le> 32" "1 \<le> LENGTH(32)" by (simp_all add: bits)
    then obtain d1 where "unpack 1 d = Inr (True, bits_val (take 1 (decoder_bits d)) :: u32, d1)" "decoder_ok d1"
        "decoder_bits d1 = drop 1 (decoder_bits d)"
      by (rule unpack_bits [OF Cons.prems])
    then show thesis by (intro that [of d1]) (simp_all add: bits)
  qed
  have b: "(bits_val [x] :: u32) = 1 \<longleftrightarrow> x" for x by (simp add: bits_val_def)
  let ?m = "if b then om_erase (fmc + 1) m else m"
  from Cons.hyps(1) [OF d'(3) [symmetric] d'(2), of "fmc + 1" ?m] obtain evs where
    evs: "status_bitmap_loop cfg d' (fmc + 1) ?m = Inr (evs, filter (\<lambda>(k, _).
      \<not> (\<exists>j < length bs. bs ! j \<and> k = fmc + 1 + 1 + of_nat j)) ?m)"
    unfolding d'(3) by blast
  have ex: "(\<exists>j < length (b # bs). (b # bs) ! j \<and> k = fmc + 1 + of_nat j) \<longleftrightarrow>
      b \<and> k = fmc + 1 \<or> (\<exists>j < length bs. bs ! j \<and> k = fmc + 1 + 1 + of_nat j)" for k
    unfolding Ex_less_Suc2 length_Cons by (simp add: algebra_simps)
  have "filter (\<lambda>(k, _). \<not> (\<exists>j < length bs. bs ! j \<and> k = fmc + 1 + 1 + of_nat j)) ?m =
      filter (\<lambda>(k, _). \<not> (\<exists>j < length (b # bs). (b # bs) ! j \<and> k = fmc + 1 + of_nat j)) m"
    unfolding ex by (cases b) (simp_all add: om_erase_def case_prod_beta' conj_commute)
  moreover have "status_bitmap_loop cfg d fmc m =
      (if b then map_sum id (\<lambda>(evs, m'). (Tx_discard_pdu (pdcp_compute_sn (fmc + 1) (pc_sn_size cfg)) # evs, m'))
         (status_bitmap_loop cfg d' (fmc + 1) ?m) else status_bitmap_loop cfg d' (fmc + 1) ?m)"
    by (subst status_bitmap_loop.simps) (cases b, simp_all only: d'(1) b sum.case prod.case Let_def simp_thms if_True if_False)
  ultimately show ?case unfolding bits using evs by (cases b) simp_all
qed

section \<open>The exchange of a report\<close>

definition status_max_bits :: nat where
  "status_max_bits = (9000 - 5) * 8"

text \<open>The COUNTs the bitmap of a report covers.\<close>

definition pdcp_status_covers :: "pdcp_entity_rx \<Rightarrow> u32 \<Rightarrow> bool" where
  "pdcp_status_covers re k \<longleftrightarrow> rx_deliv re < k \<and> k < rx_next re \<and> unat k - unat (rx_deliv re) \<le> status_max_bits"

lemma compile_status_report_bits:
  assumes "rx_deliv re \<noteq> - 1"
  obtains r n m where "compile_status_report re = Inr r"
    "bytes_bits r = replicate 8 False @ val_bits 32 (rx_deliv re) @
      map (\<lambda>k. om_lookup (reorder_queue re) (of_nat k) = None) [unat (rx_deliv re) + 1..<m] @ replicate n False"
    "\<And>k. unat (rx_deliv re) < unat k \<and> unat k < m \<longleftrightarrow> pdcp_status_covers re k" "m < 2 ^ 32"
proof -
  let ?d = "rx_deliv re" let ?fields = "[(0, 1), (0, 3), (0, 4), (ucast ?d, 32)] :: (u64 \<times> nat) list"
  let ?max = "(pdcp_control_pdu_max_size - 5) * 8"
  let ?stop = "if ?d + 1 < rx_next re \<and> ?max < rx_next re - (?d + 1) then ?d + 1 + ?max else rx_next re"
  have d1: "unat (?d + 1) = unat ?d + 1" by (rule unat_next [OF assms])
  have mx: "unat ?max = 71960" by (simp add: pdcp_control_pdu_max_size_def)
  obtain enc where enc: "pack_fields ?fields (bit_encoder_init []) = Inr enc" "encoder_ok enc" "encoder_bits enc = field_bits ?fields"
    using pack_fields_bits [OF encoder_init(1) [of "[]"], of ?fields] by auto
  obtain enc' where enc': "status_report_loop (reorder_queue re) (?d + 1) ?stop enc = Inr enc'" "encoder_ok enc'"
      "encoder_bits enc' = encoder_bits enc @ map (\<lambda>k. om_lookup (reorder_queue re) (of_nat k) = None) [unat (?d + 1)..<unat ?stop]"
    using status_report_loop_bits [OF enc(2)] by blast
  obtain n where n: "bytes_bits (enc_buf enc') = encoder_bits enc' @ replicate n False"
    by (rule enc_bits_zero_padded [OF enc'(2)])
  have "compile_status_report re = Inr (enc_buf enc')"
    unfolding compile_status_report_def enc(1) sum.case Let_def enc'(1) by simp
  moreover have "field_bits ?fields = replicate 8 False @ val_bits 32 ?d"
    by (simp add: val_bits_def numeral_eq_Suc) (simp add: bit_simps)
  then have "bytes_bits (enc_buf enc') = replicate 8 False @ val_bits 32 ?d @
      map (\<lambda>k. om_lookup (reorder_queue re) (of_nat k) = None) [unat ?d + 1..<unat ?stop] @ replicate n False"
    using n enc'(3) enc(3) d1 by simp
  moreover have "unat ?d < unat k \<and> unat k < unat ?stop \<longleftrightarrow> pdcp_status_covers re k" for k
  proof (cases "?d + 1 < rx_next re \<and> ?max < rx_next re - (?d + 1)")
    case True
    then have "?d + 1 \<le> rx_next re" by (blast intro: less_imp_le)
    then have "unat (rx_next re - (?d + 1)) = unat (rx_next re) - (unat ?d + 1)" by (simp add: unat_sub d1)
    with True mx have nx: "unat ?d + 1 + 71960 < unat (rx_next re)" by (simp add: word_less_nat_alt d1) linarith
    have "unat (rx_next re) < 2 ^ 32" using unsigned_less [of "rx_next re", where 'a = nat] by simp
    then have "unat (?d + 1) + unat ?max < 2 ^ 32" using nx by (simp only: d1 mx)
    then have "unat (?d + 1 + ?max) = unat ?d + 1 + 71960" by (simp only: unat_add_fits d1 mx)
    with True nx show ?thesis by (auto simp: pdcp_status_covers_def status_max_bits_def word_less_nat_alt)
  next
    case False
    have "unat (rx_next re) - (unat ?d + 1) \<le> 71960" if "?d + 1 < rx_next re"
      using that False mx by (simp add: word_less_nat_alt unat_sub word_le_nat_alt d1)
    with False show ?thesis by (auto simp: pdcp_status_covers_def status_max_bits_def word_less_nat_alt d1)
  qed
  moreover have "unat ?stop < 2 ^ 32" using unsigned_less [of ?stop, where 'a = nat] by simp
  ultimately show thesis by (rule that)
qed

lemma unpack_prefix:
  assumes "decoder_ok d" "decoder_bits d = val_bits n v @ bs" "n \<le> 32"
  obtains d' where "unpack n d = Inr (True, take_bit n v :: u32, d')" "decoder_ok d'" "decoder_bits d' = bs"
proof -
  have "n \<le> length (decoder_bits d)" "n \<le> LENGTH(32)" using assms(2,3) by simp_all
  then obtain d' where "unpack n d = Inr (True, bits_val (take n (decoder_bits d)) :: u32, d')" "decoder_ok d'"
      "decoder_bits d' = drop n (decoder_bits d)"
    using unpack_bits [OF assms(1) _ assms(3), where 'a = 32] by blast
  then show thesis using that assms(2) by (simp add: bits_val_val_bits)
qed

lemma handle_status_report_bits:
  assumes "bytes_bits r = replicate 8 False @ val_bits 32 (fmc :: u32) @ bs"
  shows "\<exists>evs. handle_status_report tc r te = Inr (evs, te\<lparr>discard_timers_map :=
    filter (\<lambda>(k, _). fmc \<le> k \<and> \<not> (\<exists>j < length bs. bs ! j \<and> k = fmc + 1 + of_nat j)) (discard_timers_map te)\<rparr>)"
proof -
  let ?d0 = "bit_decoder_init r"
  have z: "replicate 8 False = val_bits 1 (0 :: u32) @ val_bits 3 (0 :: u32) @ val_bits 4 (0 :: u32)"
    by (simp add: val_bits_def numeral_eq_Suc)
  have ok: "decoder_ok ?d0" "decoder_bits ?d0 = val_bits 1 (0 :: u32) @ val_bits 3 (0 :: u32) @ val_bits 4 (0 :: u32) @ val_bits 32 fmc @ bs"
    by (simp_all add: assms z)
  obtain d1 where d1: "unpack 1 ?d0 = Inr (True, take_bit 1 0 :: u32, d1)" "decoder_ok d1"
      "decoder_bits d1 = val_bits 3 (0 :: u32) @ val_bits 4 (0 :: u32) @ val_bits 32 fmc @ bs"
    by (rule unpack_prefix [OF ok]) simp_all
  obtain d2 where d2: "unpack 3 d1 = Inr (True, take_bit 3 0 :: u32, d2)" "decoder_ok d2"
      "decoder_bits d2 = val_bits 4 (0 :: u32) @ val_bits 32 fmc @ bs"
    by (rule unpack_prefix [OF d1(2,3)]) simp_all
  obtain d3 where d3: "unpack 4 d2 = Inr (True, take_bit 4 0 :: u32, d3)" "decoder_ok d3" "decoder_bits d3 = val_bits 32 fmc @ bs"
    by (rule unpack_prefix [OF d2(2,3)]) simp_all
  obtain d4 where d4: "unpack 32 d3 = Inr (True, take_bit 32 fmc :: u32, d4)" "decoder_ok d4" "decoder_bits d4 = bs"
    by (rule unpack_prefix [OF d3(2,3)]) simp_all
  have fmc: "take_bit 32 fmc = fmc" by (rule bit_word_eqI) (simp add: bit_take_bit_iff)
  obtain evs where evs: "status_bitmap_loop tc d4 fmc (filter (\<lambda>(k, _). \<not> k < fmc) (discard_timers_map te)) =
      Inr (evs, filter (\<lambda>(k, _). \<not> (\<exists>j < length bs. bs ! j \<and> k = fmc + 1 + of_nat j))
        (filter (\<lambda>(k, _). \<not> k < fmc) (discard_timers_map te)))"
    using status_bitmap_loop_bits [OF d4(2), of tc fmc] unfolding d4(3) by blast
  show ?thesis
    unfolding handle_status_report_def d1(1) d2(1) d3(1) d4(1) sum.case prod.case take_bit_of_0 fmc discard_below_fmc_def
    by (simp only: simp_thms if_False evs sum.case map_sum.simps prod.case)
      (simp add: case_prod_beta' not_less conj_commute)
qed

section \<open>The COUNTs of a transmitter\<close>

fun pdcp_tx_sdus ::
  "'ctx crypto_lib \<Rightarrow> u8 \<Rightarrow> pdcp_tx_config \<Rightarrow> bytes list \<Rightarrow> pdcp_entity_tx \<Rightarrow> (pdcp_tx_event list \<times> pdcp_entity_tx) res" where
  "pdcp_tx_sdus lib bearer cfg [] e = Inr ([], e)"
| "pdcp_tx_sdus lib bearer cfg (sdu # sdus) e =
    (case pdcp_tx_handle_sdu lib bearer cfg sdu e of
       Inl f \<Rightarrow> Inl f
     | Inr (evs, e') \<Rightarrow> map_sum id (\<lambda>(evs', e''). (evs @ evs', e'')) (pdcp_tx_sdus lib bearer cfg sdus e'))"

fun pdus_sent :: "pdcp_tx_event list \<Rightarrow> pdcp_tx_pdu list" where
  "pdus_sent [] = []"
| "pdus_sent (Tx_new_pdu p # evs) = p # pdus_sent evs"
| "pdus_sent (_ # evs) = pdus_sent evs"

lemma pdus_sent_append [simp]: "pdus_sent (evs @ evs') = pdus_sent evs @ pdus_sent evs'"
  by (induction evs rule: pdus_sent.induct) simp_all

abbreviation nof_failures :: "pdcp_tx_event list \<Rightarrow> nat" where
  "nof_failures evs \<equiv> length (filter (\<lambda>ev. ev = Tx_protocol_failure) evs)"

lemma build_data_pdu_returns:
  assumes "sec_lib_ok lib (tx_sec_cfg e)" "pc_rb_type cfg = Srb \<longrightarrow> pc_sn_size cfg = Sn_size12bits"
    "sdu \<noteq> []" "length sdu < 2 ^ 23"
  obtains pdu where "build_data_pdu lib bearer cfg sdu c e = Inr pdu"
proof -
  let ?rc = "\<lparr>pc_rb_type = pc_rb_type cfg, pc_rlc_mode = pc_rlc_mode cfg, pc_sn_size = pc_sn_size cfg,
    pc_direction = pc_direction cfg, pc_t_reordering = 0, pc_rx_max_count = pdcp_rx_default_max_count\<rparr>"
  let ?re = "pdcp_entity_rx_init\<lparr>rx_sec_cfg := tx_sec_cfg e, rx_integrity_on := tx_integrity_on e,
    rx_ciphering_on := tx_ciphering_on e\<rparr>"
  have "pdcp_peers cfg e ?rc ?re" using assms(2) by (simp add: pdcp_peers_def)
  from unprotect_protect [OF this assms(1,3,4)] that show thesis by metis
qed

lemma tx_sdus_overflown:
  assumes "mc_hard (pc_tx_max_count cfg) \<le> tx_next e"
  shows "\<exists>evs e'. pdcp_tx_sdus lib bearer cfg sdus e = Inr (evs, e') \<and> tx_next e' = tx_next e \<and> pdus_sent evs = [] \<and>
    nof_failures evs = (if sdus = [] \<or> tx_max_count_overflow e then 0 else 1)"
  using assms
proof (induction sdus arbitrary: e)
  case (Cons sdu sdus)
  let ?e = "e\<lparr>tx_max_count_overflow := True\<rparr>"
  have step: "pdcp_tx_handle_sdu lib bearer cfg sdu e =
      Inr (if tx_max_count_overflow e then [] else [Tx_protocol_failure], if tx_max_count_overflow e then e else ?e)"
    using Cons.prems by (simp add: pdcp_tx_handle_sdu_def)
  from Cons.IH [of e] Cons.IH [of ?e] Cons.prems show ?case by (auto simp: step)
qed simp

lemma tx_sdus_counts:
  assumes "sec_lib_ok lib (tx_sec_cfg e)" "pc_rb_type cfg = Srb \<longrightarrow> pc_sn_size cfg = Sn_size12bits"
    "list_all (\<lambda>sdu. sdu \<noteq> [] \<and> length sdu < 2 ^ 23) sdus" "n = unat (mc_hard (pc_tx_max_count cfg)) - unat (tx_next e)"
  shows "\<exists>evs e' pdus. pdcp_tx_sdus lib bearer cfg sdus e = Inr (evs, e') \<and> length pdus = min (length sdus) n \<and>
    unat (tx_next e') = unat (tx_next e) + length pdus \<and>
    pdus_sent evs = map (\<lambda>i. \<lparr>tx_pdu_buf = pdus ! i, tx_pdu_pdcp_sn = (if pc_rb_type cfg = Drb
      then Some (pdcp_compute_sn (tx_next e + of_nat i) (pc_sn_size cfg)) else None)\<rparr>) [0..<length pdus] \<and>
    (\<forall>i < length pdus. build_data_pdu lib bearer cfg (sdus ! i) (tx_next e + of_nat i) e = Inr (pdus ! i)) \<and>
    nof_failures evs = (if length sdus \<le> n \<or> tx_max_count_overflow e then 0 else 1)"
  using assms
proof (induction sdus arbitrary: e n)
  case Nil
  then show ?case by simp
next
  case (Cons sdu sdus)
  let ?hard = "mc_hard (pc_tx_max_count cfg)"
  show ?case
  proof (cases "?hard \<le> tx_next e")
    case True
    then have "n = 0" using Cons.prems(4) by (simp add: word_le_nat_alt)
    with tx_sdus_overflown [OF True, of lib bearer "sdu # sdus"] show ?thesis
      by (auto intro!: exI [of _ "[] :: bytes list"])
  next
    case False
    define notify where "notify = (mc_notify (pc_tx_max_count cfg) \<le> tx_next e \<and> \<not> tx_max_count_notified e)"
    obtain pdu where pdu: "build_data_pdu lib bearer cfg sdu (tx_next e) e = Inr pdu"
      by (rule build_data_pdu_returns [OF Cons.prems(1,2)]) (use Cons.prems(3) in auto)
    define e1 where "e1 = (start_discard_timer cfg sdu (if notify then e\<lparr>tx_max_count_notified := True\<rparr> else e))
      \<lparr>tx_next := tx_next e + 1\<rparr>"
    have e1: "tx_sec_cfg e1 = tx_sec_cfg e" "tx_integrity_on e1 = tx_integrity_on e" "tx_ciphering_on e1 = tx_ciphering_on e"
        "tx_max_count_overflow e1 = tx_max_count_overflow e" "tx_next e1 = tx_next e + 1"
      by (simp_all add: e1_def start_discard_timer_def)
    have build: "build_data_pdu lib bearer cfg s c e1 = build_data_pdu lib bearer cfg s c e"
        "build_data_pdu lib bearer cfg s c (if b then e\<lparr>tx_max_count_notified := True\<rparr> else e) = build_data_pdu lib bearer cfg s c e" for s c b
      by (rule build_data_pdu_same_sec; simp add: e1)+
    let ?ev = "write_data_pdu_to_lower_layers cfg (tx_next e) pdu"
    have step: "pdcp_tx_handle_sdu lib bearer cfg sdu e = Inr ((if notify then [Tx_max_count_reached] else []) @ [?ev], e1)"
      unfolding pdcp_tx_handle_sdu_def Let_def notify_def [symmetric] build
      using False pdu by (simp add: e1_def start_discard_timer_def)
    have "tx_next e \<noteq> - 1" using False by (metis word_n1_ge not_le)
    then have nxt: "unat (tx_next e1) = unat (tx_next e) + 1" unfolding e1(5) by (rule unat_next)
    have n: "n = Suc (unat ?hard - unat (tx_next e1))" using False Cons.prems(4) nxt by (simp add: word_le_nat_alt)
    have "list_all (\<lambda>sdu. sdu \<noteq> [] \<and> length sdu < 2 ^ 23) sdus" using Cons.prems(3) by simp
    from Cons.IH [OF Cons.prems(1) [folded e1(1)] Cons.prems(2) this refl] obtain evs e' pdus where r:
        "pdcp_tx_sdus lib bearer cfg sdus e1 = Inr (evs, e')" "length pdus = min (length sdus) (n - 1)"
        "unat (tx_next e') = unat (tx_next e1) + length pdus"
        "pdus_sent evs = map (\<lambda>i. \<lparr>tx_pdu_buf = pdus ! i, tx_pdu_pdcp_sn = (if pc_rb_type cfg = Drb
          then Some (pdcp_compute_sn (tx_next e1 + of_nat i) (pc_sn_size cfg)) else None)\<rparr>) [0..<length pdus]"
        "\<forall>i < length pdus. build_data_pdu lib bearer cfg (sdus ! i) (tx_next e1 + of_nat i) e1 = Inr (pdus ! i)"
        "nof_failures evs = (if length sdus \<le> n - 1 \<or> tx_max_count_overflow e1 then 0 else 1)"
      unfolding n diff_Suc_1 by blast
    let ?evs = "((if notify then [Tx_max_count_reached] else []) @ [?ev]) @ evs"
    have "pdcp_tx_sdus lib bearer cfg (sdu # sdus) e = Inr (?evs, e')" by (simp add: step r(1))
    moreover have "length (pdu # pdus) = min (length (sdu # sdus)) n" using r(2) n by simp
    moreover have "unat (tx_next e') = unat (tx_next e) + length (pdu # pdus)" using r(3) nxt by simp
    moreover have "pdus_sent ?evs = map (\<lambda>i. \<lparr>tx_pdu_buf = (pdu # pdus) ! i, tx_pdu_pdcp_sn = (if pc_rb_type cfg = Drb
          then Some (pdcp_compute_sn (tx_next e + of_nat i) (pc_sn_size cfg)) else None)\<rparr>) [0..<length (pdu # pdus)]"
      using r(4) by (simp add: write_data_pdu_to_lower_layers_def e1(5) map_upt_Suc add.assoc del: upt_Suc)
    moreover have "\<forall>i < length (pdu # pdus). build_data_pdu lib bearer cfg ((sdu # sdus) ! i) (tx_next e + of_nat i) e =
        Inr ((pdu # pdus) ! i)"
      using r(5) pdu by (auto simp: less_Suc_eq_0_disj build e1(5) add.assoc)
    moreover have "nof_failures ?evs = (if length (sdu # sdus) \<le> n \<or> tx_max_count_overflow e then 0 else 1)"
      using r(6) n by (auto simp: write_data_pdu_to_lower_layers_def e1(4))
    ultimately show ?thesis by blast
  qed
qed

section \<open>Properties\<close>

text \<open>C9: The PDUs a transmitter makes of a list of SDUs carry the COUNTs from TX_NEXT on, one after another, none twice
  and none at or above the hard limit, so that no COUNT is used again under the same key and the COUNT never wraps
  around.  The SDUs that are beyond the limit are not sent, and the protocol failure is reported exactly once.\<close>

theorem pdcp_tx_counts_unique:
  assumes "sec_lib_ok lib (tx_sec_cfg e)" "pc_rb_type cfg = Srb \<longrightarrow> pc_sn_size cfg = Sn_size12bits"
    "list_all (\<lambda>sdu. sdu \<noteq> [] \<and> length sdu < 2 ^ 23) sdus" "tx_next e \<le> mc_hard (pc_tx_max_count cfg)"
    "\<not> tx_max_count_overflow e" "n = unat (mc_hard (pc_tx_max_count cfg)) - unat (tx_next e)"
  shows "\<exists>evs e' pdus. pdcp_tx_sdus lib bearer cfg sdus e = Inr (evs, e') \<and>
    unat (tx_next e') = unat (tx_next e) + length pdus \<and> tx_next e' \<le> mc_hard (pc_tx_max_count cfg) \<and>
    map tx_pdu_buf (pdus_sent evs) = pdus \<and> length pdus = min (length sdus) n \<and>
    (\<forall>i < length pdus. build_data_pdu lib bearer cfg (sdus ! i) (tx_next e + of_nat i) e = Inr (pdus ! i)) \<and>
    nof_failures evs = (if length sdus \<le> n then 0 else 1)"
proof -
  obtain evs e' pdus where r: "pdcp_tx_sdus lib bearer cfg sdus e = Inr (evs, e')" "length pdus = min (length sdus) n"
      "unat (tx_next e') = unat (tx_next e) + length pdus"
      "pdus_sent evs = map (\<lambda>i. \<lparr>tx_pdu_buf = pdus ! i, tx_pdu_pdcp_sn = (if pc_rb_type cfg = Drb
        then Some (pdcp_compute_sn (tx_next e + of_nat i) (pc_sn_size cfg)) else None)\<rparr>) [0..<length pdus]"
      "\<forall>i < length pdus. build_data_pdu lib bearer cfg (sdus ! i) (tx_next e + of_nat i) e = Inr (pdus ! i)"
      "nof_failures evs = (if length sdus \<le> n \<or> tx_max_count_overflow e then 0 else 1)"
    using tx_sdus_counts [OF assms(1,2,3,6)] by blast
  have "map tx_pdu_buf (pdus_sent evs) = pdus" unfolding r(4) by (simp add: comp_def map_nth)
  moreover have "tx_next e' \<le> mc_hard (pc_tx_max_count cfg)" using r(2,3) assms(4,6) by (simp add: word_le_nat_alt)
  ultimately show ?thesis using r assms(5) by auto
qed

theorem pdcp_tx_counts_unique_witness:
  "\<exists>evs e' pdus. pdcp_tx_sdus example_lib 3 example_tx_config [[1], [2, 3], [4]] (example_tx\<lparr>tx_next := 0xfffffffc\<rparr>) = Inr (evs, e') \<and>
    unat (tx_next e') = 0xfffffffc + length pdus \<and> tx_next e' \<le> 0xfffffffe \<and>
    map tx_pdu_buf (pdus_sent evs) = pdus \<and> length pdus = 2 \<and>
    (\<forall>i < length pdus. build_data_pdu example_lib 3 example_tx_config ([[1], [2, 3], [4]] ! i) (0xfffffffc + of_nat i)
      (example_tx\<lparr>tx_next := 0xfffffffc\<rparr>) = Inr (pdus ! i)) \<and> nof_failures evs = 1"
proof -
  let ?e = "example_tx\<lparr>tx_next := 0xfffffffc\<rparr>" let ?sdus = "[[1], [2, 3], [4]] :: bytes list"
  have lib: "sec_lib_ok example_lib (tx_sec_cfg ?e)" using example_bearer(1) by simp
  have hard: "mc_hard (pc_tx_max_count example_tx_config) = 0xfffffffe" and nxt: "tx_next ?e = 0xfffffffc"
      and srb: "pc_rb_type example_tx_config = Srb \<longrightarrow> pc_sn_size example_tx_config = Sn_size12bits"
    by (simp_all add: example_tx_config_def pdcp_tx_default_max_count_def)
  have len: "list_all (\<lambda>sdu. sdu \<noteq> [] \<and> length sdu < 2 ^ 23) ?sdus" "min (length ?sdus) 2 = 2"
    "(if length ?sdus \<le> 2 then 0 else 1) = (1 :: nat)" by simp_all
  have num: "unat (0xfffffffc :: u32) = 0xfffffffc" by simp
  have lim: "tx_next ?e \<le> mc_hard (pc_tx_max_count example_tx_config)"
    "2 = unat (mc_hard (pc_tx_max_count example_tx_config)) - unat (tx_next ?e)" unfolding hard nxt by simp_all
  have "\<not> tx_max_count_overflow ?e" by (simp add: example_tx_def)
  from pdcp_tx_counts_unique [OF lib srb len(1) lim(1) this lim(2), of 3] show ?thesis
    unfolding hard nxt num len(2,3) .
qed

text \<open>C28: A status report compiled by a receiver and handled by the transmitter at the other end makes the transmitter
  forget, among the SDUs the report covers, exactly those the receiver does not have, and keep those it has, besides
  the SDUs below the first missing COUNT, which it forgets.  The bits of the report mean the opposite of what its
  reader, the specification and the comment beside them say, so data recovery can never repair a loss.\<close>

theorem pdcp_status_report_exchange:
  assumes "rx_deliv re \<noteq> - 1"
  shows "\<exists>r evs. compile_status_report re = Inr r \<and>
    handle_status_report tc r te = Inr (evs, te\<lparr>discard_timers_map := filter (\<lambda>(k, _). rx_deliv re \<le> k \<and>
      (pdcp_status_covers re k \<longrightarrow> om_lookup (reorder_queue re) k \<noteq> None)) (discard_timers_map te)\<rparr>)"
proof -
  let ?d = "rx_deliv re"
  obtain r n m where r: "compile_status_report re = Inr r"
      "bytes_bits r = replicate 8 False @ val_bits 32 ?d @
        map (\<lambda>k. om_lookup (reorder_queue re) (of_nat k) = None) [unat ?d + 1..<m] @ replicate n False"
      "\<And>k. unat ?d < unat k \<and> unat k < m \<longleftrightarrow> pdcp_status_covers re k" "m < 2 ^ 32"
    by (rule compile_status_report_bits [OF assms]) blast
  let ?bs = "map (\<lambda>k. om_lookup (reorder_queue re) (of_nat k) = None) [unat ?d + 1..<m] @ replicate n False"
  have set_bits: "(\<exists>j < length ?bs. ?bs ! j \<and> k = ?d + 1 + of_nat j) \<longleftrightarrow> pdcp_status_covers re k \<and> om_lookup (reorder_queue re) k = None" for k
  proof
    assume "\<exists>j < length ?bs. ?bs ! j \<and> k = ?d + 1 + of_nat j"
    then obtain j where j: "j < length ?bs" "?bs ! j" "k = ?d + 1 + of_nat j" by blast
    have jm: "j < m - (unat ?d + 1)"
    proof (rule ccontr)
      assume "\<not> j < m - (unat ?d + 1)"
      with j(1,2) show False by (simp add: nth_append)
    qed
    then have lt: "unat ?d + 1 + j < m" by linarith
    have "?bs ! j \<longleftrightarrow> om_lookup (reorder_queue re) (of_nat ([unat ?d + 1..<m] ! j)) = None"
      using jm by (simp add: nth_append)
    then have none: "om_lookup (reorder_queue re) (of_nat (unat ?d + 1 + j)) = None"
      using j(2) by (simp only: nth_upt [OF lt] simp_thms)
    have k: "k = of_nat (unat ?d + 1 + j)" using j(3) by simp
    have "unat k = unat ?d + 1 + j" unfolding k using lt r(4) by (intro unat_of_nat_u32) linarith
    then have "unat ?d < unat k \<and> unat k < m" using lt by linarith
    with r(3) none show "pdcp_status_covers re k \<and> om_lookup (reorder_queue re) k = None" unfolding k by blast
  next
    assume k: "pdcp_status_covers re k \<and> om_lookup (reorder_queue re) k = None"
    let ?j = "unat k - (unat ?d + 1)"
    have b: "unat ?d < unat k" "unat k < m" using k r(3) by blast+
    then have "?j < m - (unat ?d + 1)" by linarith
    moreover have "unat ?d + 1 + ?j = unat k" using b by simp
    then have "of_nat (unat ?d + 1 + ?j) = k" by (simp only: of_nat_unat ucast_id)
    then have "k = ?d + 1 + of_nat ?j" by (simp only: of_nat_add of_nat_1 of_nat_unat ucast_id)
    moreover have "[unat ?d + 1..<m] ! ?j = unat k" using b by (subst nth_upt) auto
    then have "?bs ! ?j" using k b by (simp add: nth_append)
    ultimately show "\<exists>j < length ?bs. ?bs ! j \<and> k = ?d + 1 + of_nat j"
      by (intro exI [of _ ?j]) simp
  qed
  have "(\<not> (\<exists>j < length ?bs. ?bs ! j \<and> k = ?d + 1 + of_nat j)) =
      (pdcp_status_covers re k \<longrightarrow> om_lookup (reorder_queue re) k \<noteq> None)" for k
    unfolding set_bits by simp
  from handle_status_report_bits [OF r(2), of tc te, unfolded this] r(1) show ?thesis by blast
qed

theorem pdcp_status_report_exchange_witness:
  "\<exists>r evs. compile_status_report (example_rx\<lparr>rx_next := 3, reorder_queue := [(2, [5])]\<rparr>) = Inr r \<and>
    handle_status_report example_tx_config r (example_tx\<lparr>discard_timers_map :=
      [(0, \<lparr>di_count = 0, di_sdu = [3]\<rparr>), (1, \<lparr>di_count = 1, di_sdu = [4]\<rparr>), (2, \<lparr>di_count = 2, di_sdu = [5]\<rparr>)]\<rparr>) =
    Inr (evs, example_tx\<lparr>discard_timers_map :=
      [(0, \<lparr>di_count = 0, di_sdu = [3]\<rparr>), (2, \<lparr>di_count = 2, di_sdu = [5]\<rparr>)]\<rparr>)"
  using pdcp_status_report_exchange [of "example_rx\<lparr>rx_next := 3, reorder_queue := [(2, [5])]\<rparr>" example_tx_config
    "example_tx\<lparr>discard_timers_map :=
      [(0, \<lparr>di_count = 0, di_sdu = [3]\<rparr>), (1, \<lparr>di_count = 1, di_sdu = [4]\<rparr>), (2, \<lparr>di_count = 2, di_sdu = [5]\<rparr>)]\<rparr>"]
  by (simp add: pdcp_status_covers_def status_max_bits_def example_rx_def pdcp_entity_rx_init_def)

end
