(* ===== verification/Rlc_Tx_Um.thy ===== *)
theory Rlc_Tx_Um
  imports Rlc_Um_Pdu Rlc_Interfaces
begin

text \<open>
  The transmitting UM entity (\<open>lib/rlc/rlc_tx_um_entity.h\<close> and \<open>.cpp\<close>): SDU queue, the SDU under
  segmentation with its next segment offset, the SN of the next segmented SDU, and the buffer
  state reports.  The configuration and the header lengths computed from it in the constructor are
  functions of the configuration.  Byte lengths and offsets (\<open>uint32_t\<close>) are natural numbers; the
  header field SO is the offset cut to 16 bits.  Sanity checks are modelled as assertions.

  The lemmas show that every PDU fits its grant, that no assertion fails, which segment each PDU
  carries, and that the reported buffer state is enough to flush the entity.
\<close>

section \<open>State\<close>

record rlc_tx_um_entity =
  umtx_tx_next :: u32
  umtx_sdu_queue :: rlc_sdu_queue
  umtx_sdu :: rlc_sdu
  umtx_next_so :: nat
  umtx_prev_buffer_state :: u32
  umtx_task :: buffer_state_task

definition rlc_tx_um_entity_init :: "u16 \<Rightarrow> nat \<Rightarrow> rlc_tx_um_entity" where
  "rlc_tx_um_entity_init capacity ring_size =
    \<lparr>umtx_tx_next = 0, umtx_sdu_queue = rlc_sdu_queue_make capacity ring_size,
     umtx_sdu = \<lparr>sdu_buf = [], sdu_pdcp_sn = None\<rparr>, umtx_next_so = 0,
     umtx_prev_buffer_state = 0, umtx_task = buffer_state_task_init\<rparr>"

definition umtx_mod :: "rlc_tx_um_config \<Rightarrow> u32" where
  "umtx_mod cfg = um_mod (txum_sn_field_length cfg)"

definition head_len_full :: nat where
  "head_len_full = rlc_um_pdu_header_size_complete_sdu"

definition head_len_first :: "rlc_tx_um_config \<Rightarrow> nat" where
  "head_len_first cfg = rlc_um_pdu_header_size_no_so (txum_sn_field_length cfg)"

definition head_len_not_first :: "rlc_tx_um_config \<Rightarrow> nat" where
  "head_len_not_first cfg = rlc_um_pdu_header_size_with_so (txum_sn_field_length cfg)"

section \<open>Upper layer\<close>

definition umtx_handle_sdu ::
  "bool \<Rightarrow> rlc_sdu \<Rightarrow> rlc_tx_um_entity \<Rightarrow> (bool \<times> rlc_tx_um_entity) res" where
  "umtx_handle_sdu defer_ok sdu e =
    (case sdu_queue_write sdu (umtx_sdu_queue e) of
       Inl f \<Rightarrow> Inl f
     | Inr (ok, q) \<Rightarrow>
         if ok then Inr (True, e\<lparr>umtx_sdu_queue := q,
                                umtx_task := handle_changed_buffer_state defer_ok (umtx_task e)\<rparr>)
         else Inr (False, e\<lparr>umtx_sdu_queue := q\<rparr>))"

definition umtx_discard_sdu ::
  "bool \<Rightarrow> u32 \<Rightarrow> rlc_tx_um_entity \<Rightarrow> (bool \<times> rlc_tx_um_entity) res" where
  "umtx_discard_sdu defer_ok pdcp_sn e =
    (case sdu_queue_discard pdcp_sn (umtx_sdu_queue e) of
       Inl f \<Rightarrow> Inl f
     | Inr (ok, q) \<Rightarrow>
         if ok then Inr (True, e\<lparr>umtx_sdu_queue := q,
                                umtx_task := handle_changed_buffer_state defer_ok (umtx_task e)\<rparr>)
         else Inr (False, e\<lparr>umtx_sdu_queue := q\<rparr>))"

section \<open>Lower layer\<close>

definition get_si_and_expected_header_size ::
  "rlc_tx_um_config \<Rightarrow> rlc_tx_um_entity \<Rightarrow> nat \<Rightarrow> nat \<Rightarrow> nat \<Rightarrow> (rlc_si_field \<times> nat) option" where
  "get_si_and_expected_header_size cfg e so sdu_length grant_len =
    (if so = 0 then
       if sdu_length \<le> grant_len - head_len_full then Some (Full_sdu, head_len_full)
       else if grant_len \<le> head_len_first cfg then None
       else Some (First_segment, head_len_first cfg)
     else if grant_len \<le> head_len_not_first cfg then None
     else if sdu_length - umtx_next_so e \<le> grant_len - head_len_not_first cfg
       then Some (Last_segment, head_len_not_first cfg)
       else Some (Middle_segment, head_len_not_first cfg))"

text \<open>
  The first part of \<open>pull_pdu\<close>: take a new SDU from the queue when none is being transmitted.
  The answer is false when the queue is empty.
\<close>

definition umtx_load_sdu ::
  "rlc_tx_um_entity \<Rightarrow> (bool \<times> rlc_tx_event list \<times> rlc_tx_um_entity) res" where
  "umtx_load_sdu e =
    (if sdu_buf (umtx_sdu e) = [] then
       if umtx_next_so e \<noteq> 0 then Inl Assertion_failed
       else (case sdu_queue_read (umtx_sdu_queue e) of
               Inl f \<Rightarrow> Inl f
             | Inr (None, q) \<Rightarrow> Inr (False, [], e\<lparr>umtx_sdu_queue := q\<rparr>)
             | Inr (Some sdu, q) \<Rightarrow>
                 Inr (True, case sdu_pdcp_sn sdu of None \<Rightarrow> [] | Some sn \<Rightarrow> [On_transmitted_sdu sn],
                      e\<lparr>umtx_sdu_queue := q, umtx_sdu := sdu\<rparr>))
     else Inr (True, [], e))"

text \<open>The second part: build one PDU of the current SDU.\<close>

definition umtx_build_pdu ::
  "rlc_tx_um_config \<Rightarrow> nat \<Rightarrow> rlc_tx_um_entity \<Rightarrow> (bytes \<times> rlc_tx_um_entity) res" where
  "umtx_build_pdu cfg grant_len e =
    (let buf = sdu_buf (umtx_sdu e); next_so = umtx_next_so e in
     case get_si_and_expected_header_size cfg e next_so (length buf) grant_len of
       None \<Rightarrow> Inr ([], e)
     | Some (si, head_len) \<Rightarrow>
         (let header = \<lparr>um_si = si, um_sn_size = txum_sn_field_length cfg,
                        um_sn = ucast (umtx_tx_next e), um_so = of_nat next_so\<rparr>;
              header_buf = rlc_um_write_data_pdu_header header [] in
          if head_len \<noteq> length header_buf then Inl Assertion_failed
          else if grant_len \<le> head_len then Inr ([], e)
          else
            (let space = grant_len - head_len;
                 payload_len = (if space \<ge> length buf - next_so then length buf - next_so else space);
                 pdu_buf = header_buf @ take payload_len (drop next_so buf) in
             if length pdu_buf > grant_len then Inl Assertion_failed
             else
               (let e = (if si = Full_sdu \<or> si = Last_segment
                         then e\<lparr>umtx_sdu := (umtx_sdu e)\<lparr>sdu_buf := []\<rparr>, umtx_next_so := 0\<rparr>
                         else e\<lparr>umtx_next_so := next_so + payload_len\<rparr>);
                    e = (if si = Last_segment
                         then e\<lparr>umtx_tx_next := (umtx_tx_next e + 1) mod umtx_mod cfg\<rparr> else e) in
                Inr (pdu_buf, e)))))"

definition umtx_pull_pdu ::
  "rlc_tx_um_config \<Rightarrow> nat \<Rightarrow> rlc_tx_um_entity \<Rightarrow>
    (bytes \<times> rlc_tx_event list \<times> rlc_tx_um_entity) res" where
  "umtx_pull_pdu cfg grant_len e =
    (if grant_len \<le> head_len_full then Inr ([], [], e)
     else (case umtx_load_sdu e of
             Inl f \<Rightarrow> Inl f
           | Inr (loaded, evs, e1) \<Rightarrow>
               if \<not> loaded then Inr ([], evs, e1)
               else (case umtx_build_pdu cfg grant_len e1 of
                       Inl f \<Rightarrow> Inl f
                     | Inr (pdu, e2) \<Rightarrow> Inr (pdu, evs, e2))))"

definition umtx_get_buffer_state :: "rlc_tx_um_config \<Rightarrow> rlc_tx_um_entity \<Rightarrow> u32" where
  "umtx_get_buffer_state cfg e =
    (let q = umtx_sdu_queue e;
         queue_bytes = size_bytes q + size_sdus q * of_nat head_len_full;
         segment_bytes =
           (if sdu_buf (umtx_sdu e) \<noteq> []
            then of_nat ((length (sdu_buf (umtx_sdu e)) - umtx_next_so e) + head_len_not_first cfg)
            else 0)
     in queue_bytes + segment_bytes)"

definition umtx_update_mac_buffer_state ::
  "rlc_tx_um_config \<Rightarrow> rlc_tx_um_entity \<Rightarrow> rlc_tx_event list \<times> rlc_tx_um_entity" where
  "umtx_update_mac_buffer_state cfg e =
    (let e = e\<lparr>umtx_task := begin_update (umtx_task e)\<rparr>;
         bs = umtx_get_buffer_state cfg e in
     (if \<not> (bs > MAX_DL_PDU_LENGTH \<and> umtx_prev_buffer_state e > MAX_DL_PDU_LENGTH)
      then [On_buffer_state_update bs] else [],
      e\<lparr>umtx_prev_buffer_state := bs\<rparr>))"

section \<open>Invariant\<close>

definition umtx_inv :: "rlc_tx_um_config \<Rightarrow> rlc_tx_um_entity \<Rightarrow> bool" where
  "umtx_inv cfg e \<longleftrightarrow>
    sdu_queue_inv (umtx_sdu_queue e) \<and> umtx_tx_next e < umtx_mod cfg \<and>
    length (sdu_buf (umtx_sdu e)) \<le> 65535 \<and>
    (if sdu_buf (umtx_sdu e) = [] then umtx_next_so e = 0
     else umtx_next_so e < length (sdu_buf (umtx_sdu e)))"

text \<open>The SDUs not fully transmitted, the one under segmentation first.\<close>

definition umtx_sdus :: "rlc_tx_um_entity \<Rightarrow> bytes list" where
  "umtx_sdus e =
    (if sdu_buf (umtx_sdu e) = [] then [] else [sdu_buf (umtx_sdu e)]) @
    map sdu_buf (queue_sdus (umtx_sdu_queue e))"

lemma umtx_mod_pos: "0 < umtx_mod cfg"
  using um.md_pos [of "txum_sn_field_length cfg"] by (simp add: umtx_mod_def word_less_nat_alt)

lemma umtx_init_inv:
  "unat capacity \<le> 2 ^ k \<Longrightarrow> k \<le> 31 \<Longrightarrow>
    umtx_inv cfg (rlc_tx_um_entity_init capacity (2 ^ k)) \<and>
    umtx_sdus (rlc_tx_um_entity_init capacity (2 ^ k)) = []"
  using sdu_queue_make_inv [of capacity k] umtx_mod_pos [of cfg]
  by (simp add: umtx_inv_def rlc_tx_um_entity_init_def umtx_sdus_def)

lemma umtx_handle_sdu_ok:
  assumes "umtx_inv cfg e" "sdu_buf sdu \<noteq> []" "sdu_len sdu \<le> 65535"
  shows "\<exists>ok e'. umtx_handle_sdu d sdu e = Inr (ok, e') \<and> umtx_inv cfg e' \<and>
    umtx_sdus e' = (if ok then umtx_sdus e @ [sdu_buf sdu] else umtx_sdus e) \<and>
    umtx_tx_next e' = umtx_tx_next e \<and> umtx_next_so e' = umtx_next_so e \<and> umtx_sdu e' = umtx_sdu e"
proof -
  obtain ok q where "sdu_queue_write sdu (umtx_sdu_queue e) = Inr (ok, q)" "sdu_queue_inv q"
    "queue_sdus q = (if ok then queue_sdus (umtx_sdu_queue e) @ [sdu]
      else queue_sdus (umtx_sdu_queue e))"
    using sq.write_law [of "umtx_sdu_queue e" sdu] assms by (auto simp: umtx_inv_def)
  with assms(1) show ?thesis
    by (cases ok) (simp_all add: umtx_handle_sdu_def umtx_inv_def umtx_sdus_def)
qed

lemma umtx_discard_sdu_ok:
  assumes "umtx_inv cfg e"
  shows "\<exists>ok e'. umtx_discard_sdu d sn e = Inr (ok, e') \<and> umtx_inv cfg e' \<and>
    umtx_tx_next e' = umtx_tx_next e \<and> umtx_next_so e' = umtx_next_so e \<and>
    umtx_sdu e' = umtx_sdu e \<and>
    queue_sdus (umtx_sdu_queue e') = remove_pdcp_sn sn (queue_sdus (umtx_sdu_queue e))"
proof -
  obtain ok q where "sdu_queue_discard sn (umtx_sdu_queue e) = Inr (ok, q)" "sdu_queue_inv q"
    "queue_sdus q = remove_pdcp_sn sn (queue_sdus (umtx_sdu_queue e))"
    using sq.discard_law [of "umtx_sdu_queue e" sn] assms by (auto simp: umtx_inv_def)
  with assms show ?thesis
    by (cases ok) (simp_all add: umtx_discard_sdu_def umtx_inv_def)
qed

lemma umtx_load_sdu_ok:
  assumes "umtx_inv cfg e"
  shows "\<exists>loaded evs e'. umtx_load_sdu e = Inr (loaded, evs, e') \<and> umtx_inv cfg e' \<and>
    umtx_sdus e' = umtx_sdus e \<and> umtx_tx_next e' = umtx_tx_next e \<and>
    umtx_next_so e' = umtx_next_so e \<and>
    (sdu_buf (umtx_sdu e) \<noteq> [] \<longrightarrow> umtx_sdu e' = umtx_sdu e) \<and>
    (if loaded then sdu_buf (umtx_sdu e') \<noteq> [] else umtx_sdus e = [] \<and> umtx_sdu e' = umtx_sdu e)"
proof (cases "sdu_buf (umtx_sdu e) = []")
  case False
  with assms show ?thesis by (simp add: umtx_load_sdu_def)
next
  case True
  have q: "sdu_queue_inv (umtx_sdu_queue e)" using assms by (simp add: umtx_inv_def)
  show ?thesis
  proof (cases "queue_sdus (umtx_sdu_queue e)")
    case Nil
    obtain q' where "sdu_queue_read (umtx_sdu_queue e) = Inr (None, q')" "sdu_queue_inv q'"
      "queue_sdus q' = []"
      by (rule sq.read_empty [OF q Nil])
    with True Nil assms show ?thesis
      by (simp add: umtx_load_sdu_def umtx_inv_def umtx_sdus_def)
  next
    case (Cons s ss)
    obtain q' where "sdu_queue_read (umtx_sdu_queue e) = Inr (Some s, q')" "sdu_queue_inv q'"
      "queue_sdus q' = ss" "sdu_buf s \<noteq> []" "sdu_len s \<le> 65535"
      by (rule sq.read_next [OF q Cons])
    with True Cons assms show ?thesis
      by (simp add: umtx_load_sdu_def umtx_inv_def umtx_sdus_def)
  qed
qed

section \<open>What a PDU carries\<close>

text \<open>
  The segment a PDU carries: SI, SN, offset in the SDU and payload.  \<open>um_wire\<close> is the PDU for it;
  the SN of a full SDU is not written.
\<close>

record um_segment =
  seg_si :: rlc_si_field
  seg_sn :: u32
  seg_so :: nat
  seg_payload :: bytes

definition um_seg_header :: "rlc_um_sn_size \<Rightarrow> um_segment \<Rightarrow> rlc_um_pdu_header" where
  "um_seg_header sz g =
    \<lparr>um_si = seg_si g, um_sn_size = sz,
     um_sn = (if seg_si g = Full_sdu then 0 else ucast (seg_sn g)), um_so = of_nat (seg_so g)\<rparr>"

definition um_wire :: "rlc_um_sn_size \<Rightarrow> um_segment \<Rightarrow> bytes" where
  "um_wire sz g = rlc_um_write_data_pdu_header (um_seg_header sz g) (seg_payload g)"

text \<open>\<open>g\<close> is a nonempty segment of \<open>buf\<close> with the SI that its position demands.\<close>

definition um_segment_of :: "rlc_um_sn_size \<Rightarrow> bytes \<Rightarrow> um_segment \<Rightarrow> bool" where
  "um_segment_of sz buf g \<longleftrightarrow>
    length buf \<le> 65535 \<and> seg_sn g < um_mod sz \<and>
    seg_payload g \<noteq> [] \<and> seg_so g + length (seg_payload g) \<le> length buf \<and>
    seg_payload g = take (length (seg_payload g)) (drop (seg_so g) buf) \<and>
    seg_si g =
      (if seg_so g = 0
       then (if length (seg_payload g) = length buf then Full_sdu else First_segment)
       else (if seg_so g + length (seg_payload g) = length buf then Last_segment
             else Middle_segment))"

lemma um_mod_le: "um_mod sz \<le> 4096"
  by (cases sz) simp_all

lemma um_seg_header_wf:
  assumes "um_segment_of sz buf g"
  shows "um_header_wf (um_seg_header sz g)"
proof -
  have so: "seg_so g < 65536" and sn: "unat (seg_sn g) < unat (um_mod sz)" "unat (um_mod sz) \<le> 4096"
    using assms um_mod_le [of sz]
    by (auto simp: um_segment_of_def word_less_nat_alt word_le_nat_alt)
  then have "of_nat (seg_so g) = (0 :: u16) \<longleftrightarrow> seg_so g = 0"
    by (simp add: word_unat_eq_iff unat_of_nat)
  moreover have "(ucast (ucast (seg_sn g) :: u16) :: u32) < um_mod sz"
    using sn by (simp add: word_less_nat_alt unat_ucast_mod)
  moreover have "(0 :: u32) < um_mod sz"
    using um.md_pos [of sz] by (simp add: word_less_nat_alt)
  ultimately show ?thesis
    using assms by (auto simp: um_header_wf_def um_seg_header_def um_segment_of_def)
qed

lemma um_wire_length:
  assumes "um_segment_of sz buf g"
  shows "length (um_wire sz g) = length (seg_payload g) +
    (case seg_si g of Full_sdu \<Rightarrow> 1 | First_segment \<Rightarrow> rlc_um_pdu_header_size_no_so sz
     | Last_segment \<Rightarrow> rlc_um_pdu_header_size_with_so sz
     | Middle_segment \<Rightarrow> rlc_um_pdu_header_size_with_so sz)"
proof -
  have "um_header_wf (um_seg_header sz g)" by (rule um_seg_header_wf [OF assms])
  then show ?thesis
    by (cases sz; cases "seg_si g")
      (auto simp: um_wire_def rlc_um_nr_packed_length_def um_seg_header_def um_header_wf_def)
qed

lemma um_wire_header:
  assumes "seg_si g = Full_sdu \<Longrightarrow> seg_so g = 0"
  shows "um_wire sz g = rlc_um_write_data_pdu_header
    \<lparr>um_si = seg_si g, um_sn_size = sz, um_sn = ucast (seg_sn g), um_so = of_nat (seg_so g)\<rparr> [] @
    seg_payload g"
  by (simp add: um_wire_def um_seg_header_def rlc_um_write_data_pdu_header_def Let_def)

text \<open>The segment \<open>umtx_build_pdu\<close> sends, when the header and one byte fit.\<close>

definition umtx_next_segment :: "rlc_tx_um_config \<Rightarrow> nat \<Rightarrow> rlc_tx_um_entity \<Rightarrow> um_segment option" where
  "umtx_next_segment cfg grant_len e =
    map_option (\<lambda>(si, head_len).
      \<lparr>seg_si = si, seg_sn = umtx_tx_next e, seg_so = umtx_next_so e,
       seg_payload = take (grant_len - head_len) (drop (umtx_next_so e) (sdu_buf (umtx_sdu e)))\<rparr>)
      (get_si_and_expected_header_size cfg e (umtx_next_so e) (sdu_len (umtx_sdu e)) grant_len)"

lemma umtx_next_segment_of:
  assumes inv: "umtx_inv cfg e" and ne: "sdu_buf (umtx_sdu e) \<noteq> []" and g: "head_len_full < grant"
    and n: "umtx_next_segment cfg grant e = Some g"
  shows "um_segment_of (txum_sn_field_length cfg) (sdu_buf (umtx_sdu e)) g"
proof -
  have "umtx_next_so e < sdu_len (umtx_sdu e)"
    using inv ne by (simp add: umtx_inv_def)
  moreover have "1 \<le> head_len_first cfg"
    by (cases "txum_sn_field_length cfg") (simp_all add: head_len_first_def)
  ultimately show ?thesis
    using inv ne g n
    by (auto simp: umtx_next_segment_def get_si_and_expected_header_size_def um_segment_of_def
        umtx_inv_def umtx_mod_def head_len_full_def rlc_um_pdu_header_size_complete_sdu_def min_def
        split: if_splits)
qed

lemma umtx_build_pdu_none:
  assumes "umtx_next_segment cfg grant e = None"
  shows "umtx_build_pdu cfg grant e = Inr ([], e)"
  using assms by (auto simp: umtx_next_segment_def umtx_build_pdu_def Let_def)

text \<open>The state after a segment was sent.\<close>

definition umtx_after :: "rlc_tx_um_config \<Rightarrow> um_segment \<Rightarrow> rlc_tx_um_entity \<Rightarrow> rlc_tx_um_entity" where
  "umtx_after cfg g e =
    (if seg_so g + length (seg_payload g) = sdu_len (umtx_sdu e)
     then e\<lparr>umtx_sdu := (umtx_sdu e)\<lparr>sdu_buf := []\<rparr>, umtx_next_so := 0,
            umtx_tx_next := (if seg_so g = 0 then umtx_tx_next e
                             else (umtx_tx_next e + 1) mod umtx_mod cfg)\<rparr>
     else e\<lparr>umtx_next_so := seg_so g + length (seg_payload g)\<rparr>)"

lemma umtx_build_pdu_some:
  assumes inv: "umtx_inv cfg e" and ne: "sdu_buf (umtx_sdu e) \<noteq> []" and gr: "head_len_full < grant"
    and n: "umtx_next_segment cfg grant e = Some g"
  shows "umtx_build_pdu cfg grant e =
      Inr (um_wire (txum_sn_field_length cfg) g, umtx_after cfg g e) \<and>
    length (um_wire (txum_sn_field_length cfg) g) \<le> grant"
proof -
  let ?sz = "txum_sn_field_length cfg" and ?buf = "sdu_buf (umtx_sdu e)" and ?so = "umtx_next_so e"
  note seg = umtx_next_segment_of [OF assms]
  obtain si hl where gs: "get_si_and_expected_header_size cfg e ?so (length ?buf) grant = Some (si, hl)"
    and g: "g = \<lparr>seg_si = si, seg_sn = umtx_tx_next e, seg_so = ?so,
       seg_payload = take (grant - hl) (drop ?so ?buf)\<rparr>"
    using n by (auto simp: umtx_next_segment_def)
  have hl: "hl = (case si of Full_sdu \<Rightarrow> 1 | First_segment \<Rightarrow> rlc_um_pdu_header_size_no_so ?sz
     | Last_segment \<Rightarrow> rlc_um_pdu_header_size_with_so ?sz
     | Middle_segment \<Rightarrow> rlc_um_pdu_header_size_with_so ?sz)" and hlg: "hl < grant"
    using gs gr by (auto simp: get_si_and_expected_header_size_def head_len_first_def head_len_full_def
        head_len_not_first_def rlc_um_pdu_header_size_complete_sdu_def split: if_splits)
  have wl: "length (um_wire ?sz g) = length (seg_payload g) + hl"
    using um_wire_length [OF seg] by (simp add: g hl)
  let ?h = "\<lparr>um_si = si, um_sn_size = ?sz, um_sn = ucast (umtx_tx_next e), um_so = of_nat ?so\<rparr>"
  have w: "um_wire ?sz g = rlc_um_write_data_pdu_header ?h [] @ seg_payload g"
    using um_wire_header [of g ?sz] seg by (auto simp: g um_segment_of_def split: if_splits)
  then have hb: "length (rlc_um_write_data_pdu_header ?h []) = hl"
    using wl by simp
  have p: "take (length (seg_payload g)) (drop ?so ?buf) = seg_payload g" and so: "seg_so g = ?so"
    by (auto simp: g min_def)
  have pl: "(if length ?buf - ?so \<le> grant - hl then length ?buf - ?so else grant - hl) =
      length (seg_payload g)"
    by (simp add: g min_def)
  have si: "si = Full_sdu \<or> si = Last_segment \<longleftrightarrow> ?so + length (seg_payload g) = length ?buf"
      "si = Last_segment \<longleftrightarrow> ?so + length (seg_payload g) = length ?buf \<and> ?so \<noteq> 0"
    using seg by (auto simp: um_segment_of_def g split: if_splits)
  have le: "length (um_wire ?sz g) \<le> grant"
  proof -
    have "length (seg_payload g) \<le> grant - hl" by (simp add: g)
    with hlg show ?thesis by (simp add: wl)
  qed
  show ?thesis
    unfolding umtx_build_pdu_def Let_def gs option.case prod.case hb pl p w [symmetric]
    using hlg le si by (auto simp: umtx_after_def so)
qed

lemma umtx_after_inv:
  assumes inv: "umtx_inv cfg e" and ne: "sdu_buf (umtx_sdu e) \<noteq> []"
    and seg: "um_segment_of (txum_sn_field_length cfg) (sdu_buf (umtx_sdu e)) g"
  shows "umtx_inv cfg (umtx_after cfg g e)"
    and "umtx_sdus (umtx_after cfg g e) =
      (if seg_so g + length (seg_payload g) = sdu_len (umtx_sdu e)
       then tl (umtx_sdus e) else umtx_sdus e)"
proof -
  have "(umtx_tx_next e + 1) mod umtx_mod cfg < umtx_mod cfg"
    unfolding umtx_mod_def by (rule um.less_md_iff)
  with inv ne seg show "umtx_inv cfg (umtx_after cfg g e)"
    by (auto simp: umtx_after_def umtx_inv_def um_segment_of_def)
  from ne show "umtx_sdus (umtx_after cfg g e) =
      (if seg_so g + length (seg_payload g) = sdu_len (umtx_sdu e)
       then tl (umtx_sdus e) else umtx_sdus e)"
    by (simp add: umtx_after_def umtx_sdus_def)
qed

text \<open>
  \<open>pull_pdu\<close> as a whole.  Either no PDU comes out and at most an SDU was loaded, or the PDU is the
  next segment of the first SDU not fully transmitted.
\<close>

lemma umtx_pull_pdu_ok:
  assumes inv: "umtx_inv cfg e"
  obtains (idle) evs e' where "umtx_pull_pdu cfg grant e = Inr ([], evs, e')" "umtx_inv cfg e'"
      "umtx_sdus e' = umtx_sdus e" "umtx_tx_next e' = umtx_tx_next e"
      "umtx_next_so e' = umtx_next_so e"
      "sdu_buf (umtx_sdu e) \<noteq> [] \<longrightarrow> umtx_sdu e' = umtx_sdu e"
    | (segment) evs e1 g where
      "umtx_pull_pdu cfg grant e =
        Inr (um_wire (txum_sn_field_length cfg) g, evs, umtx_after cfg g e1)"
      "umtx_inv cfg e1" "umtx_sdus e1 = umtx_sdus e" "umtx_tx_next e1 = umtx_tx_next e"
      "umtx_next_so e1 = umtx_next_so e" "sdu_buf (umtx_sdu e1) \<noteq> []"
      "sdu_buf (umtx_sdu e) \<noteq> [] \<longrightarrow> umtx_sdu e1 = umtx_sdu e"
      "um_segment_of (txum_sn_field_length cfg) (sdu_buf (umtx_sdu e1)) g"
      "seg_sn g = umtx_tx_next e" "seg_so g = umtx_next_so e"
      "length (um_wire (txum_sn_field_length cfg) g) \<le> grant"
proof (cases "grant \<le> head_len_full")
  case True
  then have "umtx_pull_pdu cfg grant e = Inr ([], [], e)"
    by (simp add: umtx_pull_pdu_def)
  then show thesis by (rule idle) (use inv in simp_all)
next
  case False
  obtain loaded evs e1 where l: "umtx_load_sdu e = Inr (loaded, evs, e1)" "umtx_inv cfg e1"
    "umtx_sdus e1 = umtx_sdus e" "umtx_tx_next e1 = umtx_tx_next e"
    "umtx_next_so e1 = umtx_next_so e"
    "sdu_buf (umtx_sdu e) \<noteq> [] \<longrightarrow> umtx_sdu e1 = umtx_sdu e"
    "loaded \<longrightarrow> sdu_buf (umtx_sdu e1) \<noteq> []"
    using umtx_load_sdu_ok [OF inv] by (auto split: if_splits)
  show thesis
  proof (cases "loaded \<and> umtx_next_segment cfg grant e1 \<noteq> None")
    case no: False
    then have "umtx_pull_pdu cfg grant e = Inr ([], evs, e1)"
      using False l(1) umtx_build_pdu_none [of cfg grant e1] by (auto simp: umtx_pull_pdu_def)
    then show thesis by (rule idle) (use l in simp_all)
  next
    case True
    then obtain g where g: "umtx_next_segment cfg grant e1 = Some g" and ne: "sdu_buf (umtx_sdu e1) \<noteq> []"
      using l(7) by auto
    have gr: "head_len_full < grant" using False by simp
    note b = umtx_build_pdu_some [OF l(2) ne gr g]
    have pu: "umtx_pull_pdu cfg grant e =
        Inr (um_wire (txum_sn_field_length cfg) g, evs, umtx_after cfg g e1)"
      using False True l(1) b by (simp add: umtx_pull_pdu_def)
    have "seg_sn g = umtx_tx_next e" "seg_so g = umtx_next_so e"
      using g l(4,5) by (auto simp: umtx_next_segment_def)
    then show thesis
      using b l ne umtx_next_segment_of [OF l(2) ne gr g] by (intro segment [OF pu]) simp_all
  qed
qed

section \<open>Buffer state\<close>

definition umtx_bytes :: "rlc_tx_um_config \<Rightarrow> rlc_tx_um_entity \<Rightarrow> nat" where
  "umtx_bytes cfg e =
    sdus_bytes (queue_sdus (umtx_sdu_queue e)) + length (queue_sdus (umtx_sdu_queue e)) +
    (if sdu_buf (umtx_sdu e) = [] then 0
     else sdu_len (umtx_sdu e) - umtx_next_so e + head_len_not_first cfg)"

lemma head_len_not_first_bound: "1 \<le> head_len_not_first cfg \<and> head_len_not_first cfg \<le> 4"
  by (cases "txum_sn_field_length cfg") (simp_all add: head_len_not_first_def)

lemma sdus_bytes_le:
  "\<forall>s \<in> set ss. sdu_len s \<le> m \<Longrightarrow> sdus_bytes ss \<le> m * length ss"
  by (induction ss) auto

lemma umtx_buffer_state_exact:
  assumes "umtx_inv cfg e" "length (queue_sdus (umtx_sdu_queue e)) \<le> 4096"
  shows "unat (umtx_get_buffer_state cfg e) = umtx_bytes cfg e"
proof -
  let ?q = "umtx_sdu_queue e" and ?ss = "queue_sdus (umtx_sdu_queue e)"
  have q: "sdu_queue_inv ?q" using assms by (simp add: umtx_inv_def)
  have "sdus_bytes ?ss \<le> 65535 * length ?ss"
    using sq.members_law [OF q] by (intro sdus_bytes_le) auto
  moreover have "unat (size_bytes ?q) = sdus_bytes ?ss" "unat (size_sdus ?q) = length ?ss"
    using sq.sizes_law [OF q] by auto
  ultimately have sz: "size_bytes ?q = of_nat (sdus_bytes ?ss)" "size_sdus ?q = of_nat (length ?ss)"
    by (metis of_nat_unat ucast_id)+
  have "umtx_get_buffer_state cfg e = of_nat (umtx_bytes cfg e)"
    by (simp add: umtx_get_buffer_state_def umtx_bytes_def sz head_len_full_def Let_def
        rlc_um_pdu_header_size_complete_sdu_def)
  moreover have "umtx_bytes cfg e < 2 ^ 32"
    using assms \<open>sdus_bytes ?ss \<le> 65535 * length ?ss\<close> head_len_not_first_bound [of cfg]
    by (auto simp: umtx_bytes_def umtx_inv_def)
  ultimately show ?thesis by (simp add: unat_of_nat)
qed

text \<open>A grant as large as the buffer state takes the rest of the first SDU in one PDU.\<close>

lemma umtx_flush_current:
  assumes inv: "umtx_inv cfg e" and ne: "sdu_buf (umtx_sdu e) \<noteq> []" and g: "head_len_full < grant"
    and gr: "sdu_len (umtx_sdu e) - umtx_next_so e +
      (if umtx_next_so e = 0 then head_len_full else head_len_not_first cfg) \<le> grant"
  shows "\<exists>pdu e'. umtx_build_pdu cfg grant e = Inr (pdu, e') \<and> umtx_inv cfg e' \<and>
    length pdu = sdu_len (umtx_sdu e) - umtx_next_so e +
      (if umtx_next_so e = 0 then head_len_full else head_len_not_first cfg) \<and>
    sdu_buf (umtx_sdu e') = [] \<and> umtx_sdu_queue e' = umtx_sdu_queue e"
proof -
  let ?sz = "txum_sn_field_length cfg"
  have so: "umtx_next_so e < sdu_len (umtx_sdu e)" using inv ne by (simp add: umtx_inv_def)
  define gg where "gg = \<lparr>seg_si = (if umtx_next_so e = 0 then Full_sdu else Last_segment),
    seg_sn = umtx_tx_next e, seg_so = umtx_next_so e,
    seg_payload = drop (umtx_next_so e) (sdu_buf (umtx_sdu e))\<rparr>"
  have gg: "umtx_next_segment cfg grant e = Some gg"
  proof (cases "umtx_next_so e = 0")
    case True
    with gr have "sdu_len (umtx_sdu e) \<le> grant - head_len_full" by simp
    with True show ?thesis
      by (simp add: umtx_next_segment_def get_si_and_expected_header_size_def gg_def)
  next
    case False
    with gr so have "\<not> grant \<le> head_len_not_first cfg"
      "sdu_len (umtx_sdu e) - umtx_next_so e \<le> grant - head_len_not_first cfg"
      by (auto simp del: diff_le_mono)
    with False show ?thesis
      by (simp add: umtx_next_segment_def get_si_and_expected_header_size_def gg_def)
  qed
  have gg_so: "seg_so gg = umtx_next_so e"
    and pay: "seg_payload gg = drop (umtx_next_so e) (sdu_buf (umtx_sdu e))"
    and si: "seg_si gg = (if umtx_next_so e = 0 then Full_sdu else Last_segment)"
    by (simp_all add: gg_def)
  note seg = umtx_next_segment_of [OF inv ne g gg]
  have "length (um_wire ?sz gg) = sdu_len (umtx_sdu e) - umtx_next_so e +
      (if umtx_next_so e = 0 then head_len_full else head_len_not_first cfg)"
    using um_wire_length [OF seg] si pay
    by (simp add: head_len_full_def head_len_not_first_def rlc_um_pdu_header_size_complete_sdu_def)
  moreover have "seg_so gg + length (seg_payload gg) = sdu_len (umtx_sdu e)"
    using so by (simp add: pay gg_so)
  ultimately show ?thesis
    using umtx_build_pdu_some [OF inv ne g gg] umtx_after_inv [OF inv ne seg]
    by (simp add: umtx_after_def)
qed

lemma umtx_flush_step:
  assumes inv: "umtx_inv cfg e" and ne: "umtx_sdus e \<noteq> []" and gr: "umtx_bytes cfg e \<le> grant"
  shows "\<exists>pdu evs e'. umtx_pull_pdu cfg grant e = Inr (pdu, evs, e') \<and> umtx_inv cfg e' \<and>
    pdu \<noteq> [] \<and> umtx_sdus e' = tl (umtx_sdus e) \<and> umtx_bytes cfg e' + length pdu \<le> umtx_bytes cfg e \<and>
    length (queue_sdus (umtx_sdu_queue e')) \<le> length (queue_sdus (umtx_sdu_queue e))"
proof -
  have h1: "head_len_full = 1"
    by (simp add: head_len_full_def rlc_um_pdu_header_size_complete_sdu_def)
  show ?thesis
  proof (cases "sdu_buf (umtx_sdu e) = []")
    case False
    then have so: "umtx_next_so e < sdu_len (umtx_sdu e)" using inv by (simp add: umtx_inv_def)
    have "head_len_full < grant"
      using gr so False head_len_not_first_bound [of cfg] by (simp add: umtx_bytes_def h1, linarith)
    moreover have "sdu_len (umtx_sdu e) - umtx_next_so e +
      (if umtx_next_so e = 0 then head_len_full else head_len_not_first cfg) \<le> grant"
      using gr False head_len_not_first_bound [of cfg] by (auto simp: umtx_bytes_def h1)
    ultimately obtain pdu e' where b: "umtx_build_pdu cfg grant e = Inr (pdu, e')" "umtx_inv cfg e'"
      "length pdu = sdu_len (umtx_sdu e) - umtx_next_so e +
        (if umtx_next_so e = 0 then head_len_full else head_len_not_first cfg)"
      "sdu_buf (umtx_sdu e') = []" "umtx_sdu_queue e' = umtx_sdu_queue e"
      using umtx_flush_current [OF inv False] by blast
    moreover have "umtx_pull_pdu cfg grant e = Inr (pdu, [], e')"
      using b(1) False \<open>head_len_full < grant\<close> by (simp add: umtx_pull_pdu_def umtx_load_sdu_def)
    moreover have "pdu \<noteq> []" using b(3) so by auto
    ultimately show ?thesis
      using False head_len_not_first_bound [of cfg]
      by (auto simp: umtx_sdus_def umtx_bytes_def h1)
  next
    case True
    then obtain s ss where q: "queue_sdus (umtx_sdu_queue e) = s # ss"
      using ne by (cases "queue_sdus (umtx_sdu_queue e)") (auto simp: umtx_sdus_def)
    have qi: "sdu_queue_inv (umtx_sdu_queue e)" and so: "umtx_next_so e = 0"
      using inv True by (simp_all add: umtx_inv_def)
    obtain q' where r: "sdu_queue_read (umtx_sdu_queue e) = Inr (Some s, q')" "sdu_queue_inv q'"
      "queue_sdus q' = ss" "sdu_buf s \<noteq> []" "sdu_len s \<le> 65535"
      by (rule sq.read_next [OF qi q])
    let ?e = "e\<lparr>umtx_sdu_queue := q', umtx_sdu := s\<rparr>"
    have e1: "umtx_inv cfg ?e" "sdu_buf (umtx_sdu ?e) \<noteq> []"
      using inv r so by (simp_all add: umtx_inv_def)
    have "head_len_full < grant" "sdu_len s + 1 \<le> grant"
      using r(4) gr q True by (cases "sdu_buf s"; simp add: umtx_bytes_def h1)+
    then obtain pdu e' where b: "umtx_build_pdu cfg grant ?e = Inr (pdu, e')" "umtx_inv cfg e'"
      "length pdu = sdu_len s + 1" "sdu_buf (umtx_sdu e') = []" "umtx_sdu_queue e' = q'"
      using umtx_flush_current [OF e1, of grant] so by (auto simp: h1)
    moreover have "umtx_pull_pdu cfg grant e = Inr (pdu,
        (case sdu_pdcp_sn s of None \<Rightarrow> [] | Some sn \<Rightarrow> [On_transmitted_sdu sn]), e')"
      using b(1) True so r(1) \<open>head_len_full < grant\<close>
      by (simp add: umtx_pull_pdu_def umtx_load_sdu_def)
    moreover have "pdu \<noteq> []" using b(3) by auto
    ultimately show ?thesis
      using True q r(3) by (auto simp: umtx_sdus_def umtx_bytes_def h1)
  qed
qed

section \<open>Runs\<close>

datatype um_tx_call = Umtx_sdu rlc_sdu | Umtx_discard u32 | Umtx_grant nat | Umtx_report

fun um_tx_call_ok :: "um_tx_call \<Rightarrow> bool" where
  "um_tx_call_ok (Umtx_sdu sdu) = (sdu_buf sdu \<noteq> [] \<and> sdu_len sdu \<le> 65535)"
| "um_tx_call_ok _ = True"

text \<open>One call; the answer is the PDU pulled, with the grant, if the call is a grant.\<close>

fun umtx_step ::
  "rlc_tx_um_config \<Rightarrow> um_tx_call \<Rightarrow> rlc_tx_um_entity \<Rightarrow> ((nat \<times> bytes) option \<times> rlc_tx_um_entity) res"
where
  "umtx_step cfg (Umtx_sdu sdu) e =
    map_sum id (\<lambda>(_, e'). (None, e')) (umtx_handle_sdu True sdu e)"
| "umtx_step cfg (Umtx_discard sn) e =
    map_sum id (\<lambda>(_, e'). (None, e')) (umtx_discard_sdu True sn e)"
| "umtx_step cfg (Umtx_grant g) e =
    map_sum id (\<lambda>(pdu, _, e'). (Some (g, pdu), e')) (umtx_pull_pdu cfg g e)"
| "umtx_step cfg Umtx_report e = Inr (None, snd (umtx_update_mac_buffer_state cfg e))"

fun umtx_run ::
  "rlc_tx_um_config \<Rightarrow> um_tx_call list \<Rightarrow> rlc_tx_um_entity \<Rightarrow>
    ((nat \<times> bytes) list \<times> rlc_tx_um_entity) res" where
  "umtx_run cfg [] e = Inr ([], e)"
| "umtx_run cfg (c # cs) e =
    (case umtx_step cfg c e of
       Inl f \<Rightarrow> Inl f
     | Inr (out, e') \<Rightarrow>
         (case umtx_run cfg cs e' of
            Inl f \<Rightarrow> Inl f
          | Inr (outs, e'') \<Rightarrow> Inr ((case out of None \<Rightarrow> outs | Some x \<Rightarrow> x # outs), e'')))"

lemma umtx_step_ok:
  assumes inv: "umtx_inv cfg e" and ok: "um_tx_call_ok c"
  shows "\<exists>out e'. umtx_step cfg c e = Inr (out, e') \<and> umtx_inv cfg e' \<and>
    (\<forall>g pdu. out = Some (g, pdu) \<longrightarrow> length pdu \<le> g)"
proof (cases c)
  case (Umtx_sdu sdu)
  with umtx_handle_sdu_ok [OF inv, of sdu True] ok show ?thesis by auto
next
  case (Umtx_discard sn)
  with umtx_discard_sdu_ok [OF inv, of True sn] show ?thesis by auto
next
  case (Umtx_grant g)
  from inv show ?thesis
  proof (cases rule: umtx_pull_pdu_ok [where grant = g])
    case (idle evs e')
    with Umtx_grant show ?thesis by auto
  next
    case (segment evs e1 h)
    with Umtx_grant umtx_after_inv(1) [OF segment(2,6,8)] show ?thesis by auto
  qed
next
  case Umtx_report
  with inv show ?thesis
    by (auto simp: umtx_update_mac_buffer_state_def Let_def umtx_inv_def)
qed

lemma umtx_run_ok:
  "umtx_inv cfg e \<Longrightarrow> list_all um_tx_call_ok cs \<Longrightarrow>
    \<exists>outs e'. umtx_run cfg cs e = Inr (outs, e') \<and> umtx_inv cfg e' \<and>
      (\<forall>(g, pdu) \<in> set outs. length pdu \<le> g)"
proof (induction cs arbitrary: e)
  case (Cons c cs)
  then obtain out e1 where s: "umtx_step cfg c e = Inr (out, e1)" "umtx_inv cfg e1"
    "\<forall>g pdu. out = Some (g, pdu) \<longrightarrow> length pdu \<le> g"
    using umtx_step_ok [of cfg e c] by auto
  obtain outs e' where "umtx_run cfg cs e1 = Inr (outs, e')" "umtx_inv cfg e'"
      "\<forall>(g, pdu) \<in> set outs. length pdu \<le> g"
    using Cons.IH [OF s(2)] Cons.prems by auto
  with s show ?case by (auto split: option.split)
qed simp

section \<open>Properties\<close>



text \<open>C22: The buffer state the UM transmitter reports is enough to flush it: a grant of that size
  empties the first SDU into one PDU, and the buffer state then drops by at least the length of the
  PDU, so the PDUs that flush the entity never add up to more than the reported value.\<close>

theorem um_buffer_state_flushes:
  assumes "umtx_inv cfg e" "length (queue_sdus (umtx_sdu_queue e)) \<le> 4096" "umtx_sdus e \<noteq> []"
    "unat (umtx_get_buffer_state cfg e) \<le> grant"
  shows "\<exists>pdu evs e'. umtx_pull_pdu cfg grant e = Inr (pdu, evs, e') \<and> pdu \<noteq> [] \<and>
    umtx_sdus e' = tl (umtx_sdus e) \<and>
    unat (umtx_get_buffer_state cfg e') + length pdu \<le> unat (umtx_get_buffer_state cfg e)"
proof -
  have bs: "unat (umtx_get_buffer_state cfg e) = umtx_bytes cfg e"
    by (rule umtx_buffer_state_exact [OF assms(1,2)])
  obtain pdu evs e' where p: "umtx_pull_pdu cfg grant e = Inr (pdu, evs, e')" "umtx_inv cfg e'"
    "pdu \<noteq> []" "umtx_sdus e' = tl (umtx_sdus e)" "umtx_bytes cfg e' + length pdu \<le> umtx_bytes cfg e"
    "length (queue_sdus (umtx_sdu_queue e')) \<le> length (queue_sdus (umtx_sdu_queue e))"
    using umtx_flush_step [OF assms(1,3), of grant] assms(4) bs by auto
  then have "unat (umtx_get_buffer_state cfg e') = umtx_bytes cfg e'"
    using assms(2) by (intro umtx_buffer_state_exact) auto
  with p bs show ?thesis by auto
qed

theorem um_buffer_state_flushes_witness:
  "let cfg = \<lparr>txum_sn_field_length = Um_size12bits\<rparr>;
       e = (rlc_tx_um_entity_init 256 (2 ^ 8))\<lparr>umtx_sdu := \<lparr>sdu_buf = [1, 2, 3, 4], sdu_pdcp_sn = None\<rparr>,
             umtx_next_so := 1\<rparr> in
    \<exists>pdu evs e'. umtx_pull_pdu cfg 100 e = Inr (pdu, evs, e') \<and> pdu \<noteq> [] \<and> umtx_sdus e' = [] \<and>
      unat (umtx_get_buffer_state cfg e') + length pdu \<le> unat (umtx_get_buffer_state cfg e)"
proof -
  let ?cfg = "\<lparr>txum_sn_field_length = Um_size12bits\<rparr>"
  let ?e = "(rlc_tx_um_entity_init 256 (2 ^ 8))\<lparr>umtx_sdu := \<lparr>sdu_buf = [1, 2, 3, 4], sdu_pdcp_sn = None\<rparr>,
             umtx_next_so := 1\<rparr>"
  have q: "sdu_queue_inv (umtx_sdu_queue ?e)" "queue_sdus (umtx_sdu_queue ?e) = []"
    using sdu_queue_make_inv [of 256 8] by (simp_all add: rlc_tx_um_entity_init_def)
  have inv: "umtx_inv ?cfg ?e"
    using q by (simp add: umtx_inv_def rlc_tx_um_entity_init_def umtx_mod_def)
  have sd: "umtx_sdus ?e = [[1, 2, 3, 4]]"
    using q by (simp add: umtx_sdus_def)
  have "unat (umtx_get_buffer_state ?cfg ?e) = umtx_bytes ?cfg ?e"
    using q inv by (intro umtx_buffer_state_exact) simp_all
  also have "\<dots> \<le> 100"
    using q by (simp add: umtx_bytes_def head_len_not_first_def)
  finally show ?thesis
    using um_buffer_state_flushes [of ?cfg ?e 100] inv q sd by simp
qed

end
