(* ===== verification/Rlc_Rx_Um.thy ===== *)
theory Rlc_Rx_Um
  imports Rlc_Um_Pdu Rlc_Interfaces Ordered_Map
begin

text \<open>
  The receiving UM entity (\<open>lib/rlc/rlc_rx_um_entity.h\<close> and \<open>.cpp\<close>): the receive window, reassembly of
  segmented SDUs, the state variables and the reassembly timer.  Both \<open>std::map\<close>s are ordered
  association lists, iterated in the order of their keys as the code does.  The timer is the flag
  whether it is running; its expiry is the handler \<open>umrx_on_expired\<close>, called with the timer no
  longer running.  The entity has a branch that repeats itself without end; a call that takes it
  has the result \<open>None\<close>.

  The lemmas show that this branch is never taken, bounds of the state variables, and that the
  segments of an SDU are put together whatever their order.
\<close>

section \<open>State\<close>

record rlc_rx_um_sdu_segment =
  umseg_header :: rlc_um_pdu_header
  umseg_payload :: bytes

record rlc_rx_um_sdu_info =
  umi_segments :: "(u32, rlc_rx_um_sdu_segment) omap"
  umi_sdu :: bytes
  umi_next_expected_so :: u32
  umi_total_sdu_length :: u32

record rlc_rx_um_entity =
  umrx_next_reassembly :: u32
  umrx_timer_trigger :: u32
  umrx_next_highest :: u32
  umrx_window :: "(u32, rlc_rx_um_sdu_info) omap"
  umrx_reassembly_timer_running :: bool

definition rlc_rx_um_entity_init :: rlc_rx_um_entity where
  "rlc_rx_um_entity_init =
    \<lparr>umrx_next_reassembly = 0, umrx_timer_trigger = 0, umrx_next_highest = 0, umrx_window = [],
     umrx_reassembly_timer_running = False\<rparr>"

definition rlc_rx_um_sdu_info_init :: rlc_rx_um_sdu_info where
  "rlc_rx_um_sdu_info_init =
    \<lparr>umi_segments = [], umi_sdu = [], umi_next_expected_so = 0, umi_total_sdu_length = 0\<rparr>"

definition umrx_mod :: "rlc_rx_um_config \<Rightarrow> u32" where
  "umrx_mod cfg = um_mod (rxum_sn_field_length cfg)"

definition um_window_size :: "rlc_rx_um_config \<Rightarrow> u32" where
  "um_window_size cfg = um_window (rxum_sn_field_length cfg)"

definition umrx_mod_base :: "rlc_rx_um_config \<Rightarrow> rlc_rx_um_entity \<Rightarrow> u32 \<Rightarrow> u32" where
  "umrx_mod_base cfg e x = (x - umrx_next_highest e - um_window_size cfg) mod umrx_mod cfg"

definition sn_in_reassembly_window :: "rlc_rx_um_config \<Rightarrow> rlc_rx_um_entity \<Rightarrow> u32 \<Rightarrow> bool" where
  "sn_in_reassembly_window cfg e sn \<longleftrightarrow>
    umrx_mod_base cfg e (umrx_next_highest e - um_window_size cfg) \<le> umrx_mod_base cfg e sn \<and>
    umrx_mod_base cfg e sn < umrx_mod_base cfg e (umrx_next_highest e)"

definition sn_invalid_for_rx_buffer :: "rlc_rx_um_config \<Rightarrow> rlc_rx_um_entity \<Rightarrow> u32 \<Rightarrow> bool" where
  "sn_invalid_for_rx_buffer cfg e sn \<longleftrightarrow>
    umrx_mod_base cfg e (umrx_next_highest e - um_window_size cfg) \<le> umrx_mod_base cfg e sn \<and>
    umrx_mod_base cfg e sn < umrx_mod_base cfg e (umrx_next_reassembly e)"

definition has_missing_byte_segment :: "rlc_rx_um_entity \<Rightarrow> u32 \<Rightarrow> bool" where
  "has_missing_byte_segment e sn \<longleftrightarrow> om_lookup (umrx_window e) sn \<noteq> None"

definition update_total_sdu_length ::
  "rlc_rx_um_sdu_info \<Rightarrow> rlc_rx_um_sdu_segment \<Rightarrow> rlc_rx_um_sdu_info" where
  "update_total_sdu_length info seg =
    (if um_si (umseg_header seg) = Last_segment
     then info\<lparr>umi_total_sdu_length :=
                 ucast (um_so (umseg_header seg)) + of_nat (length (umseg_payload seg))\<rparr>
     else info)"

section \<open>Reassembly\<close>

text \<open>
  The loop over the received segments.  Its state is the position in the map, the SDU so far and
  the next expected offset; the result has the segments left in the map, the SDU, the next offset
  and whether the SDU is complete.  A first segment found while the SDU is not empty and the next
  expected offset is zero is neither chained nor skipped: the loop does not end.
\<close>

fun um_assemble ::
  "u32 \<Rightarrow> (u32, rlc_rx_um_sdu_segment) omap \<Rightarrow> bytes \<Rightarrow> u32 \<Rightarrow>
    ((u32, rlc_rx_um_sdu_segment) omap \<times> bytes \<times> u32 \<times> bool) option" where
  "um_assemble sdu_total [] sdu next_so = Some ([], sdu, next_so, False)"
| "um_assemble sdu_total ((k, seg) # segs) sdu next_so =
    (if ucast (um_so (umseg_header seg)) = next_so then
       if next_so = 0 then
         if sdu = [] then um_assemble sdu_total segs (umseg_payload seg) (of_nat (length (umseg_payload seg)))
         else None
       else
         (let sdu' = sdu @ umseg_payload seg;
              next_so' = next_so + of_nat (length (umseg_payload seg)) in
          if next_so' = sdu_total then Some (segs, sdu', next_so', True)
          else um_assemble sdu_total segs sdu' next_so')
     else
       (case um_assemble sdu_total segs sdu next_so of
          None \<Rightarrow> None
        | Some (left, r) \<Rightarrow> Some ((k, seg) # left, r)))"

text \<open>The tail of \<open>handle_rx_buffer_update\<close>: stop and start the reassembly timer.\<close>

definition umrx_timer_stop :: "rlc_rx_um_config \<Rightarrow> rlc_rx_um_entity \<Rightarrow> rlc_rx_um_entity" where
  "umrx_timer_stop cfg e =
    (if umrx_reassembly_timer_running e \<and>
        (umrx_timer_trigger e \<le> umrx_next_reassembly e \<or>
         \<not> sn_in_reassembly_window cfg e (umrx_timer_trigger e) \<and>
           umrx_timer_trigger e \<noteq> umrx_next_highest e \<or>
         umrx_next_highest e = umrx_next_reassembly e + 1 \<and>
           \<not> has_missing_byte_segment e (umrx_next_reassembly e))
     then e\<lparr>umrx_reassembly_timer_running := False\<rparr> else e)"

definition umrx_timer_start :: "rlc_rx_um_config \<Rightarrow> rlc_rx_um_entity \<Rightarrow> rlc_rx_um_entity" where
  "umrx_timer_start cfg e =
    (if umrx_mod_base cfg e (umrx_next_highest e) >
          umrx_mod_base cfg e (umrx_next_reassembly e + 1) \<or>
        umrx_mod_base cfg e (umrx_next_highest e) =
          umrx_mod_base cfg e (umrx_next_reassembly e + 1) \<and>
          has_missing_byte_segment e (umrx_next_reassembly e)
     then e\<lparr>umrx_reassembly_timer_running := True, umrx_timer_trigger := umrx_next_highest e\<rparr>
     else e)"

definition umrx_update_timer :: "rlc_rx_um_config \<Rightarrow> rlc_rx_um_entity \<Rightarrow> rlc_rx_um_entity" where
  "umrx_update_timer cfg e =
    (let e = umrx_timer_stop cfg e in
     if \<not> umrx_reassembly_timer_running e then umrx_timer_start cfg e else e)"

text \<open>A completed SDU is delivered and removed; RX_Next_Reassembly moves on if it was waiting for it.\<close>

definition umrx_deliver :: "rlc_rx_um_config \<Rightarrow> u32 \<Rightarrow> rlc_rx_um_entity \<Rightarrow> rlc_rx_um_entity" where
  "umrx_deliver cfg sn e =
    (let e = e\<lparr>umrx_window := om_erase sn (umrx_window e)\<rparr> in
     if sn = umrx_next_reassembly e then
       if umrx_window e = [] then e\<lparr>umrx_next_reassembly := umrx_next_highest e\<rparr>
       else (case find (\<lambda>(k, _). umrx_mod_base cfg e k >
                      umrx_mod_base cfg e (umrx_next_reassembly e)) (umrx_window e) of
               None \<Rightarrow> e
             | Some (k, _) \<Rightarrow> e\<lparr>umrx_next_reassembly := k\<rparr>)
     else e)"

text \<open>An SN beyond the window moves the window.\<close>

definition umrx_advance :: "rlc_rx_um_config \<Rightarrow> u32 \<Rightarrow> rlc_rx_um_entity \<Rightarrow> rlc_rx_um_entity" where
  "umrx_advance cfg sn e =
    (let e = e\<lparr>umrx_next_highest := (sn + 1) mod umrx_mod cfg\<rparr>;
         e = e\<lparr>umrx_window := filter (\<lambda>(k, _). sn_in_reassembly_window cfg e k) (umrx_window e)\<rparr> in
     if \<not> sn_in_reassembly_window cfg e (umrx_next_reassembly e) then
       (case find (\<lambda>(k, _). k \<ge> umrx_mod_base cfg e (umrx_next_highest e - um_window_size cfg))
               (umrx_window e) of
          None \<Rightarrow> e
        | Some (k, _) \<Rightarrow> e\<lparr>umrx_next_reassembly := k\<rparr>)
     else e)"

definition handle_rx_buffer_update ::
  "rlc_rx_um_config \<Rightarrow> u32 \<Rightarrow> rlc_rx_um_entity \<Rightarrow> (rlc_rx_event list \<times> rlc_rx_um_entity) option" where
  "handle_rx_buffer_update cfg sn e =
    (case om_lookup (umrx_window e) sn of
       None \<Rightarrow> Some ([], e)
     | Some info \<Rightarrow>
         (case um_assemble (umi_total_sdu_length info) (umi_segments info) (umi_sdu info)
                 (umi_next_expected_so info) of
            None \<Rightarrow> None
          | Some (segs, sdu, next_so, sdu_complete) \<Rightarrow>
              (let info = info\<lparr>umi_segments := segs, umi_sdu := sdu, umi_next_expected_so := next_so\<rparr>;
                   e = e\<lparr>umrx_window := om_update sn info (umrx_window e)\<rparr> in
               if sdu_complete then
                 Some ([On_new_sdu sdu], umrx_update_timer cfg (umrx_deliver cfg sn e))
               else if \<not> sn_in_reassembly_window cfg e sn then
                 Some ([], umrx_update_timer cfg (umrx_advance cfg sn e))
               else Some ([], umrx_update_timer cfg e))))"

section \<open>Handlers\<close>

definition umrx_store ::
  "u32 \<Rightarrow> rlc_rx_um_sdu_segment \<Rightarrow> rlc_rx_um_entity \<Rightarrow> rlc_rx_um_entity" where
  "umrx_store sn seg e =
    (let info = (case om_lookup (umrx_window e) sn of None \<Rightarrow> rlc_rx_um_sdu_info_init | Some i \<Rightarrow> i);
         info = update_total_sdu_length info seg;
         info = info\<lparr>umi_segments :=
           om_emplace (ucast (um_so (umseg_header seg))) seg (umi_segments info)\<rparr> in
     e\<lparr>umrx_window := om_update sn info (umrx_window e)\<rparr>)"

definition umrx_handle_pdu ::
  "rlc_rx_um_config \<Rightarrow> bytes \<Rightarrow> rlc_rx_um_entity \<Rightarrow> (rlc_rx_event list \<times> rlc_rx_um_entity) option" where
  "umrx_handle_pdu cfg buf e =
    (case rlc_um_read_data_pdu_header buf (rxum_sn_field_length cfg) rlc_um_pdu_header_init of
       None \<Rightarrow> Some ([], e)
     | Some header \<Rightarrow>
         (let header_len = rlc_um_nr_packed_length header in
          if length buf \<le> header_len then Some ([], e)
          else
            (let payload = drop header_len buf; sn = ucast (um_sn header) in
             if um_si header = Full_sdu then Some ([On_new_sdu payload], e)
             else if sn_invalid_for_rx_buffer cfg e sn then Some ([], e)
             else handle_rx_buffer_update cfg sn
                    (umrx_store sn \<lparr>umseg_header = header, umseg_payload = payload\<rparr> e))))"

text \<open>
  The loop of the timer handler that moves RX_Next_Reassembly up to RX_Next_Highest; every round
  brings it one closer, so it ends within the modulus.
\<close>

fun umrx_skip :: "nat \<Rightarrow> rlc_rx_um_config \<Rightarrow> rlc_rx_um_entity \<Rightarrow> rlc_rx_um_entity option" where
  "umrx_skip 0 cfg e = None"
| "umrx_skip (Suc fuel) cfg e =
    (if umrx_mod_base cfg e (umrx_next_reassembly e) < umrx_mod_base cfg e (umrx_next_highest e)
     then umrx_skip fuel cfg
            (e\<lparr>umrx_next_reassembly := (umrx_next_reassembly e + 1) mod umrx_mod cfg\<rparr>)
     else Some e)"

definition umrx_on_expired ::
  "rlc_rx_um_config \<Rightarrow> rlc_rx_um_entity \<Rightarrow> rlc_rx_um_entity option" where
  "umrx_on_expired cfg e =
    (let e = e\<lparr>umrx_reassembly_timer_running := False,
               umrx_next_reassembly := umrx_timer_trigger e\<rparr> in
     case umrx_skip (unat (umrx_mod cfg)) cfg e of
       None \<Rightarrow> None
     | Some e \<Rightarrow>
         (let e = e\<lparr>umrx_window := filter (\<lambda>(k, _). \<not> umrx_mod_base cfg e k <
                      umrx_mod_base cfg e (umrx_next_reassembly e)) (umrx_window e)\<rparr> in
          Some (umrx_timer_start cfg e)))"

section \<open>Window arithmetic\<close>

definition umrx_off :: "rlc_rx_um_config \<Rightarrow> u32 \<Rightarrow> u32 \<Rightarrow> nat" where
  "umrx_off cfg h x = sn_off (umrx_mod cfg) (h + um_window_size cfg) x"

text \<open>\<open>umrx_off cfg h x\<close> is the distance of \<open>x\<close> from the lower edge of the window that ends at \<open>h\<close>.\<close>

lemma unat_umrx_mod_base: "unat (umrx_mod_base cfg e x) = umrx_off cfg (umrx_next_highest e) x"
  by (simp add: umrx_mod_base_def umrx_off_def sn_off_def diff_diff_eq)

lemma umrx_mod_base_less:
  "umrx_mod_base cfg e x < umrx_mod_base cfg e' y \<longleftrightarrow>
    umrx_off cfg (umrx_next_highest e) x < umrx_off cfg (umrx_next_highest e') y"
  by (simp add: word_less_nat_alt unat_umrx_mod_base)

lemma umrx_mod_base_eq:
  "umrx_mod_base cfg e x = umrx_mod_base cfg e' y \<longleftrightarrow>
    umrx_off cfg (umrx_next_highest e) x = umrx_off cfg (umrx_next_highest e') y"
  by (simp add: word_unat_eq_iff unat_umrx_mod_base)

lemma umrx_off_edges:
  "umrx_off cfg h (h - um_window_size cfg) = 0" "umrx_off cfg h h = unat (um_window_size cfg)"
  "umrx_off cfg ((sn + 1) mod umrx_mod cfg) sn = unat (um_window_size cfg) - 1"
  by (simp_all add: umrx_off_def umrx_mod_def um_window_size_def um.off_window_bottom
      um.off_window_top um.off_window_last)

lemma um_window_size_pos: "0 < unat (um_window_size cfg)"
  by (simp only: um_window_size_def um.W_pos)

lemma umrx_mod_double: "unat (umrx_mod cfg) = 2 * unat (um_window_size cfg)"
  by (simp only: um_window_size_def umrx_mod_def um.md_double)

lemma umrx_mod_less: "(x mod umrx_mod cfg) < umrx_mod cfg"
  by (simp only: umrx_mod_def um.less_md_iff)

lemma umrx_mod_base_bottom [simp]:
  "umrx_next_highest e = h \<Longrightarrow> umrx_mod_base cfg e (h - um_window_size cfg) = 0"
  by (metis unat_umrx_mod_base umrx_off_edges(1) unat_eq_zero)

lemma in_window_iff:
  "sn_in_reassembly_window cfg e sn \<longleftrightarrow>
    umrx_off cfg (umrx_next_highest e) sn < unat (um_window_size cfg)"
  by (simp add: sn_in_reassembly_window_def umrx_mod_base_less umrx_off_edges)

lemma invalid_iff:
  "sn_invalid_for_rx_buffer cfg e sn \<longleftrightarrow>
    umrx_off cfg (umrx_next_highest e) sn < umrx_off cfg (umrx_next_highest e) (umrx_next_reassembly e)"
  by (simp add: sn_invalid_for_rx_buffer_def umrx_mod_base_less)

section \<open>Invariant\<close>

definition um_info_inv :: "rlc_rx_um_sdu_info \<Rightarrow> bool" where
  "um_info_inv i \<longleftrightarrow>
    om_wf (umi_segments i) \<and> length (umi_sdu i) < 2 ^ 31 \<and>
    umi_next_expected_so i = of_nat (length (umi_sdu i)) \<and>
    (\<forall>(k, seg) \<in> set (umi_segments i). umseg_payload seg \<noteq> [] \<and> length (umseg_payload seg) < 2 ^ 30)"

text \<open>Every SN of the window but \<open>sn\<close> lies in the reassembly window.\<close>

definition umrx_inv_but :: "u32 option \<Rightarrow> rlc_rx_um_config \<Rightarrow> rlc_rx_um_entity \<Rightarrow> bool" where
  "umrx_inv_but sn cfg e \<longleftrightarrow>
    om_wf (umrx_window e) \<and>
    (\<forall>(k, i) \<in> set (umrx_window e). k < umrx_mod cfg \<and> um_info_inv i \<and>
      (sn = Some k \<or> sn_in_reassembly_window cfg e k)) \<and>
    umrx_next_highest e < umrx_mod cfg \<and> umrx_next_reassembly e < umrx_mod cfg \<and>
    umrx_timer_trigger e < umrx_mod cfg \<and>
    umrx_off cfg (umrx_next_highest e) (umrx_next_reassembly e) \<le> unat (um_window_size cfg)"

abbreviation umrx_inv :: "rlc_rx_um_config \<Rightarrow> rlc_rx_um_entity \<Rightarrow> bool" where
  "umrx_inv \<equiv> umrx_inv_but None"

lemma um_assemble_ok:
  assumes "om_wf segs" "length sdu < 2 ^ 31" "nso = of_nat (length sdu)"
    "\<forall>(k, seg) \<in> set segs. umseg_payload seg \<noteq> [] \<and> length (umseg_payload seg) < 2 ^ 30"
  shows "\<exists>segs' sdu' done. um_assemble tot segs sdu nso = Some (segs', sdu', of_nat (length sdu'), done) \<and>
    om_wf segs' \<and> set segs' \<subseteq> set segs \<and> length sdu' < 2 ^ 31"
  using assms
proof (induction tot segs sdu nso rule: um_assemble.induct)
  case (1 tot sdu nso)
  then show ?case by simp
next
  case (2 tot k seg segs sdu nso)
  let ?p = "umseg_payload seg" and ?so = "ucast (um_so (umseg_header seg)) :: u32"
  have wf: "om_wf segs" "\<forall>(k, seg) \<in> set segs. umseg_payload seg \<noteq> [] \<and> length (umseg_payload seg) < 2 ^ 30"
    and p: "length ?p < 2 ^ 30" and len: "unat nso = length sdu"
    using "2.prems" by (auto simp: om_wf_Cons unat_of_nat)
  consider "?so \<noteq> nso" | "?so = nso" "nso = 0" | "?so = nso" "nso \<noteq> 0" by blast
  then show ?case
  proof cases
    case 1
    with "2.IH"(3) "2.prems" wf obtain segs' sdu' d where
      r: "um_assemble tot segs sdu nso = Some (segs', sdu', of_nat (length sdu'), d)" "om_wf segs'"
      "set segs' \<subseteq> set segs" "length sdu' < 2 ^ 31"
      by auto
    then have "om_wf ((k, seg) # segs')"
      using "2.prems"(1) by (auto simp: om_wf_Cons)
    with r 1 show ?thesis by auto
  next
    case 2
    with len have "sdu = []" by simp
    with "2.IH"(1) 2 wf p show ?thesis by fastforce
  next
    case 3
    have "unat ?so < 2 ^ 16"
      using unsigned_less [of "um_so (umseg_header seg)", where 'a = nat] by simp
    then have l: "length (sdu @ ?p) < 2 ^ 31"
      using p len 3(1) by simp
    have n: "nso + of_nat (length ?p) = of_nat (length (sdu @ ?p))"
      using "2.prems"(3) by simp
    show ?thesis
    proof (cases "nso + of_nat (length ?p) = tot")
      case True
      with 3 l n wf show ?thesis by (auto simp: Let_def)
    next
      case False
      have "\<exists>segs' sdu' done. um_assemble tot segs (sdu @ ?p) (nso + of_nat (length ?p)) =
          Some (segs', sdu', of_nat (length sdu'), done) \<and>
        om_wf segs' \<and> set segs' \<subseteq> set segs \<and> length sdu' < 2 ^ 31"
        by (rule "2.IH"(2)) (use 3 False wf l n in auto)
      with 3 False show ?thesis by (auto simp: Let_def)
    qed
  qed
qed

lemma umrx_update_timer_fields:
  "umrx_window (umrx_update_timer cfg e) = umrx_window e"
  "umrx_next_highest (umrx_update_timer cfg e) = umrx_next_highest e"
  "umrx_next_reassembly (umrx_update_timer cfg e) = umrx_next_reassembly e"
  "umrx_timer_trigger (umrx_update_timer cfg e) \<in> {umrx_timer_trigger e, umrx_next_highest e}"
  by (simp_all add: umrx_update_timer_def umrx_timer_stop_def umrx_timer_start_def Let_def)

lemma umrx_timer_start_fields:
  "umrx_window (umrx_timer_start cfg e) = umrx_window e"
  "umrx_next_highest (umrx_timer_start cfg e) = umrx_next_highest e"
  "umrx_next_reassembly (umrx_timer_start cfg e) = umrx_next_reassembly e"
  "umrx_timer_trigger (umrx_timer_start cfg e) \<in> {umrx_timer_trigger e, umrx_next_highest e}"
  by (simp_all add: umrx_timer_start_def)

text \<open>The invariant depends on the window and the state variables only.\<close>

lemma umrx_inv_cong:
  assumes "umrx_inv_but s cfg e" "umrx_window e' = umrx_window e"
    "umrx_next_highest e' = umrx_next_highest e" "umrx_next_reassembly e' = umrx_next_reassembly e"
    "umrx_timer_trigger e' \<in> {umrx_timer_trigger e, umrx_next_highest e}"
  shows "umrx_inv_but s cfg e'"
  using assms by (auto simp: umrx_inv_but_def in_window_iff)

lemma umrx_update_timer_inv: "umrx_inv_but s cfg e \<Longrightarrow> umrx_inv_but s cfg (umrx_update_timer cfg e)"
  by (rule umrx_inv_cong) (rule umrx_update_timer_fields | assumption)+

lemma umrx_window_update_inv:
  assumes "umrx_inv_but s cfg e" "um_info_inv i" "sn < umrx_mod cfg" "s = None \<or> s = Some sn"
  shows "umrx_inv_but (Some sn) cfg (e\<lparr>umrx_window := om_update sn i (umrx_window e)\<rparr>)"
  using assms om_update_set [of sn i "umrx_window e"]
  by (auto simp: umrx_inv_but_def om_wf_update in_window_iff)

lemma um_info_inv_init: "um_info_inv rlc_rx_um_sdu_info_init"
  by (simp add: um_info_inv_def rlc_rx_um_sdu_info_init_def)

lemma umrx_lookup_inv:
  "umrx_inv_but s cfg e \<Longrightarrow> om_lookup (umrx_window e) sn = Some i \<Longrightarrow> um_info_inv i \<and> sn < umrx_mod cfg"
  by (auto simp: umrx_inv_but_def dest: om_lookup_in)

lemma umrx_store_inv:
  assumes inv: "umrx_inv cfg e" and sn: "sn < umrx_mod cfg"
    and p: "umseg_payload seg \<noteq> []" "length (umseg_payload seg) < 2 ^ 30"
  shows "umrx_inv_but (Some sn) cfg (umrx_store sn seg e)"
    and "om_lookup (umrx_window (umrx_store sn seg e)) sn \<noteq> None"
proof -
  let ?i = "case om_lookup (umrx_window e) sn of None \<Rightarrow> rlc_rx_um_sdu_info_init | Some i \<Rightarrow> i"
  let ?j = "(update_total_sdu_length ?i seg)\<lparr>umi_segments :=
    om_emplace (ucast (um_so (umseg_header seg))) seg (umi_segments (update_total_sdu_length ?i seg))\<rparr>"
  have "um_info_inv ?i"
    using umrx_lookup_inv [OF inv] um_info_inv_init by (auto split: option.split)
  then have "um_info_inv ?j"
    using p om_update_set [of "ucast (um_so (umseg_header seg))" seg "umi_segments ?i"]
    by (auto simp: um_info_inv_def update_total_sdu_length_def om_wf_emplace om_emplace_def om_wf_update
        split: option.split)
  then have "umrx_inv_but (Some sn) cfg (e\<lparr>umrx_window := om_update sn ?j (umrx_window e)\<rparr>)"
    by (intro umrx_window_update_inv [OF inv]) (simp_all add: sn)
  then show "umrx_inv_but (Some sn) cfg (umrx_store sn seg e)"
    by (simp only: umrx_store_def Let_def)
  show "om_lookup (umrx_window (umrx_store sn seg e)) sn \<noteq> None"
    by (simp add: umrx_store_def Let_def om_lookup_update)
qed

lemma umrx_inv_weaken: "umrx_inv_but (Some sn) cfg e \<Longrightarrow> sn_in_reassembly_window cfg e sn \<Longrightarrow> umrx_inv cfg e"
  by (auto simp: umrx_inv_but_def)

lemma umrx_deliver_inv:
  assumes "umrx_inv_but (Some sn) cfg e"
  shows "umrx_inv cfg (umrx_deliver cfg sn e)"
proof -
  let ?e = "e\<lparr>umrx_window := om_erase sn (umrx_window e)\<rparr>"
  have e: "umrx_inv cfg ?e"
    using assms by (auto simp: umrx_inv_but_def om_wf_filter om_erase_def in_window_iff)
  have "umrx_inv cfg (?e\<lparr>umrx_next_reassembly := k\<rparr>)"
    if "k < umrx_mod cfg" "umrx_off cfg (umrx_next_highest e) k \<le> unat (um_window_size cfg)" for k
    using e that by (auto simp: umrx_inv_but_def in_window_iff)
  moreover have "k < umrx_mod cfg \<and> umrx_off cfg (umrx_next_highest e) k \<le> unat (um_window_size cfg)"
    if "(k, i) \<in> set (om_erase sn (umrx_window e))" for k i
    using e that by (auto simp: umrx_inv_but_def in_window_iff)
  moreover have "umrx_next_highest e < umrx_mod cfg"
    using assms by (simp add: umrx_inv_but_def)
  ultimately show ?thesis
    using e by (auto simp: umrx_deliver_def Let_def umrx_off_edges find_Some_iff split: option.splits)
      (metis (no_types, lifting) nth_mem)
qed

lemma umrx_advance_inv:
  assumes inv: "umrx_inv_but (Some sn) cfg e" and look: "om_lookup (umrx_window e) sn \<noteq> None"
  shows "umrx_inv cfg (umrx_advance cfg sn e)"
proof -
  let ?h = "(sn + 1) mod umrx_mod cfg"
  let ?e1 = "e\<lparr>umrx_next_highest := ?h\<rparr>"
  let ?w = "filter (\<lambda>(k, _). sn_in_reassembly_window cfg ?e1 k) (umrx_window e)"
  let ?e2 = "?e1\<lparr>umrx_window := ?w\<rparr>"
  have w: "om_wf ?w" "\<forall>(k, i) \<in> set ?w. k < umrx_mod cfg \<and> um_info_inv i \<and>
      umrx_off cfg ?h k < unat (um_window_size cfg)"
    using inv by (auto simp: umrx_inv_but_def om_wf_filter in_window_iff)
  have e2: "umrx_inv cfg (?e2\<lparr>umrx_next_reassembly := k\<rparr>)"
    if "k < umrx_mod cfg" "umrx_off cfg ?h k \<le> unat (um_window_size cfg)" for k
    using w inv that by (auto simp: umrx_inv_but_def in_window_iff umrx_mod_less)
  from look obtain i where "(sn, i) \<in> set (umrx_window e)"
    by (auto dest: om_lookup_in)
  then have "(sn, i) \<in> set ?w"
    using um_window_size_pos [of cfg] by (simp add: in_window_iff umrx_off_edges)
  then obtain k j ws where ws: "?w = (k, j) # ws" by (cases ?w) auto
  have eq: "umrx_advance cfg sn e =
      (if sn_in_reassembly_window cfg ?e2 (umrx_next_reassembly e) then ?e2
       else ?e2\<lparr>umrx_next_reassembly := k\<rparr>)"
    unfolding umrx_advance_def Let_def
    by (cases "sn_in_reassembly_window cfg ?e2 (umrx_next_reassembly e)") (simp_all add: ws)
  show ?thesis
  proof (cases "sn_in_reassembly_window cfg ?e2 (umrx_next_reassembly e)")
    case True
    have "?e2\<lparr>umrx_next_reassembly := umrx_next_reassembly e\<rparr> = ?e2"
      by (cases e) simp
    moreover have "umrx_inv cfg (?e2\<lparr>umrx_next_reassembly := umrx_next_reassembly e\<rparr>)"
      by (rule e2) (use True inv in \<open>simp_all add: in_window_iff umrx_inv_but_def\<close>)
    ultimately show ?thesis using True by (simp only: eq if_True)
  next
    case False
    have "(k, j) \<in> set ?w" by (simp add: ws)
    from bspec [OF w(2) this] have "k < umrx_mod cfg" "umrx_off cfg ?h k \<le> unat (um_window_size cfg)"
      by simp_all
    then show ?thesis using False e2 [of k] by (simp only: eq if_False)
  qed
qed

lemma handle_rx_buffer_update_inv:
  assumes inv: "umrx_inv_but (Some sn) cfg e" and look: "om_lookup (umrx_window e) sn \<noteq> None"
  shows "\<exists>evs e'. handle_rx_buffer_update cfg sn e = Some (evs, e') \<and> umrx_inv cfg e'"
proof -
  obtain i where i: "om_lookup (umrx_window e) sn = Some i" using look by auto
  note ii = umrx_lookup_inv [OF inv i]
  obtain segs sdu d where a: "um_assemble (umi_total_sdu_length i) (umi_segments i) (umi_sdu i)
      (umi_next_expected_so i) = Some (segs, sdu, of_nat (length sdu), d)"
    "om_wf segs" "set segs \<subseteq> set (umi_segments i)" "length sdu < 2 ^ 31"
    using um_assemble_ok [of "umi_segments i" "umi_sdu i" "umi_next_expected_so i"
        "umi_total_sdu_length i"] ii
    by (auto simp: um_info_inv_def)
  let ?i = "i\<lparr>umi_segments := segs, umi_sdu := sdu, umi_next_expected_so := of_nat (length sdu)\<rparr>"
  let ?e = "e\<lparr>umrx_window := om_update sn ?i (umrx_window e)\<rparr>"
  have "um_info_inv ?i"
    using ii a by (auto simp: um_info_inv_def)
  then have e: "umrx_inv_but (Some sn) cfg ?e"
    using umrx_window_update_inv [OF inv] ii by simp
  have l: "om_lookup (umrx_window ?e) sn \<noteq> None"
    by (simp add: om_lookup_update)
  have "handle_rx_buffer_update cfg sn e =
      (if d then Some ([On_new_sdu sdu], umrx_update_timer cfg (umrx_deliver cfg sn ?e))
       else if \<not> sn_in_reassembly_window cfg ?e sn
         then Some ([], umrx_update_timer cfg (umrx_advance cfg sn ?e))
       else Some ([], umrx_update_timer cfg ?e))"
    by (simp add: handle_rx_buffer_update_def i a(1) Let_def)
  then show ?thesis
    using umrx_update_timer_inv [OF umrx_deliver_inv [OF e]]
      umrx_update_timer_inv [OF umrx_advance_inv [OF e l]] umrx_update_timer_inv [OF umrx_inv_weaken [OF e]]
    by auto
qed

lemma um_read_sn_bound:
  assumes "rlc_um_read_data_pdu_header buf sz h0 = Some h"
  shows "(ucast (um_sn h) :: u32) < um_mod sz"
proof -
  have n6: "unat (ucast (b AND 0x3f :: u8) :: u16) < 64" for b :: u8
    using ucast_mask_less [of 6 b, where 'b = 16] by (simp add: mask_lits word_less_nat_alt)
  have n12: "unat (push_bit 8 (ucast (b AND 0x0f)) OR ucast (c AND 0xff) :: u16) < 4096" for b c :: u8
  proof -
    have "(push_bit 8 (ucast (b AND 0x0f)) OR ucast (c AND 0xff) :: u16) =
        (push_bit 8 (ucast (b AND 0x0f)) OR ucast (c AND 0xff)) AND mask 12"
      unfolding mask_lits by (rule bit_word_eqI) (auto simp: bit_simps)
    then show ?thesis
      using and_mask_less_size [of 12 "push_bit 8 (ucast (b AND 0x0f)) OR ucast (c AND 0xff) :: u16"]
      by (simp add: word_size word_less_nat_alt)
  qed
  have so: "um_sn h' = um_sn h''" if "rlc_um_read_so h'' r = Some h'" for h' h'' r
    using that by (auto simp: rlc_um_read_so_def split: if_splits list.splits)
  show ?thesis
  proof (cases sz)
    case Um_size6bits
    with assms n6 show ?thesis
      by (auto simp: rlc_um_read_data_pdu_header_def Let_def word_less_nat_alt dest!: so
          split: list.splits if_splits)
  next
    case Um_size12bits
    with assms n12 show ?thesis
      by (auto simp: rlc_um_read_data_pdu_header_def Let_def word_less_nat_alt dest!: so
          split: list.splits if_splits)
  qed
qed

lemma umrx_handle_pdu_inv:
  assumes inv: "umrx_inv cfg e" and len: "length buf < 2 ^ 30"
  shows "\<exists>evs e'. umrx_handle_pdu cfg buf e = Some (evs, e') \<and> umrx_inv cfg e'"
proof (cases "rlc_um_read_data_pdu_header buf (rxum_sn_field_length cfg) rlc_um_pdu_header_init")
  case None
  with inv show ?thesis by (simp add: umrx_handle_pdu_def)
next
  case (Some h)
  let ?n = "rlc_um_nr_packed_length h" and ?sn = "ucast (um_sn h) :: u32"
  let ?seg = "\<lparr>umseg_header = h, umseg_payload = drop ?n buf\<rparr>"
  have sn: "?sn < umrx_mod cfg"
    using um_read_sn_bound [OF Some] by (simp add: umrx_mod_def)
  show ?thesis
  proof (cases "length buf \<le> ?n \<or> um_si h = Full_sdu \<or> sn_invalid_for_rx_buffer cfg e ?sn")
    case True
    with inv show ?thesis by (auto simp: umrx_handle_pdu_def Some Let_def)
  next
    case False
    then have eq: "umrx_handle_pdu cfg buf e =
        handle_rx_buffer_update cfg ?sn (umrx_store ?sn ?seg e)"
      by (simp add: umrx_handle_pdu_def Some Let_def)
    have p: "umseg_payload ?seg \<noteq> []" "length (umseg_payload ?seg) < 2 ^ 30"
      using False len by auto
    show ?thesis
      unfolding eq
      by (rule handle_rx_buffer_update_inv [OF umrx_store_inv(1) [OF inv sn p]
            umrx_store_inv(2) [OF inv sn p]])
  qed
qed

section \<open>Timer expiry\<close>

definition umrx_timer_ok :: "rlc_rx_um_config \<Rightarrow> rlc_rx_um_entity \<Rightarrow> bool" where
  "umrx_timer_ok cfg e \<longleftrightarrow> (umrx_reassembly_timer_running e \<longrightarrow>
    umrx_off cfg (umrx_next_highest e) (umrx_timer_trigger e) \<le> unat (um_window_size cfg))"

lemma umrx_update_timer_ok: "umrx_timer_ok cfg (umrx_update_timer cfg e)"
  by (auto simp: umrx_timer_ok_def umrx_update_timer_def umrx_timer_stop_def umrx_timer_start_def
      in_window_iff Let_def umrx_off_edges)

lemma handle_rx_buffer_update_timer_ok:
  "handle_rx_buffer_update cfg sn e = Some (evs, e') \<Longrightarrow> om_lookup (umrx_window e) sn \<noteq> None \<Longrightarrow>
    umrx_timer_ok cfg e'"
  by (auto simp: handle_rx_buffer_update_def Let_def umrx_update_timer_ok
      split: option.splits if_splits)

lemma umrx_handle_pdu_timer_ok:
  assumes "umrx_timer_ok cfg e" "umrx_handle_pdu cfg buf e = Some (evs, e')"
  shows "umrx_timer_ok cfg e'"
proof -
  have "om_lookup (umrx_window (umrx_store sn seg e)) sn \<noteq> None" for sn seg
    by (simp add: umrx_store_def Let_def om_lookup_update)
  with assms handle_rx_buffer_update_timer_ok show ?thesis
    by (fastforce simp: umrx_handle_pdu_def Let_def split: option.splits if_splits)
qed

lemma umrx_off_succ:
  assumes "umrx_off cfg h x < unat (um_window_size cfg)"
  shows "umrx_off cfg h ((x + 1) mod umrx_mod cfg) = Suc (umrx_off cfg h x)"
  unfolding umrx_off_def umrx_mod_def
  by (rule um.off_succ_less)
    (use assms umrx_mod_double [of cfg] in \<open>simp add: umrx_off_def umrx_mod_def\<close>)

lemma umrx_off_top:
  assumes "x < umrx_mod cfg" "h < umrx_mod cfg" "umrx_off cfg h x = unat (um_window_size cfg)"
  shows "x = h"
  using um.off_inj [of x "rxum_sn_field_length cfg" h "h + um_window_size cfg"] assms
    umrx_off_edges(2) [of cfg h]
  by (simp add: umrx_off_def umrx_mod_def)

lemma umrx_skip_ok:
  assumes "umrx_next_reassembly e < umrx_mod cfg" "umrx_next_highest e < umrx_mod cfg"
    "umrx_off cfg (umrx_next_highest e) (umrx_next_reassembly e) \<le> unat (um_window_size cfg)"
    "unat (um_window_size cfg) - umrx_off cfg (umrx_next_highest e) (umrx_next_reassembly e) < fuel"
  shows "umrx_skip fuel cfg e = Some (e\<lparr>umrx_next_reassembly := umrx_next_highest e\<rparr>)"
  using assms
proof (induction fuel cfg e rule: umrx_skip.induct)
  case (2 fuel cfg e)
  let ?h = "umrx_next_highest e" and ?r = "umrx_next_reassembly e"
  show ?case
  proof (cases "umrx_off cfg ?h ?r < unat (um_window_size cfg)")
    case True
    let ?e = "e\<lparr>umrx_next_reassembly := (?r + 1) mod umrx_mod cfg\<rparr>"
    have "umrx_skip fuel cfg ?e = Some (?e\<lparr>umrx_next_reassembly := umrx_next_highest ?e\<rparr>)"
      by (rule "2.IH")
        (use True "2.prems" umrx_off_succ [OF True]
          in \<open>simp_all add: umrx_mod_base_less umrx_off_edges umrx_mod_less\<close>)
    with True show ?thesis by (simp add: umrx_mod_base_less umrx_off_edges)
  next
    case False
    with "2.prems" have "?r = ?h" by (intro umrx_off_top) simp_all
    with False show ?thesis by (simp add: umrx_mod_base_less umrx_off_edges)
  qed
qed simp

lemma umrx_on_expired_ok:
  assumes inv: "umrx_inv cfg e" and t: "umrx_timer_ok cfg e" "umrx_reassembly_timer_running e"
  shows "\<exists>e'. umrx_on_expired cfg e = Some e' \<and> umrx_inv cfg e' \<and> umrx_timer_ok cfg e' \<and>
    umrx_window e' = [] \<and> umrx_next_reassembly e' = umrx_next_highest e \<and>
    umrx_next_highest e' = umrx_next_highest e"
proof -
  let ?h = "umrx_next_highest e"
  let ?e = "e\<lparr>umrx_reassembly_timer_running := False, umrx_next_reassembly := umrx_timer_trigger e\<rparr>"
  let ?e1 = "?e\<lparr>umrx_next_reassembly := ?h\<rparr>"
  have sk: "umrx_skip (unat (umrx_mod cfg)) cfg ?e = Some ?e1"
    using umrx_skip_ok [of ?e cfg "unat (umrx_mod cfg)"] inv t umrx_mod_double [of cfg]
      um_window_size_pos [of cfg]
    by (simp add: umrx_inv_but_def umrx_timer_ok_def)
  have "filter (\<lambda>(k, _). \<not> umrx_mod_base cfg ?e1 k < umrx_mod_base cfg ?e1 (umrx_next_reassembly ?e1))
      (umrx_window ?e1) = []"
    using inv by (auto simp: filter_empty_conv umrx_mod_base_less umrx_off_edges umrx_inv_but_def in_window_iff)
  then have eq: "umrx_on_expired cfg e = Some (umrx_timer_start cfg (?e1\<lparr>umrx_window := []\<rparr>))"
    by (simp add: umrx_on_expired_def Let_def sk)
  have i: "umrx_inv cfg (?e1\<lparr>umrx_window := []\<rparr>)"
    using inv by (simp add: umrx_inv_but_def umrx_off_edges)
  have "umrx_inv cfg (umrx_timer_start cfg (?e1\<lparr>umrx_window := []\<rparr>))"
    by (rule umrx_inv_cong [OF i]) (rule umrx_timer_start_fields)+
  moreover have "umrx_timer_ok cfg (umrx_timer_start cfg (?e1\<lparr>umrx_window := []\<rparr>))"
    by (simp add: umrx_timer_ok_def umrx_timer_start_def umrx_off_edges)
  ultimately show ?thesis
    by (simp add: eq umrx_timer_start_fields)
qed

section \<open>Runs\<close>

datatype um_rx_call = Umrx_pdu bytes | Umrx_timeout

text \<open>The timer handler is called only while the timer runs.\<close>

fun umrx_run ::
  "rlc_rx_um_config \<Rightarrow> um_rx_call list \<Rightarrow> rlc_rx_um_entity \<Rightarrow>
    (rlc_rx_event list \<times> rlc_rx_um_entity) option" where
  "umrx_run cfg [] e = Some ([], e)"
| "umrx_run cfg (Umrx_pdu buf # cs) e =
    (case umrx_handle_pdu cfg buf e of
       None \<Rightarrow> None
     | Some (evs, e') \<Rightarrow>
         (case umrx_run cfg cs e' of None \<Rightarrow> None | Some (evs', e'') \<Rightarrow> Some (evs @ evs', e'')))"
| "umrx_run cfg (Umrx_timeout # cs) e =
    (if \<not> umrx_reassembly_timer_running e then umrx_run cfg cs e
     else (case umrx_on_expired cfg e of None \<Rightarrow> None | Some e' \<Rightarrow> umrx_run cfg cs e'))"

fun um_rx_call_ok :: "um_rx_call \<Rightarrow> bool" where
  "um_rx_call_ok (Umrx_pdu buf) = (length buf < 2 ^ 30)"
| "um_rx_call_ok Umrx_timeout = True"

lemma umrx_init_inv: "umrx_inv cfg rlc_rx_um_entity_init \<and> umrx_timer_ok cfg rlc_rx_um_entity_init"
  using um.md_pos [of "rxum_sn_field_length cfg"] umrx_off_edges(2) [of cfg 0]
  by (simp add: umrx_inv_but_def rlc_rx_um_entity_init_def umrx_timer_ok_def umrx_mod_def
      word_less_nat_alt)

lemma umrx_run_ok:
  "umrx_inv cfg e \<Longrightarrow> umrx_timer_ok cfg e \<Longrightarrow> list_all um_rx_call_ok cs \<Longrightarrow>
    \<exists>evs e'. umrx_run cfg cs e = Some (evs, e') \<and> umrx_inv cfg e' \<and> umrx_timer_ok cfg e'"
proof (induction cfg cs e rule: umrx_run.induct)
  case (2 cfg buf cs e)
  obtain evs e' where p: "umrx_handle_pdu cfg buf e = Some (evs, e')" "umrx_inv cfg e'"
    using umrx_handle_pdu_inv [OF "2.prems"(1), of buf] "2.prems"(3) by auto
  have t: "umrx_timer_ok cfg e'"
    by (rule umrx_handle_pdu_timer_ok [OF "2.prems"(2) p(1)])
  from "2.IH" [OF p(1) refl p(2) t] "2.prems"(3) p(1) show ?case by auto
next
  case (3 cfg cs e)
  show ?case
  proof (cases "umrx_reassembly_timer_running e")
    case True
    then obtain e' where "umrx_on_expired cfg e = Some e'" "umrx_inv cfg e'" "umrx_timer_ok cfg e'"
      using umrx_on_expired_ok [OF "3.prems"(1,2)] by blast
    with "3.IH"(2) "3.prems"(3) True show ?thesis by auto
  next
    case False
    with "3.IH"(1) "3.prems" show ?thesis by simp
  qed
qed simp

section \<open>Properties\<close>

text \<open>C10: Whatever bytes arrive, in whatever order and with timer expiries in between, the UM receiver
  returns from every call: the branch of the segment loop that would repeat without end is never
  taken, and the loop of the timer handler ends.  Its state variables stay below the modulus,
  RX_Next_Reassembly stays between the lower edge of the window and RX_Next_Highest, and every SN
  kept lies in the reassembly window.\<close>

theorem um_rx_always_returns:
  assumes "list_all um_rx_call_ok cs"
  shows "\<exists>evs e. umrx_run cfg cs rlc_rx_um_entity_init = Some (evs, e) \<and>
    umrx_next_highest e < umrx_mod cfg \<and> umrx_next_reassembly e < umrx_mod cfg \<and>
    umrx_mod_base cfg e (umrx_next_reassembly e) \<le> um_window_size cfg \<and>
    list_all (\<lambda>(sn, _). sn < umrx_mod cfg \<and> sn_in_reassembly_window cfg e sn) (umrx_window e)"
proof -
  obtain evs e where "umrx_run cfg cs rlc_rx_um_entity_init = Some (evs, e)" "umrx_inv cfg e"
    using umrx_run_ok [of cfg rlc_rx_um_entity_init cs] umrx_init_inv [of cfg] assms by blast
  then show ?thesis
    by (auto simp: umrx_inv_but_def list_all_iff word_le_nat_alt unat_umrx_mod_base)
qed

theorem um_rx_always_returns_witness:
  "\<exists>evs e. umrx_run \<lparr>rxum_sn_field_length = Um_size6bits, rxum_t_reassembly = 50\<rparr>
      [Umrx_pdu [0x40, 1], Umrx_timeout, Umrx_pdu [0x80, 0, 1, 2], Umrx_pdu []] rlc_rx_um_entity_init = Some (evs, e)"
  using um_rx_always_returns [of "[Umrx_pdu [0x40, 1], Umrx_timeout, Umrx_pdu [0x80, 0, 1, 2], Umrx_pdu []]"
      "\<lparr>rxum_sn_field_length = Um_size6bits, rxum_t_reassembly = 50\<rparr>"]
  by auto

text \<open>C38: When the reassembly timer expires, RX_Next_Reassembly is moved to RX_Next_Highest and every
  SDU under reassembly is discarded, also those with SNs from RX_Timer_Trigger on, which the
  comment in the handler (and the specification it cites) would keep.\<close>

theorem um_expiry_discards_everything:
  assumes "umrx_inv cfg e" "umrx_timer_ok cfg e" "umrx_reassembly_timer_running e"
  shows "\<exists>e'. umrx_on_expired cfg e = Some e' \<and> umrx_window e' = [] \<and>
    umrx_next_reassembly e' = umrx_next_highest e"
  using umrx_on_expired_ok [OF assms] by blast

theorem um_expiry_discards_everything_witness:
  "let cfg = \<lparr>rxum_sn_field_length = Um_size6bits, rxum_t_reassembly = 50\<rparr>;
       e = rlc_rx_um_entity_init\<lparr>umrx_next_highest := 3, umrx_timer_trigger := 1,
             umrx_reassembly_timer_running := True, umrx_window := [(2, rlc_rx_um_sdu_info_init)]\<rparr> in
   \<exists>e'. umrx_on_expired cfg e = Some e' \<and> umrx_window e' = []"
proof -
  let ?cfg = "\<lparr>rxum_sn_field_length = Um_size6bits, rxum_t_reassembly = 50\<rparr>"
  let ?e = "rlc_rx_um_entity_init\<lparr>umrx_next_highest := 3, umrx_timer_trigger := 1,
             umrx_reassembly_timer_running := True, umrx_window := [(2, rlc_rx_um_sdu_info_init)]\<rparr>"
  have "umrx_inv ?cfg ?e" "umrx_timer_ok ?cfg ?e"
    by (simp_all add: umrx_inv_but_def umrx_timer_ok_def rlc_rx_um_entity_init_def umrx_mod_def
        um_info_inv_init in_window_iff umrx_off_def sn_off_def um_window_size_def)
  then show ?thesis
    using um_expiry_discards_everything [of ?cfg ?e] by auto
qed

end
