(* ===== verification/Rlc_Um.thy ===== *)
theory Rlc_Um
  imports Rlc_Tx_Um Rlc_Rx_Um
begin

text \<open>
  Transmitter and receiver of unacknowledged mode together.  First the receiver on the segments of
  one SDU: whatever their order, the SDU is delivered when the last one arrives.  Then the transfer
  of a stream of SDUs over a link that neither loses nor reorders PDUs, for arbitrary grants.
\<close>

section \<open>Chains of segments\<close>

abbreviation seg_end :: "um_segment \<Rightarrow> nat" where
  "seg_end g \<equiv> seg_so g + length (seg_payload g)"

abbreviation seg_disjoint :: "um_segment \<Rightarrow> um_segment \<Rightarrow> bool" where
  "seg_disjoint g r \<equiv> seg_end g \<le> seg_so r \<or> seg_end r \<le> seg_so g"

abbreviation seg_sorted :: "um_segment list \<Rightarrow> bool" where
  "seg_sorted gs \<equiv> sorted_wrt (\<lambda>a b. seg_end a \<le> seg_so b) gs"

definition segs_bytes :: "um_segment list \<Rightarrow> nat" where
  "segs_bytes gs = sum_list (map (\<lambda>g. length (seg_payload g)) gs)"

lemma segs_bytes_simps [simp]:
  "segs_bytes [] = 0" "segs_bytes (g # gs) = length (seg_payload g) + segs_bytes gs"
  "segs_bytes (gs @ hs) = segs_bytes gs + segs_bytes hs"
  by (simp_all add: segs_bytes_def)

text \<open>The entry of the segment map for a received segment.\<close>

definition um_entry :: "rlc_um_sn_size \<Rightarrow> um_segment \<Rightarrow> u32 \<times> rlc_rx_um_sdu_segment" where
  "um_entry sz g =
    (of_nat (seg_so g), \<lparr>umseg_header = um_seg_header sz g, umseg_payload = seg_payload g\<rparr>)"

text \<open>A segment of \<open>buf\<close> that is not the whole of it.\<close>

definition um_part_of :: "rlc_um_sn_size \<Rightarrow> bytes \<Rightarrow> um_segment \<Rightarrow> bool" where
  "um_part_of sz buf g \<longleftrightarrow> um_segment_of sz buf g \<and> seg_si g \<noteq> Full_sdu"

lemma um_part_bounds:
  assumes "um_part_of sz buf g"
  shows "seg_so g < seg_end g" "seg_end g \<le> length buf" "length buf \<le> 65535" "seg_so g < 65535"
    and "seg_so g = 0 \<Longrightarrow> seg_end g < length buf"
    and "take (seg_so g) buf @ seg_payload g = take (seg_end g) buf"
proof -
  have ne: "0 < length (seg_payload g)" and l: "seg_end g \<le> length buf" "length buf \<le> 65535"
    and p: "seg_payload g = take (length (seg_payload g)) (drop (seg_so g) buf)"
    using assms by (auto simp: um_part_of_def um_segment_of_def)
  show "seg_so g < seg_end g" using ne by simp
  show "seg_end g \<le> length buf" "length buf \<le> 65535" using l by auto
  show "seg_so g < 65535" using l ne by linarith
  show "seg_so g = 0 \<Longrightarrow> seg_end g < length buf"
    using assms by (auto simp: um_part_of_def um_segment_of_def split: if_splits)
  have "take (seg_so g) buf @ take (length (seg_payload g)) (drop (seg_so g) buf) = take (seg_end g) buf"
    by (simp add: take_add)
  then show "take (seg_so g) buf @ seg_payload g = take (seg_end g) buf"
    by (simp flip: p)
qed

lemma um_entry_so:
  assumes "um_part_of sz buf g"
  shows "ucast (um_so (umseg_header (snd (um_entry sz g)))) = (of_nat (seg_so g) :: u32)"
    "fst (um_entry sz g) = of_nat (seg_so g)" "umseg_payload (snd (um_entry sz g)) = seg_payload g"
proof -
  have "seg_so g < 2 ^ 16" using um_part_bounds(4) [OF assms] by simp
  then show "ucast (um_so (umseg_header (snd (um_entry sz g)))) = (of_nat (seg_so g) :: u32)"
    by (simp add: um_entry_def um_seg_header_def word_unat_eq_iff unat_of_nat)
qed (simp_all add: um_entry_def)

fun um_chain :: "nat \<Rightarrow> um_segment list \<Rightarrow> nat \<times> um_segment list" where
  "um_chain n [] = (n, [])"
| "um_chain n (g # gs) = (if seg_so g = n then um_chain (seg_end g) gs else (n, g # gs))"

lemma um_chain_stuck: "\<forall>g \<in> set gs. n < seg_so g \<Longrightarrow> um_chain n gs = (n, gs)"
  by (cases gs) auto

lemma um_chain_props:
  assumes "seg_sorted gs" "\<forall>g \<in> set gs. n \<le> seg_so g" "um_chain n gs = (n', gs')"
    "\<forall>g \<in> set gs. seg_so g < seg_end g"
  shows "\<exists>cs. gs = cs @ gs' \<and> n' = n + segs_bytes cs \<and> (\<forall>g \<in> set gs'. n' < seg_so g) \<and>
    (\<forall>b. n \<le> b \<longrightarrow> b < n' \<longrightarrow> (\<exists>c \<in> set cs. seg_so c \<le> b \<and> b < seg_end c))"
  using assms
proof (induction n gs rule: um_chain.induct)
  case (1 n)
  then show ?case by simp
next
  case (2 n g gs)
  show ?case
  proof (cases "seg_so g = n")
    case True
    with "2.prems" obtain cs where cs: "gs = cs @ gs'" "n' = seg_end g + segs_bytes cs"
      "\<forall>g \<in> set gs'. n' < seg_so g"
      "\<forall>b. seg_end g \<le> b \<longrightarrow> b < n' \<longrightarrow> (\<exists>c \<in> set cs. seg_so c \<le> b \<and> b < seg_end c)"
      using "2.IH" [OF True] by auto
    have "\<exists>c \<in> set (g # cs). seg_so c \<le> b \<and> b < seg_end c" if "n \<le> b" "b < n'" for b
      using that cs(4) True by (cases "b < seg_end g") auto
    with cs True show ?thesis by (intro exI [of _ "g # cs"]) auto
  next
    case False
    have "seg_so g < seg_end g" "\<forall>h \<in> set gs. seg_end g \<le> seg_so h"
      using "2.prems"(1,4) by (meson list.set_intros(1), simp)
    then have "\<forall>h \<in> set gs. seg_so g < seg_so h" by (meson less_le_trans)
    moreover have "n < seg_so g" using False "2.prems"(2) by simp
    ultimately have "\<forall>h \<in> set (g # gs). n < seg_so h" by (auto dest: less_trans)
    with False "2.prems"(3) show ?thesis by (intro exI [of _ "[]"]) auto
  qed
qed

text \<open>Disjoint segments behind an offset fit between it and the end.\<close>

lemma segs_bytes_fit:
  "seg_sorted gs \<Longrightarrow> \<forall>g \<in> set gs. m \<le> seg_so g \<and> seg_end g \<le> L \<Longrightarrow> m \<le> L \<Longrightarrow> m + segs_bytes gs \<le> L"
proof (induction gs arbitrary: m)
  case (Cons g gs)
  then have "seg_end g + segs_bytes gs \<le> L" by (intro Cons.IH) auto
  with Cons.prems show ?case by auto
qed simp

section \<open>Reassembly of one SDU\<close>

lemma um_assemble_stuck:
  assumes "\<forall>g \<in> set gs. um_part_of sz buf g \<and> n < seg_so g" "n < length buf"
  shows "um_assemble tot (map (um_entry sz) gs) sdu (of_nat n) =
    Some (map (um_entry sz) gs, sdu, of_nat n, False)"
  using assms
proof (induction gs)
  case (Cons g gs)
  then have g: "um_part_of sz buf g" "n < seg_so g" by auto
  have "(of_nat (seg_so g) :: u32) \<noteq> of_nat n"
    using um_part_bounds(4) [OF g(1)] g(2) by (simp add: word_unat_eq_iff unat_of_nat)
  with Cons um_entry_so [OF g(1)] show ?case
    by (cases "um_entry sz g") simp
qed simp

lemma um_assemble_chain:
  assumes "\<forall>g \<in> set gs. um_part_of sz buf g \<and> n \<le> seg_so g" "seg_sorted gs" "n < length buf"
    "tot = 0 \<or> tot = of_nat (length buf)"
    "\<exists>g \<in> set gs. seg_end g = length buf \<Longrightarrow> tot = of_nat (length buf)"
    "um_chain n gs = (n', gs')"
  shows "um_assemble tot (map (um_entry sz) gs) (take n buf) (of_nat n) =
    Some (map (um_entry sz) gs', take n' buf, of_nat n', n' = length buf)"
  using assms
proof (induction n gs rule: um_chain.induct)
  case (1 n)
  then show ?case by simp
next
  case (2 n g gs)
  have g: "um_part_of sz buf g" using "2.prems"(1) by simp
  note gb = um_part_bounds [OF g]
  obtain k seg where e: "um_entry sz g = (k, seg)" by (cases "um_entry sz g") auto
  have es: "ucast (um_so (umseg_header seg)) = (of_nat (seg_so g) :: u32)" "umseg_payload seg = seg_payload g"
    using um_entry_so [OF g] e by simp_all
  have after: "\<forall>h \<in> set gs. um_part_of sz buf h \<and> seg_end g \<le> seg_so h" "seg_sorted gs"
    using "2.prems"(1,2) by auto
  show ?case
  proof (cases "seg_so g = n")
    case False
    then have "n < seg_so g" using "2.prems"(1) by simp
    moreover have "\<forall>h \<in> set gs. n < seg_so h"
      using after(1) gb(1) \<open>n < seg_so g\<close> by (meson less_le_trans less_trans)
    ultimately show ?thesis
      using um_assemble_stuck [of "g # gs" sz buf n tot "take n buf"] "2.prems" False by auto
  next
    case True
    have "n < 2 ^ 32" "seg_end g < 2 ^ 32" using gb(1-4) True by simp_all
    then have n32: "unat (of_nat n :: u32) = n" "unat (of_nat (seg_end g) :: u32) = seg_end g"
      by (simp_all only: unat_of_nat_u32)
    have len: "unat (of_nat (length buf) :: u32) = length buf"
      using gb(3) by (simp add: unat_of_nat)
    have take_end: "take n buf @ seg_payload g = take (seg_end g) buf"
      using gb(6) True by simp
    have IH: "um_assemble tot (map (um_entry sz) gs) (take (seg_end g) buf) (of_nat (seg_end g)) =
        Some (map (um_entry sz) gs', take n' buf, of_nat n', n' = length buf)" if "seg_end g < length buf"
      using "2.IH" [OF True after that "2.prems"(4)] "2.prems"(5,6) True by auto
    show ?thesis
    proof (cases "n = 0")
      case z: True
      with True have "seg_end g < length buf" "take (seg_end g) buf = seg_payload g"
        using gb(5,6) by auto
      with IH z True e es n32 show ?thesis by simp
    next
      case nz: False
      then have nz32: "(of_nat n :: u32) \<noteq> 0" using n32(1) by (metis unat_0)
      have sum: "(of_nat n :: u32) + of_nat (length (seg_payload g)) = of_nat (seg_end g)"
        using True by simp
      show ?thesis
      proof (cases "seg_end g = length buf")
        case last: True
        then have tot: "tot = of_nat (length buf)" using "2.prems"(5) by auto
        have gs: "gs = []"
          using after(1) um_part_bounds(1,2) [of sz buf] last by (cases gs) fastforce+
        with True "2.prems"(6) last have n': "n' = length buf" "gs' = []" by auto
        have sm: "(of_nat n :: u32) + of_nat (length (seg_payload g)) = of_nat (length buf)"
          by (simp only: sum last)
        have td: "take n buf @ seg_payload g = buf" using take_end last by simp
        show ?thesis
          unfolding gs n' tot list.map e um_assemble.simps es True Let_def sm td
          using nz32 by simp
      next
        case False
        with gb(2) have lt: "seg_end g < length buf" by simp
        have ne: "(of_nat (seg_end g) :: u32) \<noteq> tot"
          using "2.prems"(4) n32(2) len lt gb(1) by (auto simp: word_unat_eq_iff)
        define m where "m = seg_end g"
        note m = IH [OF lt, folded m_def] ne [folded m_def] sum [folded m_def] take_end [folded m_def]
        show ?thesis
          unfolding list.map e um_assemble.simps es True Let_def m(3,4)
          using nz32 m(1,2) by simp
      qed
    qed
  qed
qed

definition seg_insert :: "um_segment \<Rightarrow> um_segment list \<Rightarrow> um_segment list" where
  "seg_insert g gs = filter (\<lambda>r. seg_so r < seg_so g) gs @ g # filter (\<lambda>r. seg_so g < seg_so r) gs"

lemma seg_disjoint_so: "seg_disjoint g r \<Longrightarrow> um_part_of sz buf g \<Longrightarrow> um_part_of sz buf r \<Longrightarrow> seg_so g \<noteq> seg_so r"
  using um_part_bounds(1) [of sz buf g] um_part_bounds(1) [of sz buf r] by auto

lemma segs_bytes_partition:
  "\<forall>g \<in> set gs. P g \<longleftrightarrow> \<not> Q g \<Longrightarrow> segs_bytes (filter P gs) + segs_bytes (filter Q gs) = segs_bytes gs"
  by (induction gs) auto

lemma seg_insert_facts:
  assumes "\<forall>r \<in> set (g # gs). um_part_of sz buf r" "\<forall>r \<in> set gs. seg_disjoint g r" "seg_sorted gs"
  shows "seg_sorted (seg_insert g gs)" "set (seg_insert g gs) = insert g (set gs)"
    "segs_bytes (seg_insert g gs) = length (seg_payload g) + segs_bytes gs"
proof -
  have so: "seg_so r < seg_so g \<longleftrightarrow> \<not> seg_so g < seg_so r" if "r \<in> set gs" for r
    using seg_disjoint_so [of g r sz buf] assms(1,2) that by auto
  have pos: "seg_so r < seg_end r" if "r \<in> set (g # gs)" for r
    using um_part_bounds(1) assms(1) that by blast
  have "seg_end a \<le> seg_so g" if "a \<in> set gs" "seg_so a < seg_so g" for a
    using assms(2) that pos by fastforce
  moreover have "seg_end g \<le> seg_so b" if "b \<in> set gs" "seg_so g < seg_so b" for b
    using assms(2) that pos by fastforce
  moreover have "seg_so g < seg_end g" by (rule pos) simp
  ultimately show "seg_sorted (seg_insert g gs)"
    using assms(3) by (fastforce simp: seg_insert_def sorted_wrt_append sorted_wrt_filter)
  show "set (seg_insert g gs) = insert g (set gs)"
    using so by (auto simp: seg_insert_def)
  show "segs_bytes (seg_insert g gs) = length (seg_payload g) + segs_bytes gs"
    using segs_bytes_partition [of gs "\<lambda>r. seg_so r < seg_so g" "\<lambda>r. seg_so g < seg_so r"] so
    by (simp add: seg_insert_def)
qed

lemma seg_key_less:
  assumes "um_part_of sz buf g" "um_part_of sz buf r"
  shows "(of_nat (seg_so g) :: u32) < of_nat (seg_so r) \<longleftrightarrow> seg_so g < seg_so r"
  using um_part_bounds(4) [OF assms(1)] um_part_bounds(4) [OF assms(2)]
  by (simp add: word_less_nat_alt unat_of_nat)

lemma um_entries_wf:
  "\<forall>r \<in> set gs. um_part_of sz buf r \<Longrightarrow> seg_sorted gs \<Longrightarrow> om_wf (map (um_entry sz) gs)"
proof (induction gs)
  case (Cons g gs)
  have "fst (um_entry sz g) < fst (um_entry sz r)" if "r \<in> set gs" for r
  proof -
    have "um_part_of sz buf g" "um_part_of sz buf r" "seg_end g \<le> seg_so r"
      using Cons.prems that by auto
    moreover from this have "seg_so g < seg_so r"
      by (meson less_le_trans um_part_bounds(1))
    ultimately show ?thesis
      using seg_key_less [of sz buf g r] by (simp add: um_entry_def)
  qed
  with Cons show ?case by (auto simp: om_wf_Cons)
qed simp

lemma um_entries_emplace:
  assumes "\<forall>r \<in> set (g # gs). um_part_of sz buf r" "\<forall>r \<in> set gs. seg_disjoint g r" "seg_sorted gs"
  shows "om_emplace (fst (um_entry sz g)) (snd (um_entry sz g)) (map (um_entry sz) gs) =
    map (um_entry sz) (seg_insert g gs)"
proof -
  let ?k = "fst (um_entry sz g)" and ?m = "map (um_entry sz) gs"
  have so: "seg_so g \<noteq> seg_so r" if "r \<in> set gs" for r
    using seg_disjoint_so [of g r sz buf] assms(1,2) that by auto
  have less: "?k < fst (um_entry sz r) \<longleftrightarrow> seg_so g < seg_so r"
    "fst (um_entry sz r) < ?k \<longleftrightarrow> seg_so r < seg_so g" if "r \<in> set gs" for r
    using seg_key_less [of sz buf g r] seg_key_less [of sz buf r g] assms(1) that
    by (simp_all add: um_entry_def)
  have new: "?k \<notin> fst ` set ?m"
  proof
    assume "?k \<in> fst ` set ?m"
    then obtain r where r: "r \<in> set gs" "?k = fst (um_entry sz r)" by auto
    with less [OF r(1)] so [OF r(1)] show False by simp
  qed
  have wf: "om_wf ?m" using um_entries_wf [of gs sz buf] assms(1,3) by simp
  have "om_emplace ?k (snd (um_entry sz g)) ?m = om_update ?k (snd (um_entry sz g)) ?m"
    by (rule om_emplace_new) (use new in \<open>simp add: om_lookup_None\<close>)
  also have "\<dots> = filter (\<lambda>x. fst x < ?k) ?m @ um_entry sz g # filter (\<lambda>x. ?k < fst x) ?m"
    using om_update_split [OF wf new, of "snd (um_entry sz g)"] by (simp add: case_prod_unfold)
  also have "\<dots> = map (um_entry sz) (seg_insert g gs)"
    using less by (auto simp: seg_insert_def filter_map o_def cong: filter_cong)
  finally show ?thesis .
qed

text \<open>
  \<open>um_info_rel sz buf rs i\<close>: the receiver holds the segments \<open>rs\<close> of \<open>buf\<close> and nothing else.  The first
  \<open>n\<close> bytes are assembled, the segments behind a gap are in the map.
\<close>

definition um_info_rel ::
  "rlc_um_sn_size \<Rightarrow> bytes \<Rightarrow> um_segment list \<Rightarrow> rlc_rx_um_sdu_info \<Rightarrow> bool" where
  "um_info_rel sz buf rs i \<longleftrightarrow>
    (umi_total_sdu_length i = 0 \<or> umi_total_sdu_length i = of_nat (length buf)) \<and>
    ((\<exists>r \<in> set rs. seg_end r = length buf) \<longrightarrow> umi_total_sdu_length i = of_nat (length buf)) \<and>
    (\<exists>n gs. umi_sdu i = take n buf \<and> umi_next_expected_so i = of_nat n \<and> n < length buf \<and>
      umi_segments i = map (um_entry sz) gs \<and> seg_sorted gs \<and> set gs \<subseteq> set rs \<and>
      (\<forall>g \<in> set gs. n < seg_so g) \<and>
      (\<forall>b < n. \<exists>r \<in> set rs. seg_so r \<le> b \<and> b < seg_end r) \<and>
      n + segs_bytes gs = segs_bytes rs)"

lemma um_info_rel_init: "buf \<noteq> [] \<Longrightarrow> um_info_rel sz buf [] rlc_rx_um_sdu_info_init"
  by (simp add: um_info_rel_def rlc_rx_um_sdu_info_init_def)

definition um_info_store :: "rlc_rx_um_sdu_info \<Rightarrow> rlc_rx_um_sdu_segment \<Rightarrow> rlc_rx_um_sdu_info" where
  "um_info_store i seg =
    (let i = update_total_sdu_length i seg in
     i\<lparr>umi_segments := om_emplace (ucast (um_so (umseg_header seg))) seg (umi_segments i)\<rparr>)"

lemma um_total_after:
  assumes "um_part_of sz buf g"
    "umi_total_sdu_length i = 0 \<or> umi_total_sdu_length i = of_nat (length buf)"
  defines "t \<equiv> umi_total_sdu_length (update_total_sdu_length i (snd (um_entry sz g)))"
  shows "t = 0 \<or> t = of_nat (length buf)"
    and "seg_end g = length buf \<Longrightarrow> t = of_nat (length buf)"
    and "umi_total_sdu_length i = of_nat (length buf) \<Longrightarrow> t = of_nat (length buf)"
proof -
  have si: "um_si (umseg_header (snd (um_entry sz g))) = seg_si g"
    by (simp add: um_entry_def um_seg_header_def)
  have last: "seg_si g = Last_segment \<longleftrightarrow> seg_end g = length buf"
    using assms(1) by (auto simp: um_part_of_def um_segment_of_def split: if_splits)
  have t: "t = (if seg_end g = length buf then of_nat (seg_end g) else umi_total_sdu_length i)"
    unfolding t_def update_total_sdu_length_def si last um_entry_so [OF assms(1)]
    by (simp del: of_nat_add add: of_nat_add [symmetric])
  show "t = 0 \<or> t = of_nat (length buf)"
    "seg_end g = length buf \<Longrightarrow> t = of_nat (length buf)"
    "umi_total_sdu_length i = of_nat (length buf) \<Longrightarrow> t = of_nat (length buf)"
    using t assms(2) by (auto simp del: of_nat_add)
qed

lemma um_info_step:
  assumes rel: "um_info_rel sz buf rs i" and parts: "\<forall>r \<in> set (g # rs). um_part_of sz buf r"
    and disj: "\<forall>r \<in> set rs. seg_disjoint g r"
  defines "j \<equiv> um_info_store i (snd (um_entry sz g))"
  shows "\<exists>segs sdu nso.
    um_assemble (umi_total_sdu_length j) (umi_segments j) (umi_sdu j) (umi_next_expected_so j) =
      Some (segs, sdu, nso, segs_bytes (g # rs) = length buf) \<and>
    (if segs_bytes (g # rs) = length buf then sdu = buf
     else um_info_rel sz buf (g # rs)
       (j\<lparr>umi_segments := segs, umi_sdu := sdu, umi_next_expected_so := nso\<rparr>))"
proof -
  have gp: "um_part_of sz buf g" using parts by simp
  note gb = um_part_bounds [OF gp]
  obtain n gs where n: "umi_sdu i = take n buf" "umi_next_expected_so i = of_nat n" "n < length buf"
    "umi_segments i = map (um_entry sz) gs" "seg_sorted gs" "set gs \<subseteq> set rs"
    "\<forall>h \<in> set gs. n < seg_so h" "\<forall>b < n. \<exists>r \<in> set rs. seg_so r \<le> b \<and> b < seg_end r"
    "n + segs_bytes gs = segs_bytes rs"
    using rel by (auto simp: um_info_rel_def)
  have gsp: "\<forall>r \<in> set (g # gs). um_part_of sz buf r" "\<forall>r \<in> set gs. seg_disjoint g r"
    using parts disj n(6) by auto
  note ins = seg_insert_facts [OF gsp n(5)]
  have ng: "n \<le> seg_so g"
  proof (rule ccontr)
    assume "\<not> n \<le> seg_so g"
    then have "seg_so g < n" by simp
    with n(8) obtain r where r: "r \<in> set rs" "seg_so r \<le> seg_so g" "seg_so g < seg_end r" by meson
    with disj gb(1) show False by (meson leD le_less_trans)
  qed
  let ?t = "umi_total_sdu_length (update_total_sdu_length i (snd (um_entry sz g)))"
  have t0: "umi_total_sdu_length i = 0 \<or> umi_total_sdu_length i = of_nat (length buf)"
    "\<exists>r \<in> set rs. seg_end r = length buf \<Longrightarrow> umi_total_sdu_length i = of_nat (length buf)"
    using rel by (auto simp: um_info_rel_def)
  note t = um_total_after [OF gp t0(1)]
  have j: "umi_total_sdu_length j = ?t" "umi_sdu j = take n buf" "umi_next_expected_so j = of_nat n"
    "umi_segments j = map (um_entry sz) (seg_insert g gs)"
    using n um_entries_emplace [OF gsp n(5)] um_entry_so(1,2) [OF gp]
    by (simp_all add: j_def um_info_store_def Let_def update_total_sdu_length_def)
  obtain n' gs' where ch: "um_chain n (seg_insert g gs) = (n', gs')" by (cases "um_chain n (seg_insert g gs)")
  have all: "\<forall>h \<in> set (seg_insert g gs). um_part_of sz buf h \<and> n \<le> seg_so h"
    using gsp n(7) ng by (auto simp: ins(2))
  have tl: "\<exists>h \<in> set (seg_insert g gs). seg_end h = length buf \<Longrightarrow> ?t = of_nat (length buf)"
    using t(2,3) t0(2) n(6) by (auto simp: ins(2))
  note asm = um_assemble_chain [OF all ins(1) n(3) t(1) tl ch]
  have pos: "\<forall>h \<in> set (seg_insert g gs). seg_so h < seg_end h"
    using all um_part_bounds(1) by blast
  obtain cs where cs: "seg_insert g gs = cs @ gs'" "n' = n + segs_bytes cs" "\<forall>h \<in> set gs'. n' < seg_so h"
    "\<forall>b. n \<le> b \<longrightarrow> b < n' \<longrightarrow> (\<exists>c \<in> set cs. seg_so c \<le> b \<and> b < seg_end c)"
    using um_chain_props [OF ins(1) _ ch pos] all by blast
  have sub: "set cs \<union> set gs' = insert g (set gs)" using ins(2) cs(1) by auto
  have gs': "seg_sorted gs'" using ins(1) cs(1) by (simp add: sorted_wrt_append)
  have ends: "\<forall>h \<in> set (seg_insert g gs). seg_end h \<le> length buf"
    using all um_part_bounds(2) by blast
  have sum: "n' + segs_bytes gs' = segs_bytes (g # rs)"
    using ins(3) cs(1,2) n(9) by simp
  have le: "n' \<le> length buf"
    using segs_bytes_fit [of cs n "length buf"] ins(1) cs(1,2) all ends n(3)
    by (auto simp: sorted_wrt_append)
  have dn: "n' = length buf \<longleftrightarrow> segs_bytes (g # rs) = length buf"
  proof
    assume "n' = length buf"
    then have "gs' = []"
      using cs(1,3) ends by (cases gs') fastforce+
    with sum \<open>n' = length buf\<close> show "segs_bytes (g # rs) = length buf" by simp
  next
    assume full: "segs_bytes (g # rs) = length buf"
    show "n' = length buf"
    proof (rule ccontr)
      assume "n' \<noteq> length buf"
      with le have "Suc n' \<le> length buf" by simp
      moreover have "\<forall>h \<in> set gs'. Suc n' \<le> seg_so h \<and> seg_end h \<le> length buf"
        using cs(1,3) ends by auto
      ultimately have "Suc n' + segs_bytes gs' \<le> length buf"
        by (intro segs_bytes_fit [OF gs']) auto
      with sum full show False by simp
    qed
  qed
  have rel': "um_info_rel sz buf (g # rs)
      (j\<lparr>umi_segments := map (um_entry sz) gs', umi_sdu := take n' buf, umi_next_expected_so := of_nat n'\<rparr>)"
    if "n' \<noteq> length buf"
  proof -
    have cov: "\<exists>r \<in> set (g # rs). seg_so r \<le> b \<and> b < seg_end r" if "b < n'" for b
    proof (cases "b < n")
      case True
      with n(8) show ?thesis by auto
    next
      case False
      with cs(4) that obtain c where "c \<in> set cs" "seg_so c \<le> b" "b < seg_end c" by (meson leI)
      with sub n(6) show ?thesis by auto
    qed
    have subs: "set gs' \<subseteq> set (g # rs)" using sub n(6) by auto
    have tot: "?t = of_nat (length buf)" if "\<exists>r \<in> set (g # rs). seg_end r = length buf"
    proof (cases "seg_end g = length buf")
      case False
      with that have "\<exists>r \<in> set rs. seg_end r = length buf" by simp
      then show ?thesis by (rule t(3) [OF t0(2)])
    qed (rule t(2))
    have lt: "n' < length buf" using that le by simp
    let ?j = "j\<lparr>umi_segments := map (um_entry sz) gs', umi_sdu := take n' buf,
      umi_next_expected_so := of_nat n'\<rparr>"
    have sel: "umi_total_sdu_length ?j = ?t" "umi_sdu ?j = take n' buf" "umi_next_expected_so ?j = of_nat n'"
      "umi_segments ?j = map (um_entry sz) gs'"
      by (simp_all add: j(1))
    show ?thesis
      unfolding um_info_rel_def sel
      by (intro conjI impI exI [of _ n'] exI [of _ gs'] allI refl)
        ((rule t(1) gs' subs cs(3) sum lt | erule tot cov)+)
  qed
  show ?thesis
    unfolding j dn [symmetric]
    by (intro exI conjI, rule asm) (use rel' in auto)
qed

section \<open>The receiver on the segments of one SDU\<close>

definition um_rx_rel ::
  "rlc_rx_um_config \<Rightarrow> u32 \<Rightarrow> bytes \<Rightarrow> um_segment list \<Rightarrow> rlc_rx_um_entity \<Rightarrow> bool" where
  "um_rx_rel cfg sn buf rs e \<longleftrightarrow>
    sn < umrx_mod cfg \<and> umrx_next_reassembly e = sn \<and>
    (if rs = [] then umrx_next_highest e = sn \<and> umrx_window e = [] \<and> \<not> umrx_reassembly_timer_running e
     else umrx_next_highest e = (sn + 1) mod umrx_mod cfg \<and> umrx_reassembly_timer_running e \<and>
       umrx_timer_trigger e = umrx_next_highest e \<and>
       (\<exists>i. umrx_window e = [(sn, i)] \<and> um_info_rel (rxum_sn_field_length cfg) buf rs i))"

text \<open>A receiver that waits for the next SN with nothing outstanding.\<close>

definition um_rx_sync :: "rlc_rx_um_config \<Rightarrow> u32 \<Rightarrow> rlc_rx_um_entity \<Rightarrow> bool" where
  "um_rx_sync cfg sn e \<longleftrightarrow>
    sn < umrx_mod cfg \<and> umrx_next_reassembly e = sn \<and> umrx_next_highest e = sn \<and>
    umrx_window e = [] \<and> \<not> umrx_reassembly_timer_running e"

lemma um_rx_rel_sync: "um_rx_rel cfg sn buf [] e \<longleftrightarrow> um_rx_sync cfg sn e"
  by (auto simp: um_rx_rel_def um_rx_sync_def)

lemma um_rx_sync_init: "um_rx_sync cfg 0 rlc_rx_um_entity_init"
  using umrx_init_inv [of cfg]
  by (simp add: um_rx_sync_def rlc_rx_um_entity_init_def umrx_inv_but_def)

lemma umrx_off_mod: "umrx_off cfg h (x mod umrx_mod cfg) = umrx_off cfg h x"
  unfolding umrx_off_def umrx_mod_def by (rule um.off_mod)

lemma umrx_off_next_highest: "umrx_off cfg h (h + 1) = Suc (unat (um_window_size cfg))"
proof -
  have "1 < unat (um_window_size cfg)"
    by (cases "rxum_sn_field_length cfg") (simp_all add: um_window_size_def)
  then have "Suc (unat (um_window_size cfg)) < unat (umrx_mod cfg)"
    by (simp add: umrx_mod_double)
  moreover have "umrx_off cfg h (h + 1) = (umrx_off cfg h h + unat (1 :: u32)) mod unat (umrx_mod cfg)"
    unfolding umrx_off_def umrx_mod_def by (rule um.off_add)
  ultimately show ?thesis by (simp add: umrx_off_edges)
qed

text \<open>The reassembly timer runs while one SDU is incomplete and stops when all is delivered.\<close>

lemma umrx_timer_runs:
  assumes "umrx_next_highest e = (sn + 1) mod umrx_mod cfg" "umrx_next_reassembly e = sn"
    "om_lookup (umrx_window e) sn \<noteq> None"
    "umrx_reassembly_timer_running e \<longrightarrow> umrx_timer_trigger e = umrx_next_highest e"
  shows "umrx_reassembly_timer_running (umrx_update_timer cfg e) \<and>
    umrx_timer_trigger (umrx_update_timer cfg e) = umrx_next_highest e"
proof -
  have "umrx_off cfg ((sn + 1) mod umrx_mod cfg) (sn + 1) = unat (um_window_size cfg)"
    using umrx_off_mod [of cfg "(sn + 1) mod umrx_mod cfg" "sn + 1"] by (simp add: umrx_off_edges)
  then have "umrx_mod_base cfg e (umrx_next_highest e) = umrx_mod_base cfg e (sn + 1)"
    using assms(1) by (simp add: umrx_mod_base_eq umrx_off_edges)
  moreover have "umrx_mod_base cfg (e\<lparr>umrx_reassembly_timer_running := b\<rparr>) = umrx_mod_base cfg e" for b
    by (auto simp: umrx_mod_base_def)
  ultimately show ?thesis
    using assms
    by (auto simp: umrx_update_timer_def umrx_timer_stop_def umrx_timer_start_def Let_def
        has_missing_byte_segment_def)
qed

lemma umrx_timer_stops:
  assumes "umrx_next_reassembly e = umrx_next_highest e"
    "umrx_reassembly_timer_running e \<longrightarrow> umrx_timer_trigger e = umrx_next_highest e"
  shows "\<not> umrx_reassembly_timer_running (umrx_update_timer cfg e)"
  using assms
  by (auto simp: umrx_update_timer_def umrx_timer_stop_def umrx_timer_start_def Let_def
      umrx_mod_base_less umrx_mod_base_eq umrx_off_edges umrx_off_next_highest)

text \<open>What the header of a segment tells the receiver.\<close>

lemma um_wire_received:
  assumes g: "um_part_of (rxum_sn_field_length cfg) buf g"
    and valid: "\<not> sn_invalid_for_rx_buffer cfg e (seg_sn g)"
  shows "umrx_handle_pdu cfg (um_wire (rxum_sn_field_length cfg) g) e =
    handle_rx_buffer_update cfg (seg_sn g)
      (umrx_store (seg_sn g) (snd (um_entry (rxum_sn_field_length cfg) g)) e)"
proof -
  let ?sz = "rxum_sn_field_length cfg"
  let ?h = "um_seg_header ?sz g"
  have seg: "um_segment_of ?sz buf g" and si: "seg_si g \<noteq> Full_sdu"
    using g by (simp_all add: um_part_of_def)
  have wf: "um_header_wf ?h" by (rule um_seg_header_wf [OF seg])
  have rd: "rlc_um_read_data_pdu_header (um_wire ?sz g) ?sz rlc_um_pdu_header_init = Some ?h"
    unfolding um_wire_def by (rule um_read_write [OF wf]) (simp add: um_seg_header_def)
  have "um_wire ?sz g = rlc_um_write_data_pdu_header ?h [] @ seg_payload g"
    unfolding um_wire_def by (rule um_write_append)
  then have dr: "drop (rlc_um_nr_packed_length ?h) (um_wire ?sz g) = seg_payload g"
    "length (um_wire ?sz g) = rlc_um_nr_packed_length ?h + length (seg_payload g)"
    by simp_all
  have "seg_sn g < 2 ^ 16"
    using seg um_mod_le [of ?sz] by (simp add: um_segment_of_def word_less_nat_alt word_le_nat_alt)
  then have sn: "(ucast (um_sn ?h) :: u32) = seg_sn g"
    using si by (simp add: um_seg_header_def word_unat_eq_iff unat_ucast_mod word_less_nat_alt)
  have ne: "seg_payload g \<noteq> []" and hsi: "um_si ?h = seg_si g"
    using seg by (simp_all add: um_segment_of_def um_seg_header_def)
  show ?thesis
    using valid ne si by (simp add: umrx_handle_pdu_def rd Let_def dr sn hsi um_entry_def)
qed

lemma um_rx_step:
  assumes rel: "um_rx_rel cfg (seg_sn g) buf rs e"
    and parts: "\<forall>r \<in> set (g # rs). um_part_of (rxum_sn_field_length cfg) buf r"
    and disj: "\<forall>r \<in> set rs. seg_disjoint g r"
  shows "\<exists>e'. if segs_bytes (g # rs) = length buf
    then umrx_handle_pdu cfg (um_wire (rxum_sn_field_length cfg) g) e = Some ([On_new_sdu buf], e') \<and>
      um_rx_sync cfg ((seg_sn g + 1) mod umrx_mod cfg) e'
    else umrx_handle_pdu cfg (um_wire (rxum_sn_field_length cfg) g) e = Some ([], e') \<and>
      um_rx_rel cfg (seg_sn g) buf (g # rs) e'"
proof -
  let ?sz = "rxum_sn_field_length cfg" and ?sn = "seg_sn g"
  let ?h1 = "(?sn + 1) mod umrx_mod cfg"
  have gp: "um_part_of ?sz buf g" using parts by simp
  note gb = um_part_bounds [OF gp]
  have sn: "?sn < umrx_mod cfg" and nr: "umrx_next_reassembly e = ?sn"
    using rel by (simp_all add: um_rx_rel_def)
  define i where "i = (case om_lookup (umrx_window e) ?sn of None \<Rightarrow> rlc_rx_um_sdu_info_init | Some i \<Rightarrow> i)"
  have buf: "buf \<noteq> []" using gb(1,2) by auto
  have irel: "um_info_rel ?sz buf rs i" and win: "umrx_window e = (if rs = [] then [] else [(?sn, i)])"
    using rel um_info_rel_init [OF buf, of ?sz] by (auto simp: um_rx_rel_def i_def split: if_splits)
  define j where "j = um_info_store i (snd (um_entry ?sz g))"
  define e1 where "e1 = umrx_store ?sn (snd (um_entry ?sz g)) e"
  have st: "e1 = e\<lparr>umrx_window := om_update ?sn j (umrx_window e)\<rparr>"
    by (simp add: e1_def umrx_store_def Let_def j_def um_info_store_def i_def)
  have e1: "umrx_window e1 = [(?sn, j)]" "umrx_next_reassembly e1 = ?sn"
    "umrx_next_highest e1 = umrx_next_highest e"
    "umrx_reassembly_timer_running e1 = umrx_reassembly_timer_running e"
    "umrx_timer_trigger e1 = umrx_timer_trigger e"
    using win nr by (simp_all add: st)
  obtain segs sdu nso where a:
    "um_assemble (umi_total_sdu_length j) (umi_segments j) (umi_sdu j) (umi_next_expected_so j) =
      Some (segs, sdu, nso, segs_bytes (g # rs) = length buf)"
    "if segs_bytes (g # rs) = length buf then sdu = buf
     else um_info_rel ?sz buf (g # rs)
       (j\<lparr>umi_segments := segs, umi_sdu := sdu, umi_next_expected_so := nso\<rparr>)"
    using um_info_step [OF irel parts disj] unfolding j_def by blast
  let ?j = "j\<lparr>umi_segments := segs, umi_sdu := sdu, umi_next_expected_so := nso\<rparr>"
  define e2 where "e2 = e1\<lparr>umrx_window := [(?sn, ?j)]\<rparr>"
  have e2: "umrx_window e2 = [(?sn, ?j)]" "umrx_next_reassembly e2 = ?sn"
    "umrx_next_highest e2 = umrx_next_highest e"
    "umrx_reassembly_timer_running e2 = umrx_reassembly_timer_running e"
    "umrx_timer_trigger e2 = umrx_timer_trigger e"
    using e1 by (simp_all add: e2_def)
  have upd: "e1\<lparr>umrx_window := om_update ?sn ?j (umrx_window e1)\<rparr> = e2"
    by (simp add: e2_def e1)
  have pdu: "umrx_handle_pdu cfg (um_wire ?sz g) e = handle_rx_buffer_update cfg ?sn e1"
    unfolding e1_def by (rule um_wire_received [OF gp]) (simp add: invalid_iff nr)
  have hb: "handle_rx_buffer_update cfg ?sn e1 =
      (if segs_bytes (g # rs) = length buf
       then Some ([On_new_sdu sdu], umrx_update_timer cfg (umrx_deliver cfg ?sn e2))
       else if \<not> sn_in_reassembly_window cfg e2 ?sn
       then Some ([], umrx_update_timer cfg (umrx_advance cfg ?sn e2))
       else Some ([], umrx_update_timer cfg e2))"
    by (simp add: handle_rx_buffer_update_def e1(1) a(1) Let_def upd [unfolded e1(1)] del: om_update.simps)
  show ?thesis
  proof (cases "segs_bytes (g # rs) = length buf")
    case True
    have "length (seg_payload g) < length buf"
      using gb(2,5) by (cases "seg_so g = 0") auto
    with True have rs: "rs \<noteq> []" by auto
    let ?e = "umrx_deliver cfg ?sn e2"
    have d: "umrx_window ?e = []" "umrx_next_reassembly ?e = ?h1" "umrx_next_highest ?e = ?h1"
      "umrx_reassembly_timer_running ?e \<longrightarrow> umrx_timer_trigger ?e = ?h1"
      using rel rs e2 by (simp_all add: umrx_deliver_def om_erase_def um_rx_rel_def Let_def)
    have "\<not> umrx_reassembly_timer_running (umrx_update_timer cfg ?e)"
      by (rule umrx_timer_stops) (use d in simp_all)
    then have "um_rx_sync cfg ?h1 (umrx_update_timer cfg ?e)"
      using d by (simp add: um_rx_sync_def umrx_update_timer_fields umrx_mod_less)
    with True a(2) show ?thesis by (simp add: pdu hb)
  next
    case False
    have jr: "um_info_rel ?sz buf (g # rs) ?j" using a(2) False by simp
    have fin: "um_rx_rel cfg ?sn buf (g # rs) (umrx_update_timer cfg e')"
      if "umrx_window e' = [(?sn, ?j)]" "umrx_next_reassembly e' = ?sn" "umrx_next_highest e' = ?h1"
        "umrx_reassembly_timer_running e' \<longrightarrow> umrx_timer_trigger e' = ?h1" for e'
      using umrx_timer_runs [of e' ?sn cfg] that sn jr
      by (simp add: um_rx_rel_def umrx_update_timer_fields)
    show ?thesis
    proof (cases "rs = []")
      case True
      have out: "\<not> sn_in_reassembly_window cfg e2 ?sn"
        using rel True e2(3) by (simp add: um_rx_rel_def in_window_iff umrx_off_edges)
      let ?e = "umrx_advance cfg ?sn e2"
      have "umrx_off cfg ?h1 ?sn < unat (um_window_size cfg)"
        using um_window_size_pos [of cfg] by (simp add: umrx_off_edges)
      then have "?e = e2\<lparr>umrx_next_highest := ?h1\<rparr>"
        by (simp add: umrx_advance_def Let_def in_window_iff e2(1,2))
      then have "um_rx_rel cfg ?sn buf (g # rs) (umrx_update_timer cfg ?e)"
        using rel True e2 by (intro fin) (simp_all add: um_rx_rel_def)
      with False out show ?thesis by (simp add: pdu hb)
    next
      case rs: False
      then have h: "umrx_next_highest e2 = ?h1" using rel e2(3) by (simp add: um_rx_rel_def)
      then have inw: "sn_in_reassembly_window cfg e2 ?sn"
        using um_window_size_pos [of cfg] by (simp add: in_window_iff umrx_off_edges)
      have "um_rx_rel cfg ?sn buf (g # rs) (umrx_update_timer cfg e2)"
        using rel rs e2 h by (intro fin) (simp_all add: um_rx_rel_def)
      with False inw show ?thesis by (simp add: pdu hb)
    qed
  qed
qed

lemma um_rx_any_order:
  assumes "um_rx_rel cfg sn buf rs e" "gs \<noteq> []"
    "\<forall>g \<in> set (gs @ rs). um_part_of (rxum_sn_field_length cfg) buf g" "\<forall>g \<in> set gs. seg_sn g = sn"
    "sorted_wrt seg_disjoint gs" "\<forall>g \<in> set gs. \<forall>r \<in> set rs. seg_disjoint g r"
    "segs_bytes gs + segs_bytes rs = length buf"
  shows "\<exists>e'. umrx_run cfg (map (\<lambda>g. Umrx_pdu (um_wire (rxum_sn_field_length cfg) g)) gs) e =
      Some ([On_new_sdu buf], e') \<and> um_rx_sync cfg ((sn + 1) mod umrx_mod cfg) e'"
  using assms
proof (induction gs arbitrary: rs e)
  case (Cons g gs)
  have sn: "seg_sn g = sn" using Cons.prems(4) by simp
  note step = um_rx_step [of cfg g buf rs e]
  have pre: "\<forall>r \<in> set (g # rs). um_part_of (rxum_sn_field_length cfg) buf r" "\<forall>r \<in> set rs. seg_disjoint g r"
    using Cons.prems(3,6) by auto
  show ?case
  proof (cases "gs = []")
    case True
    then have "segs_bytes (g # rs) = length buf" using Cons.prems(7) by simp
    with step [OF _ pre] Cons.prems(1) sn True show ?thesis by auto
  next
    case False
    have "0 < segs_bytes gs"
    proof -
      obtain h hs where gs: "gs = h # hs" using False by (cases gs) auto
      have "um_part_of (rxum_sn_field_length cfg) buf h" using Cons.prems(3) gs by simp
      from um_part_bounds(1) [OF this] show ?thesis by (simp add: gs)
    qed
    then have "segs_bytes (g # rs) \<noteq> length buf" using Cons.prems(7) by simp
    with step [OF _ pre] Cons.prems(1) sn obtain e1 where
      e1: "umrx_handle_pdu cfg (um_wire (rxum_sn_field_length cfg) g) e = Some ([], e1)"
      "um_rx_rel cfg sn buf (g # rs) e1"
      by auto
    obtain e' where "umrx_run cfg (map (\<lambda>g. Umrx_pdu (um_wire (rxum_sn_field_length cfg) g)) gs) e1 =
        Some ([On_new_sdu buf], e')" "um_rx_sync cfg ((sn + 1) mod umrx_mod cfg) e'"
      using Cons.IH [OF e1(2) False] Cons.prems(3-7) by fastforce
    with e1(1) show ?thesis by simp
  qed
qed simp

section \<open>A stream of SDUs\<close>

datatype um_link_call = Link_sdu rlc_sdu | Link_grant nat

text \<open>
  Both ends of a link that delivers every PDU at once.  The result has the SDUs the transmitter
  accepted and what the receiver reported.
\<close>

fun um_link_run ::
  "rlc_tx_um_config \<Rightarrow> rlc_rx_um_config \<Rightarrow> um_link_call list \<Rightarrow> rlc_tx_um_entity \<Rightarrow> rlc_rx_um_entity \<Rightarrow>
    (bytes list \<times> rlc_rx_event list \<times> rlc_tx_um_entity \<times> rlc_rx_um_entity) option" where
  "um_link_run tc rc [] tx rx = Some ([], [], tx, rx)"
| "um_link_run tc rc (Link_sdu sdu # cs) tx rx =
    (case umtx_handle_sdu True sdu tx of
       Inl _ \<Rightarrow> None
     | Inr (ok, tx') \<Rightarrow>
         (case um_link_run tc rc cs tx' rx of
            None \<Rightarrow> None
          | Some (acc, evs, r) \<Rightarrow> Some ((if ok then sdu_buf sdu # acc else acc), evs, r)))"
| "um_link_run tc rc (Link_grant g # cs) tx rx =
    (case umtx_pull_pdu tc g tx of
       Inl _ \<Rightarrow> None
     | Inr (pdu, _, tx') \<Rightarrow>
         (case (if pdu = [] then Some ([], rx) else umrx_handle_pdu rc pdu rx) of
            None \<Rightarrow> None
          | Some (evs, rx') \<Rightarrow>
              (case um_link_run tc rc cs tx' rx' of
                 None \<Rightarrow> None
               | Some (acc, evs', r) \<Rightarrow> Some (acc, evs @ evs', r))))"

fun um_link_call_ok :: "um_link_call \<Rightarrow> bool" where
  "um_link_call_ok (Link_sdu sdu) = (sdu_buf sdu \<noteq> [] \<and> sdu_len sdu \<le> 65535)"
| "um_link_call_ok (Link_grant _) = True"

definition um_linked ::
  "rlc_tx_um_config \<Rightarrow> rlc_rx_um_config \<Rightarrow> rlc_tx_um_entity \<Rightarrow> rlc_rx_um_entity \<Rightarrow> bool" where
  "um_linked tc rc tx rx \<longleftrightarrow>
    umtx_inv tc tx \<and> txum_sn_field_length tc = rxum_sn_field_length rc \<and>
    (\<exists>rs. (\<forall>r \<in> set rs. um_part_of (rxum_sn_field_length rc) (sdu_buf (umtx_sdu tx)) r \<and>
            seg_end r \<le> umtx_next_so tx) \<and>
      segs_bytes rs = umtx_next_so tx \<and>
      um_rx_rel rc (umtx_tx_next tx) (sdu_buf (umtx_sdu tx)) rs rx)"

lemma um_full_sdu_received:
  assumes "um_segment_of (rxum_sn_field_length cfg) buf g" "seg_si g = Full_sdu"
  shows "umrx_handle_pdu cfg (um_wire (rxum_sn_field_length cfg) g) e = Some ([On_new_sdu buf], e)"
proof -
  let ?sz = "rxum_sn_field_length cfg"
  let ?h = "um_seg_header ?sz g"
  have wf: "um_header_wf ?h" by (rule um_seg_header_wf [OF assms(1)])
  have rd: "rlc_um_read_data_pdu_header (um_wire ?sz g) ?sz rlc_um_pdu_header_init = Some ?h"
    unfolding um_wire_def by (rule um_read_write [OF wf]) (simp add: um_seg_header_def)
  have "um_wire ?sz g = rlc_um_write_data_pdu_header ?h [] @ seg_payload g"
    unfolding um_wire_def by (rule um_write_append)
  then have dr: "drop (rlc_um_nr_packed_length ?h) (um_wire ?sz g) = seg_payload g"
    "length (um_wire ?sz g) = rlc_um_nr_packed_length ?h + length (seg_payload g)"
    by simp_all
  have ne: "seg_payload g \<noteq> []" and hsi: "um_si ?h = Full_sdu"
    and so: "seg_so g = 0" "length (seg_payload g) = length buf"
    using assms by (auto simp: um_segment_of_def um_seg_header_def split: if_splits)
  have "seg_payload g = take (length (seg_payload g)) (drop (seg_so g) buf)"
    using assms(1) by (simp add: um_segment_of_def)
  then have "seg_payload g = buf" by (simp only: so) simp
  then show ?thesis using ne by (simp add: umrx_handle_pdu_def rd Let_def dr hsi)
qed

lemma um_linked_new_sdu:
  assumes l: "um_linked tc rc tx rx" and inv: "umtx_inv tc tx'"
    and f: "umtx_tx_next tx' = umtx_tx_next tx" "umtx_next_so tx' = umtx_next_so tx"
      "sdu_buf (umtx_sdu tx) \<noteq> [] \<longrightarrow> umtx_sdu tx' = umtx_sdu tx"
  shows "um_linked tc rc tx' rx"
proof (cases "sdu_buf (umtx_sdu tx) = []")
  case False
  with l inv f show ?thesis by (simp add: um_linked_def)
next
  case True
  obtain rs where rs: "\<forall>r \<in> set rs. um_part_of (rxum_sn_field_length rc) [] r"
    "um_rx_rel rc (umtx_tx_next tx) [] rs rx" and so: "segs_bytes rs = umtx_next_so tx"
    and sz: "txum_sn_field_length tc = rxum_sn_field_length rc"
    using l True by (auto simp: um_linked_def)
  have "rs = []"
    using rs(1) um_part_bounds(1,2) [of "rxum_sn_field_length rc" "[]"] by (cases rs) fastforce+
  with rs(2) so have "um_rx_rel rc (umtx_tx_next tx') (sdu_buf (umtx_sdu tx')) [] rx"
    "umtx_next_so tx' = 0"
    using f by (simp_all add: um_rx_rel_sync)
  with inv sz show ?thesis by (force simp: um_linked_def)
qed

lemma um_link_grant:
  assumes l: "um_linked tc rc tx rx"
  shows "\<exists>pdu e tx' evs rx'. umtx_pull_pdu tc g tx = Inr (pdu, e, tx') \<and>
    (if pdu = [] then Some ([], rx) else umrx_handle_pdu rc pdu rx) = Some (evs, rx') \<and>
    um_linked tc rc tx' rx' \<and> map On_new_sdu (umtx_sdus tx) = evs @ map On_new_sdu (umtx_sdus tx')"
proof -
  let ?sz = "rxum_sn_field_length rc"
  have inv: "umtx_inv tc tx" and sz: "txum_sn_field_length tc = ?sz"
    using l by (simp_all add: um_linked_def)
  from inv show ?thesis
  proof (cases rule: umtx_pull_pdu_ok [where grant = g])
    case (idle evs e')
    with idle um_linked_new_sdu [OF l idle(2,4,5,6)] show ?thesis by simp
  next
    case (segment evs e1 h)
    let ?buf = "sdu_buf (umtx_sdu e1)"
    note l1 = um_linked_new_sdu [OF l segment(2,4,5,7)]
    then obtain rs where rs: "\<forall>r \<in> set rs. um_part_of ?sz ?buf r \<and> seg_end r \<le> umtx_next_so e1"
      "segs_bytes rs = umtx_next_so e1" "um_rx_rel rc (umtx_tx_next e1) ?buf rs rx"
      by (auto simp: um_linked_def)
    have seg: "um_segment_of ?sz ?buf h" using segment(8) sz by simp
    have aft: "umtx_inv tc (umtx_after tc h e1)"
      "umtx_sdus (umtx_after tc h e1) =
        (if seg_end h = length ?buf then tl (umtx_sdus e1) else umtx_sdus e1)"
      using umtx_after_inv [OF segment(2,6,8)] by simp_all
    have hd: "umtx_sdus e1 = ?buf # tl (umtx_sdus e1)"
      using segment(6) by (simp add: umtx_sdus_def)
    have wne: "um_wire ?sz h \<noteq> []"
      using um_wire_length [OF seg] seg by (auto simp: um_segment_of_def)
    have hso: "seg_so h = umtx_next_so e1" "seg_sn h = umtx_tx_next e1"
      using segment(4,5,9,10) by simp_all
    have pull: "umtx_pull_pdu tc g tx = Inr (um_wire ?sz h, evs, umtx_after tc h e1)"
      using segment(1) sz by simp
    have sd: "umtx_sdus tx = umtx_sdus e1" using segment(3) by simp
    have done_evs: "map On_new_sdu (umtx_sdus tx) =
        [On_new_sdu ?buf] @ map On_new_sdu (umtx_sdus (umtx_after tc h e1))"
      if "umtx_sdus (umtx_after tc h e1) = tl (umtx_sdus e1)"
      unfolding sd that by (subst hd) simp
    show ?thesis
    proof (cases "seg_si h = Full_sdu")
      case True
      then have so: "seg_so h = 0" "seg_end h = length ?buf" "length (seg_payload h) = length ?buf"
        using seg by (auto simp: um_segment_of_def split: if_splits)
      have "rs = []"
        using rs(1) so(1) hso(1) um_part_bounds(1) [of ?sz ?buf] by (cases rs) fastforce+
      with rs(3) so(1) hso aft(1) sz have "um_linked tc rc (umtx_after tc h e1) rx"
        by (auto simp: um_linked_def umtx_after_def so um_rx_rel_sync intro!: exI [of _ "[]"])
      moreover have "umrx_handle_pdu rc (um_wire ?sz h) rx = Some ([On_new_sdu ?buf], rx)"
        by (rule um_full_sdu_received [OF seg True])
      moreover have "umtx_sdus (umtx_after tc h e1) = tl (umtx_sdus e1)" using aft(2) so(2) by simp
      note done_evs [OF this]
      ultimately show ?thesis
        by (simp add: pull wne)
    next
      case False
      then have part: "um_part_of ?sz ?buf h" using seg by (simp add: um_part_of_def)
      have pre: "\<forall>r \<in> set (h # rs). um_part_of ?sz ?buf r" "\<forall>r \<in> set rs. seg_disjoint h r"
        using part rs(1) hso(1) by auto
      have tot: "segs_bytes (h # rs) = seg_end h" using rs(2) hso(1) by simp
      have rel: "um_rx_rel rc (seg_sn h) ?buf rs rx" using rs(3) hso(2) by simp
      show ?thesis
      proof (cases "seg_end h = length ?buf")
        case True
        with um_rx_step [OF rel pre] tot obtain rx' where
          r: "umrx_handle_pdu rc (um_wire ?sz h) rx = Some ([On_new_sdu ?buf], rx')"
          "um_rx_sync rc ((seg_sn h + 1) mod umrx_mod rc) rx'"
          by auto
        have so: "seg_so h \<noteq> 0" using um_part_bounds(5) [OF part] True by auto
        have "um_linked tc rc (umtx_after tc h e1) rx'"
          using r(2) aft(1) sz so hso True
          by (auto simp: um_linked_def umtx_after_def um_rx_rel_sync umrx_mod_def umtx_mod_def
              intro!: exI [of _ "[]"])
        moreover have "umtx_sdus (umtx_after tc h e1) = tl (umtx_sdus e1)" using aft(2) True by simp
        note done_evs [OF this]
        ultimately show ?thesis
          by (simp add: pull wne r(1))
      next
        case notlast: False
        with um_rx_step [OF rel pre] tot obtain rx' where
          r: "umrx_handle_pdu rc (um_wire ?sz h) rx = Some ([], rx')"
          "um_rx_rel rc (seg_sn h) ?buf (h # rs) rx'"
          by auto
        have "\<forall>r \<in> set (h # rs). um_part_of ?sz ?buf r \<and> seg_end r \<le> seg_end h"
          using pre(1) rs(1) hso(1) by fastforce
        then have "um_linked tc rc (umtx_after tc h e1) rx'"
          unfolding um_linked_def using r(2) aft(1) sz hso notlast tot
          by (auto simp: umtx_after_def intro!: exI [of _ "h # rs"])
        moreover have "umtx_sdus (umtx_after tc h e1) = umtx_sdus e1" using aft(2) notlast by simp
        ultimately show ?thesis using r(1) pull wne sd by simp
      qed
    qed
  qed
qed

lemma um_link_run_ok:
  "um_linked tc rc tx rx \<Longrightarrow> list_all um_link_call_ok cs \<Longrightarrow>
    \<exists>acc evs tx' rx'. um_link_run tc rc cs tx rx = Some (acc, evs, tx', rx') \<and>
      map On_new_sdu (umtx_sdus tx @ acc) = evs @ map On_new_sdu (umtx_sdus tx')"
proof (induction cs arbitrary: tx rx)
  case (Cons c cs)
  show ?case
  proof (cases c)
    case (Link_sdu sdu)
    obtain ok tx1 where t: "umtx_handle_sdu True sdu tx = Inr (ok, tx1)" "umtx_inv tc tx1"
      "umtx_sdus tx1 = (if ok then umtx_sdus tx @ [sdu_buf sdu] else umtx_sdus tx)"
      "umtx_tx_next tx1 = umtx_tx_next tx" "umtx_next_so tx1 = umtx_next_so tx" "umtx_sdu tx1 = umtx_sdu tx"
      using umtx_handle_sdu_ok [of tc tx sdu True] Cons.prems Link_sdu by (auto simp: um_linked_def)
    then have "um_linked tc rc tx1 rx" using um_linked_new_sdu [OF Cons.prems(1)] by simp
    from Cons.IH [OF this] Cons.prems(2) t Link_sdu show ?thesis by auto
  next
    case (Link_grant g)
    obtain pdu e tx1 evs rx1 where t: "umtx_pull_pdu tc g tx = Inr (pdu, e, tx1)"
      "(if pdu = [] then Some ([], rx) else umrx_handle_pdu rc pdu rx) = Some (evs, rx1)"
      "um_linked tc rc tx1 rx1" "map On_new_sdu (umtx_sdus tx) = evs @ map On_new_sdu (umtx_sdus tx1)"
      using um_link_grant [OF Cons.prems(1), of g] by blast
    from Cons.IH [OF t(3)] Cons.prems(2) obtain acc evs' tx2 rx2 where
      "um_link_run tc rc cs tx1 rx1 = Some (acc, evs', tx2, rx2)"
      "map On_new_sdu (umtx_sdus tx1 @ acc) = evs' @ map On_new_sdu (umtx_sdus tx2)"
      by auto
    with t(1,2,4) Link_grant show ?thesis by (simp del: if_split)
  qed
qed simp

lemma um_linked_init:
  assumes "unat capacity \<le> 2 ^ k" "k \<le> 31" "txum_sn_field_length tc = rxum_sn_field_length rc"
  shows "um_linked tc rc (rlc_tx_um_entity_init capacity (2 ^ k)) rlc_rx_um_entity_init"
  using umtx_init_inv [OF assms(1,2), of tc] um_rx_sync_init [of rc] assms(3)
  by (auto simp: um_linked_def rlc_tx_um_entity_init_def um_rx_rel_sync intro!: exI [of _ "[]"])

section \<open>Properties\<close>



text \<open>C3: The segments of one SDU, cut in any way and received in any order, are put together to
  exactly that SDU; it is reported once, with the arrival of the last missing segment, and the
  receiver is then ready for the next SN with its reassembly timer stopped.\<close>

theorem um_reassembly_any_order:
  assumes "um_rx_sync cfg sn e" "gs \<noteq> []"
    "list_all (\<lambda>g. um_part_of (rxum_sn_field_length cfg) buf g \<and> seg_sn g = sn) gs"
    "sorted_wrt (\<lambda>g r. seg_so g + length (seg_payload g) \<le> seg_so r \<or>
        seg_so r + length (seg_payload r) \<le> seg_so g) gs"
    "segs_bytes gs = length buf"
  shows "\<exists>e'. umrx_run cfg (map (\<lambda>g. Umrx_pdu (um_wire (rxum_sn_field_length cfg) g)) gs) e =
      Some ([On_new_sdu buf], e') \<and> um_rx_sync cfg ((sn + 1) mod umrx_mod cfg) e'"
  using um_rx_any_order [of cfg sn buf "[]" e gs] assms
  by (simp add: um_rx_rel_sync list_all_iff)

theorem um_reassembly_any_order_witness:
  "\<exists>e'. umrx_run \<lparr>rxum_sn_field_length = Um_size6bits, rxum_t_reassembly = 50\<rparr>
      (map (\<lambda>g. Umrx_pdu (um_wire Um_size6bits g))
        [\<lparr>seg_si = Last_segment, seg_sn = 0, seg_so = 3, seg_payload = [4]\<rparr>,
         \<lparr>seg_si = First_segment, seg_sn = 0, seg_so = 0, seg_payload = [1]\<rparr>,
         \<lparr>seg_si = Middle_segment, seg_sn = 0, seg_so = 1, seg_payload = [2, 3]\<rparr>])
      rlc_rx_um_entity_init = Some ([On_new_sdu [1, 2, 3, 4]], e')"
  using um_reassembly_any_order [of "\<lparr>rxum_sn_field_length = Um_size6bits, rxum_t_reassembly = 50\<rparr>" 0
      rlc_rx_um_entity_init
      "[\<lparr>seg_si = Last_segment, seg_sn = 0, seg_so = 3, seg_payload = [4]\<rparr>,
         \<lparr>seg_si = First_segment, seg_sn = 0, seg_so = 0, seg_payload = [1]\<rparr>,
         \<lparr>seg_si = Middle_segment, seg_sn = 0, seg_so = 1, seg_payload = [2, 3]\<rparr>]" "[1, 2, 3, 4]"]
    um_rx_sync_init [of "\<lparr>rxum_sn_field_length = Um_size6bits, rxum_t_reassembly = 50\<rparr>"]
  by (auto simp: um_part_of_def um_segment_of_def)


end
