(* ===== verification/Um_Bearer.thy ===== *)
theory Um_Bearer
  imports Pdcp Rlc_Um
begin

text \<open>
  A data radio bearer in unacknowledged mode from end to end: PDCP above RLC at one side, RLC below PDCP at the
  other, with a link in between that delivers every RLC PDU at once.  PDCP hands its PDUs to the SDU queue of RLC;
  the grants of the MAC drive the transfer; RLC notifies PDCP of the SDUs it has begun to send.  Theorem
  \<open>um_bearer_delivers\<close> says that what comes out at the top is what was put in at the top of the other side.
\<close>

section \<open>The bearer\<close>

record 'ctx um_bearer_config =
  bc_lib :: "'ctx crypto_lib"
  bc_id :: u8
  bc_pdcp_tx :: pdcp_tx_config
  bc_rlc_tx :: rlc_tx_um_config
  bc_rlc_rx :: rlc_rx_um_config
  bc_pdcp_rx :: pdcp_rx_config

record um_bearer =
  ub_pdcp_tx :: pdcp_entity_tx
  ub_rlc_tx :: rlc_tx_um_entity
  ub_rlc_rx :: rlc_rx_um_entity
  ub_pdcp_rx :: pdcp_entity_rx

datatype um_bearer_call = Bearer_sdu bytes | Bearer_grant nat

text \<open>What PDCP sends goes to RLC; the flag says whether the SDU queue had room.\<close>

fun bearer_lower :: "pdcp_tx_event list \<Rightarrow> rlc_tx_um_entity \<Rightarrow> (bool \<times> rlc_tx_um_entity) option" where
  "bearer_lower [] tx = Some (True, tx)"
| "bearer_lower (Tx_new_pdu p # evs) tx =
    (case umtx_handle_sdu True \<lparr>sdu_buf = tx_pdu_buf p, sdu_pdcp_sn = tx_pdu_pdcp_sn p\<rparr> tx of
       Inl _ \<Rightarrow> None
     | Inr (ok, tx') \<Rightarrow> map_option (\<lambda>(ok', tx''). (ok \<and> ok', tx'')) (bearer_lower evs tx'))"
| "bearer_lower (Tx_discard_pdu sn # evs) tx =
    (case umtx_discard_sdu True sn tx of Inl _ \<Rightarrow> None | Inr (_, tx') \<Rightarrow> bearer_lower evs tx')"
| "bearer_lower (_ # evs) tx = bearer_lower evs tx"

fun bearer_notify :: "pdcp_tx_config \<Rightarrow> rlc_tx_event list \<Rightarrow> pdcp_entity_tx \<Rightarrow> pdcp_entity_tx option" where
  "bearer_notify cfg [] tx = Some tx"
| "bearer_notify cfg (On_transmitted_sdu sn # evs) tx =
    (case handle_transmit_notification cfg sn tx of None \<Rightarrow> None | Some tx' \<Rightarrow> bearer_notify cfg evs tx')"
| "bearer_notify cfg (_ # evs) tx = bearer_notify cfg evs tx"

fun bearer_upper ::
  "'ctx crypto_lib \<Rightarrow> u8 \<Rightarrow> pdcp_rx_config \<Rightarrow> rlc_rx_event list \<Rightarrow> pdcp_entity_rx \<Rightarrow> (pdcp_rx_event list \<times> pdcp_entity_rx) option" where
  "bearer_upper lib bid cfg [] rx = Some ([], rx)"
| "bearer_upper lib bid cfg (On_new_sdu pdu # evs) rx =
    (case pdcp_rx_handle_pdu lib bid cfg pdu rx of
       Inl _ \<Rightarrow> None
     | Inr (out, rx') \<Rightarrow> map_option (\<lambda>(out', rx''). (out @ out', rx'')) (bearer_upper lib bid cfg evs rx'))"

text \<open>One call; the bearer stops working where a queue has no room.\<close>

definition um_bearer_step ::
  "'ctx um_bearer_config \<Rightarrow> um_bearer_call \<Rightarrow> um_bearer \<Rightarrow> (bool \<times> pdcp_rx_event list \<times> um_bearer) option" where
  "um_bearer_step cfg call b =
    (case call of
       Bearer_sdu sdu \<Rightarrow>
        (case pdcp_tx_handle_sdu (bc_lib cfg) (bc_id cfg) (bc_pdcp_tx cfg) sdu (ub_pdcp_tx b) of
           Inl _ \<Rightarrow> None
         | Inr (evs, ptx) \<Rightarrow>
            map_option (\<lambda>(ok, rtx). (ok, [], b\<lparr>ub_pdcp_tx := ptx, ub_rlc_tx := rtx\<rparr>)) (bearer_lower evs (ub_rlc_tx b)))
     | Bearer_grant n \<Rightarrow>
        (case umtx_pull_pdu (bc_rlc_tx cfg) n (ub_rlc_tx b) of
           Inl _ \<Rightarrow> None
         | Inr (pdu, evs, rtx) \<Rightarrow>
            (case bearer_notify (bc_pdcp_tx cfg) evs (ub_pdcp_tx b) of
               None \<Rightarrow> None
             | Some ptx \<Rightarrow>
                (case (if pdu = [] then Some ([], ub_rlc_rx b) else umrx_handle_pdu (bc_rlc_rx cfg) pdu (ub_rlc_rx b)) of
                   None \<Rightarrow> None
                 | Some (revs, rrx) \<Rightarrow>
                    map_option (\<lambda>(out, prx). (True, out,
                        \<lparr>ub_pdcp_tx = ptx, ub_rlc_tx = rtx, ub_rlc_rx = rrx, ub_pdcp_rx = prx\<rparr>))
                      (bearer_upper (bc_lib cfg) (bc_id cfg) (bc_pdcp_rx cfg) revs (ub_pdcp_rx b))))))"

fun um_bearer_run ::
  "'ctx um_bearer_config \<Rightarrow> um_bearer_call list \<Rightarrow> um_bearer \<Rightarrow> (bool \<times> pdcp_rx_event list \<times> um_bearer) option" where
  "um_bearer_run cfg [] b = Some (True, [], b)"
| "um_bearer_run cfg (call # calls) b =
    (case um_bearer_step cfg call b of
       None \<Rightarrow> None
     | Some (ok, out, b') \<Rightarrow>
        if ok then map_option (\<lambda>(ok', out', b''). (ok', out @ out', b'')) (um_bearer_run cfg calls b')
        else Some (False, out, b'))"

fun bearer_sdus :: "um_bearer_call list \<Rightarrow> bytes list" where
  "bearer_sdus [] = []"
| "bearer_sdus (Bearer_sdu sdu # calls) = sdu # bearer_sdus calls"
| "bearer_sdus (Bearer_grant _ # calls) = bearer_sdus calls"

section \<open>PDUs that arrive in order\<close>

definition rx_in_sync :: "u32 \<Rightarrow> pdcp_entity_rx \<Rightarrow> bool" where
  "rx_in_sync c e \<longleftrightarrow> reorder_queue e = [] \<and> rx_next e = c \<and> rx_deliv e = c \<and> \<not> reordering_timer_running e"

lemma reorder_in_sync:
  assumes "rx_in_sync c e" "c \<noteq> - 1"
  shows "\<exists>e'. rx_reorder cfg c sdu e = ([Rx_new_sdu sdu], e') \<and> rx_in_sync (c + 1) e' \<and> same_sec e e'"
  using assms
  by (simp add: rx_reorder_def rx_in_sync_def same_sec_def deliver_all_consecutive_counts_def
    handle_t_reordering_expire_def Let_def)

section \<open>Invariant\<close>

text \<open>The COUNTs of \<open>n\<close> SDUs stay below all limits.\<close>

definition counts_fit :: "'ctx um_bearer_config \<Rightarrow> nat \<Rightarrow> bool" where
  "counts_fit cfg n \<longleftrightarrow>
    n \<le> unat (mc_notify (pc_tx_max_count (bc_pdcp_tx cfg))) \<and> n \<le> unat (mc_hard (pc_tx_max_count (bc_pdcp_tx cfg))) \<and>
    n \<le> unat (mc_notify (pc_rx_max_count (bc_pdcp_rx cfg))) \<and> n \<le> unat (mc_hard (pc_rx_max_count (bc_pdcp_rx cfg)))"

abbreviation sdu_fits :: "bytes \<Rightarrow> bool" where
  "sdu_fits sdu \<equiv> sdu \<noteq> [] \<and> length sdu \<le> 65528"

text \<open>The PDUs of the SDUs from \<open>n\<close> on, as the transmitting PDCP entity makes them.\<close>

definition pdus_of :: "'ctx um_bearer_config \<Rightarrow> pdcp_entity_tx \<Rightarrow> bytes list \<Rightarrow> nat \<Rightarrow> bytes list \<Rightarrow> bool" where
  "pdus_of cfg te sdus n pdus \<longleftrightarrow> n + length pdus \<le> length sdus \<and>
    (\<forall>i < length pdus. build_data_pdu (bc_lib cfg) (bc_id cfg) (bc_pdcp_tx cfg) (sdus ! (n + i)) (of_nat (n + i)) te =
      Inr (pdus ! i))"

definition um_bearer_ok :: "'ctx um_bearer_config \<Rightarrow> bytes list \<Rightarrow> nat \<Rightarrow> um_bearer \<Rightarrow> bool" where
  "um_bearer_ok cfg sdus n b \<longleftrightarrow>
    um_linked (bc_rlc_tx cfg) (bc_rlc_rx cfg) (ub_rlc_tx b) (ub_rlc_rx b) \<and>
    pdcp_peers (bc_pdcp_tx cfg) (ub_pdcp_tx b) (bc_pdcp_rx cfg) (ub_pdcp_rx b) \<and>
    sec_lib_ok (bc_lib cfg) (tx_sec_cfg (ub_pdcp_tx b)) \<and> \<not> discard_timer_configured (bc_pdcp_tx cfg) \<and>
    list_all sdu_fits sdus \<and> tx_next (ub_pdcp_tx b) = of_nat (length sdus) \<and> rx_in_sync (of_nat n) (ub_pdcp_rx b) \<and>
    n + length (umtx_sdus (ub_rlc_tx b)) = length sdus \<and>
    pdus_of cfg (ub_pdcp_tx b) sdus n (umtx_sdus (ub_rlc_tx b))"

lemma build_data_pdu_next: "build_data_pdu lib bid cfg sdu c (te\<lparr>tx_next := x\<rparr>) = build_data_pdu lib bid cfg sdu c te"
  by (rule build_data_pdu_same_sec) simp_all

lemma peers_next: "pdcp_peers tc (te\<lparr>tx_next := x\<rparr>) rc re = pdcp_peers tc te rc re"
  by (simp add: pdcp_peers_def)

text \<open>The SDU that is given to PDCP next becomes one PDU.\<close>

lemma handle_sdu_pdu:
  assumes "counts_fit cfg (length sdus + 1)" "tx_next te = of_nat (length sdus)"
    "\<not> discard_timer_configured (bc_pdcp_tx cfg)"
    "build_data_pdu lib bid (bc_pdcp_tx cfg) sdu (of_nat (length sdus)) te = Inr pdu"
  shows "pdcp_tx_handle_sdu lib bid (bc_pdcp_tx cfg) sdu te =
    Inr ([write_data_pdu_to_lower_layers (bc_pdcp_tx cfg) (of_nat (length sdus)) pdu],
      te\<lparr>tx_next := of_nat (length sdus + 1)\<rparr>)"
proof -
  let ?mc = "pc_tx_max_count (bc_pdcp_tx cfg)"
  have "length sdus + 1 < 2 ^ 32"
    using assms(1) unsigned_less [of "mc_hard ?mc", where 'a = nat] by (simp add: counts_fit_def)
  then have "unat (of_nat (length sdus) :: u32) = length sdus" by (simp add: unat_of_nat_u32)
  then have "\<not> mc_hard ?mc \<le> tx_next te" "\<not> mc_notify ?mc \<le> tx_next te"
    using assms(1,2) by (simp_all add: counts_fit_def word_le_nat_alt)
  then show ?thesis
    unfolding pdcp_tx_handle_sdu_def Let_def
    using assms(2-4) by (simp add: start_discard_timer_def)
qed

text \<open>PDUs that arrive in order are delivered at once.\<close>

lemma pdu_in_order:
  assumes "pdcp_peers tc te rc e" "sec_lib_ok lib (tx_sec_cfg te)" "sdu_fits sdu" "rx_in_sync c e"
    "c \<le> mc_notify (pc_rx_max_count rc)" "c < mc_hard (pc_rx_max_count rc)"
    "build_data_pdu lib bid tc sdu c te = Inr pdu"
  shows "\<exists>e'. pdcp_rx_handle_pdu lib bid rc pdu e = Inr ([Rx_new_sdu sdu], e') \<and> rx_in_sync (c + 1) e' \<and>
    pdcp_peers tc te rc e'"
proof -
  have len: "sdu \<noteq> []" "length sdu < 2 ^ 23" using assms(3) by auto
  obtain pdu' where pdu': "build_data_pdu lib bid tc sdu c te = Inr pdu'"
      "pdcp_data_pdu_header_size (pc_sn_size rc) < length pdu'"
      "pc_rb_type rc = Drb \<Longrightarrow> pdcp_pdu_get_dc (pdu' ! 0) = Pdcp_dc_data"
      "read_data_pdu_header (pc_sn_size rc) pdu' = Some (pdcp_compute_sn c (pc_sn_size rc))"
      "rx_unprotect lib bid rc pdu' c e = Inr (Some sdu)"
    by (rule unprotect_protect [OF assms(1,2) len, where bearer = bid and c = c]) blast
  have pdu: "pdu' = pdu" using pdu'(1) assms(7) by simp
  have "rx_deliv e = c" using assms(4) by (simp add: rx_in_sync_def)
  then have "infer_count (pc_sn_size rc) (rx_deliv e) (pdcp_compute_sn c (pc_sn_size rc)) = c"
    using sn_mod_window(2) [of "pc_sn_size rc"] by (intro infer_count_window) simp_all
  from handle_pdu_data [OF pdu'(2,3,4) this assms(5,6) pdu'(5)]
  have "pdcp_rx_handle_pdu lib bid rc pdu e = Inr (rx_reorder rc c sdu e)" unfolding pdu by blast
  moreover have "c \<noteq> - 1" using assms(6) by (metis word_n1_ge leD)
  ultimately show ?thesis using reorder_in_sync [OF assms(4), of rc sdu] same_sec_peers [OF assms(1)] by auto
qed

lemma bearer_upper_ok:
  assumes "pdcp_peers (bc_pdcp_tx cfg) te (bc_pdcp_rx cfg) e" "sec_lib_ok (bc_lib cfg) (tx_sec_cfg te)"
    "list_all sdu_fits sdus" "counts_fit cfg (length sdus)" "rx_in_sync (of_nat n) e" "pdus_of cfg te sdus n pdus"
  shows "\<exists>e'. bearer_upper (bc_lib cfg) (bc_id cfg) (bc_pdcp_rx cfg) (map On_new_sdu pdus) e =
      Some (map Rx_new_sdu (take (length pdus) (drop n sdus)), e') \<and>
    rx_in_sync (of_nat (n + length pdus)) e' \<and> pdcp_peers (bc_pdcp_tx cfg) te (bc_pdcp_rx cfg) e'"
  using assms
proof (induction pdus arbitrary: n e)
  case (Cons pdu pdus)
  have n: "n < length sdus" and built: "build_data_pdu (bc_lib cfg) (bc_id cfg) (bc_pdcp_tx cfg) (sdus ! n) (of_nat n) te = Inr pdu"
    using Cons.prems(6) by (auto simp: pdus_of_def)
  have rest: "pdus_of cfg te sdus (Suc n) pdus"
    unfolding pdus_of_def
  proof (intro conjI allI impI)
    show "Suc n + length pdus \<le> length sdus" using Cons.prems(6) by (simp add: pdus_of_def)
    fix i assume "i < length pdus"
    then have "Suc i < length (pdu # pdus)" by simp
    with Cons.prems(6) have "build_data_pdu (bc_lib cfg) (bc_id cfg) (bc_pdcp_tx cfg) (sdus ! (n + Suc i)) (of_nat (n + Suc i)) te =
        Inr ((pdu # pdus) ! Suc i)" unfolding pdus_of_def by blast
    then show "build_data_pdu (bc_lib cfg) (bc_id cfg) (bc_pdcp_tx cfg) (sdus ! (Suc n + i)) (of_nat (Suc n + i)) te =
        Inr (pdus ! i)" by simp
  qed
  let ?mc = "pc_rx_max_count (bc_pdcp_rx cfg)"
  have "n < 2 ^ 32"
    using n Cons.prems(4) unsigned_less [of "mc_hard ?mc", where 'a = nat] by (simp add: counts_fit_def)
  then have "unat (of_nat n :: u32) = n" by (rule unat_of_nat_u32)
  then have lim: "of_nat n \<le> mc_notify ?mc" "of_nat n < mc_hard ?mc"
    using n Cons.prems(4) by (simp_all add: counts_fit_def word_le_nat_alt word_less_nat_alt)
  have fits: "sdu_fits (sdus ! n)" using Cons.prems(3) n by (simp add: list_all_length)
  obtain e1 where e1: "pdcp_rx_handle_pdu (bc_lib cfg) (bc_id cfg) (bc_pdcp_rx cfg) pdu e = Inr ([Rx_new_sdu (sdus ! n)], e1)"
      "rx_in_sync (of_nat n + 1) e1" "pdcp_peers (bc_pdcp_tx cfg) te (bc_pdcp_rx cfg) e1"
    using pdu_in_order [OF Cons.prems(1,2) fits Cons.prems(5) lim built] by blast
  have "rx_in_sync (of_nat (Suc n)) e1" using e1(2) by (simp add: add.commute)
  from Cons.IH [OF e1(3) Cons.prems(2,3,4) this rest] e1(1) n show ?case
    by (auto simp: Cons_nth_drop_Suc [symmetric])
qed (simp add: pdus_of_def)

lemma pdus_of_next:
  "pdus_of cfg te sdus n pdus \<Longrightarrow> n + length pdus = length sdus \<Longrightarrow>
    build_data_pdu (bc_lib cfg) (bc_id cfg) (bc_pdcp_tx cfg) sdu (of_nat (length sdus)) te = Inr pdu \<Longrightarrow>
    pdus_of cfg (te\<lparr>tx_next := x\<rparr>) (sdus @ [sdu]) n (pdus @ [pdu])"
  by (auto simp: pdus_of_def build_data_pdu_next nth_append less_Suc_eq simp del: of_nat_add)

lemma bearer_notify_same: "\<not> discard_timer_configured cfg \<Longrightarrow> bearer_notify cfg evs te = Some te"
proof (induction evs)
  case (Cons ev evs)
  then show ?case by (cases ev) (auto simp: handle_transmit_notification_def stop_discard_timer_def)
qed simp

lemma um_bearer_sdu:
  assumes ok: "um_bearer_ok cfg sdus n b" and fits: "sdu_fits sdu" "counts_fit cfg (length sdus + 1)"
  shows "\<exists>acc b'. um_bearer_step cfg (Bearer_sdu sdu) b = Some (acc, [], b') \<and>
    (acc \<longrightarrow> um_bearer_ok cfg (sdus @ [sdu]) n b')"
proof -
  let ?te = "ub_pdcp_tx b" let ?tx = "ub_rlc_tx b" let ?c = "of_nat (length sdus) :: u32"
  have link: "um_linked (bc_rlc_tx cfg) (bc_rlc_rx cfg) ?tx (ub_rlc_rx b)"
    and peers: "pdcp_peers (bc_pdcp_tx cfg) ?te (bc_pdcp_rx cfg) (ub_pdcp_rx b)"
    and lib: "sec_lib_ok (bc_lib cfg) (tx_sec_cfg ?te)" and timer: "\<not> discard_timer_configured (bc_pdcp_tx cfg)"
    and sdus: "list_all sdu_fits sdus" "tx_next ?te = ?c" "rx_in_sync (of_nat n) (ub_pdcp_rx b)"
      "n + length (umtx_sdus ?tx) = length sdus" "pdus_of cfg ?te sdus n (umtx_sdus ?tx)"
    using ok unfolding um_bearer_ok_def by blast+
  have len: "sdu \<noteq> []" "length sdu < 2 ^ 23" using fits(1) by auto
  obtain pdu where pdu: "build_data_pdu (bc_lib cfg) (bc_id cfg) (bc_pdcp_tx cfg) sdu ?c ?te = Inr pdu"
      "pdcp_data_pdu_header_size (pc_sn_size (bc_pdcp_rx cfg)) < length pdu" "length pdu \<le> length sdu + 7"
    by (rule unprotect_protect [OF peers lib len, where bearer = "bc_id cfg" and c = ?c]) blast
  let ?ev = "write_data_pdu_to_lower_layers (bc_pdcp_tx cfg) ?c pdu" let ?te' = "?te\<lparr>tx_next := of_nat (length sdus + 1)\<rparr>"
  have sent: "pdcp_tx_handle_sdu (bc_lib cfg) (bc_id cfg) (bc_pdcp_tx cfg) sdu ?te = Inr ([?ev], ?te')"
    by (rule handle_sdu_pdu [OF fits(2) sdus(2) timer pdu(1)])
  obtain p where p: "?ev = Tx_new_pdu p" "tx_pdu_buf p = pdu" by (simp add: write_data_pdu_to_lower_layers_def)
  let ?sdu = "\<lparr>sdu_buf = tx_pdu_buf p, sdu_pdcp_sn = tx_pdu_pdcp_sn p\<rparr>"
  have "umtx_inv (bc_rlc_tx cfg) ?tx" using link by (simp add: um_linked_def)
  moreover have "pdu \<noteq> []" "length pdu \<le> 65535" using pdu(2,3) fits(1) by auto
  ultimately obtain acc tx' where tx': "umtx_handle_sdu True ?sdu ?tx = Inr (acc, tx')" "umtx_inv (bc_rlc_tx cfg) tx'"
      "umtx_sdus tx' = (if acc then umtx_sdus ?tx @ [pdu] else umtx_sdus ?tx)"
      "umtx_tx_next tx' = umtx_tx_next ?tx" "umtx_next_so tx' = umtx_next_so ?tx" "umtx_sdu tx' = umtx_sdu ?tx"
    using umtx_handle_sdu_ok [of "bc_rlc_tx cfg" ?tx ?sdu True] p(2) by auto
  have link': "um_linked (bc_rlc_tx cfg) (bc_rlc_rx cfg) tx' (ub_rlc_rx b)"
    using um_linked_new_sdu [OF link tx'(2,4,5)] tx'(6) by simp
  let ?b = "b\<lparr>ub_pdcp_tx := ?te', ub_rlc_tx := tx'\<rparr>"
  have "um_bearer_step cfg (Bearer_sdu sdu) b = Some (acc, [], ?b)"
    by (simp add: um_bearer_step_def sent p(1) tx'(1))
  moreover have "um_bearer_ok cfg (sdus @ [sdu]) n ?b" if acc
    using that link' peers lib timer sdus(1,3,4) fits(1) tx'(3) pdus_of_next [OF sdus(5,4) pdu(1)]
    by (simp add: um_bearer_ok_def peers_next)
  ultimately show ?thesis by blast
qed

lemma pdus_of_append:
  assumes "pdus_of cfg te sdus n (ps @ qs)"
  shows "pdus_of cfg te sdus n ps" "pdus_of cfg te sdus (n + length ps) qs"
proof -
  let ?built = "\<lambda>i p. build_data_pdu (bc_lib cfg) (bc_id cfg) (bc_pdcp_tx cfg) (sdus ! i) (of_nat i) te = Inr p"
  have len: "n + length (ps @ qs) \<le> length sdus" and all: "\<And>i. i < length (ps @ qs) \<Longrightarrow> ?built (n + i) ((ps @ qs) ! i)"
    using assms unfolding pdus_of_def by blast+
  have "?built (n + i) (ps ! i)" if "i < length ps" for i
    using all [of i] that by (simp only: nth_append length_append if_True trans_less_add1)
  with len show "pdus_of cfg te sdus n ps" by (simp add: pdus_of_def)
  have "?built (n + length ps + i) (qs ! i)" if "i < length qs" for i
    using all [of "length ps + i"] that by (simp add: add.assoc del: of_nat_add)
  with len show "pdus_of cfg te sdus (n + length ps) qs" unfolding pdus_of_def by (simp del: of_nat_add)
qed

lemma map_On_new_sdu_split:
  "map On_new_sdu xs = revs @ map On_new_sdu ys \<Longrightarrow> \<exists>ps. revs = map On_new_sdu ps \<and> xs = ps @ ys"
proof -
  have "inj On_new_sdu" by (rule injI) simp
  then show "map On_new_sdu xs = revs @ map On_new_sdu ys \<Longrightarrow> ?thesis"
    by (auto simp: map_eq_append_conv inj_map_eq_map)
qed

lemma take_drop_split:
  "n \<le> m \<Longrightarrow> m \<le> k \<Longrightarrow> take (k - n) (drop n xs) = take (m - n) (drop n xs) @ take (k - m) (drop m xs)"
  using take_add [of "m - n" "k - m" "drop n xs"] by simp

lemma um_bearer_grant:
  assumes ok: "um_bearer_ok cfg sdus n b" and fits: "counts_fit cfg (length sdus)"
  shows "\<exists>m b'. um_bearer_step cfg (Bearer_grant g) b = Some (True, map Rx_new_sdu (take (m - n) (drop n sdus)), b') \<and>
    n \<le> m \<and> um_bearer_ok cfg sdus m b'"
proof -
  let ?te = "ub_pdcp_tx b" let ?tx = "ub_rlc_tx b"
  have link: "um_linked (bc_rlc_tx cfg) (bc_rlc_rx cfg) ?tx (ub_rlc_rx b)"
    and peers: "pdcp_peers (bc_pdcp_tx cfg) ?te (bc_pdcp_rx cfg) (ub_pdcp_rx b)"
    and lib: "sec_lib_ok (bc_lib cfg) (tx_sec_cfg ?te)" and timer: "\<not> discard_timer_configured (bc_pdcp_tx cfg)"
    and sdus: "list_all sdu_fits sdus" "tx_next ?te = of_nat (length sdus)" "rx_in_sync (of_nat n) (ub_pdcp_rx b)"
      "n + length (umtx_sdus ?tx) = length sdus" "pdus_of cfg ?te sdus n (umtx_sdus ?tx)"
    using ok unfolding um_bearer_ok_def by blast+
  obtain pdu evs tx' revs rx' where t: "umtx_pull_pdu (bc_rlc_tx cfg) g ?tx = Inr (pdu, evs, tx')"
      "(if pdu = [] then Some ([], ub_rlc_rx b) else umrx_handle_pdu (bc_rlc_rx cfg) pdu (ub_rlc_rx b)) = Some (revs, rx')"
      "um_linked (bc_rlc_tx cfg) (bc_rlc_rx cfg) tx' rx'"
      "map On_new_sdu (umtx_sdus ?tx) = revs @ map On_new_sdu (umtx_sdus tx')"
    using um_link_grant [OF link, of g] by blast
  from map_On_new_sdu_split [OF t(4)] obtain ps where ps: "revs = map On_new_sdu ps" "umtx_sdus ?tx = ps @ umtx_sdus tx'"
    by blast
  note split = pdus_of_append [OF sdus(5) [unfolded ps(2)]]
  obtain prx where prx: "bearer_upper (bc_lib cfg) (bc_id cfg) (bc_pdcp_rx cfg) revs (ub_pdcp_rx b) =
        Some (map Rx_new_sdu (take (length ps) (drop n sdus)), prx)"
      "rx_in_sync (of_nat (n + length ps)) prx" "pdcp_peers (bc_pdcp_tx cfg) ?te (bc_pdcp_rx cfg) prx"
    using bearer_upper_ok [OF peers lib sdus(1) fits sdus(3) split(1)] unfolding ps(1) by blast
  let ?b = "\<lparr>ub_pdcp_tx = ?te, ub_rlc_tx = tx', ub_rlc_rx = rx', ub_pdcp_rx = prx\<rparr>"
  have "um_bearer_step cfg (Bearer_grant g) b = Some (True, map Rx_new_sdu (take (length ps) (drop n sdus)), ?b)"
    unfolding um_bearer_step_def um_bearer_call.case t(1,2) sum.case prod.case option.case
      bearer_notify_same [OF timer] prx(1) by simp
  moreover have "um_bearer_ok cfg sdus (n + length ps) ?b"
    unfolding um_bearer_ok_def
    using t(3) prx(2,3) lib timer sdus(1,2,4) split(2) ps(2) by (simp del: of_nat_add)
  ultimately show ?thesis by (intro exI [of _ "n + length ps"] exI [of _ ?b]) simp
qed

lemma um_bearer_run_ok:
  assumes "um_bearer_ok cfg sdus n b" "list_all sdu_fits (bearer_sdus calls)"
    "counts_fit cfg (length sdus + length (bearer_sdus calls))"
  shows "\<exists>acc m b'. um_bearer_run cfg calls b =
      Some (acc, map Rx_new_sdu (take (m - n) (drop n (sdus @ bearer_sdus calls))), b') \<and> n \<le> m \<and>
    (acc \<longrightarrow> um_bearer_ok cfg (sdus @ bearer_sdus calls) m b')"
  using assms
proof (induction calls arbitrary: sdus n b)
  case Nil
  then show ?case by (intro exI [of _ True] exI [of _ n] exI [of _ b]) simp
next
  case (Cons call calls)
  show ?case
  proof (cases call)
    case (Bearer_sdu sdu)
    have "counts_fit cfg (length sdus + 1)" "sdu_fits sdu" using Cons.prems(2,3) Bearer_sdu by (auto simp: counts_fit_def)
    then obtain acc b1 where b1: "um_bearer_step cfg call b = Some (acc, [], b1)" "acc \<longrightarrow> um_bearer_ok cfg (sdus @ [sdu]) n b1"
      using um_bearer_sdu [OF Cons.prems(1)] unfolding Bearer_sdu by blast
    show ?thesis
    proof (cases acc)
      case True
      from b1(2) True have "um_bearer_ok cfg (sdus @ [sdu]) n b1" by blast
      from Cons.IH [OF this] Cons.prems(2,3) Bearer_sdu b1(1) True show ?thesis by auto
    next
      case False
      with b1(1) show ?thesis by (intro exI [of _ False] exI [of _ n] exI [of _ b1]) simp
    qed
  next
    case (Bearer_grant g)
    have "counts_fit cfg (length sdus)" using Cons.prems(3) by (auto simp: counts_fit_def)
    then obtain m1 b1 where b1: "um_bearer_step cfg call b = Some (True, map Rx_new_sdu (take (m1 - n) (drop n sdus)), b1)"
        "n \<le> m1" "um_bearer_ok cfg sdus m1 b1"
      using um_bearer_grant [OF Cons.prems(1)] unfolding Bearer_grant by blast
    let ?all = "sdus @ bearer_sdus calls"
    from Cons.IH [OF b1(3)] Cons.prems(2,3) Bearer_grant obtain acc m b' where r:
        "um_bearer_run cfg calls b1 = Some (acc, map Rx_new_sdu (take (m - m1) (drop m1 ?all)), b')" "m1 \<le> m"
        "acc \<longrightarrow> um_bearer_ok cfg ?all m b'"
      by auto
    have "m1 \<le> length sdus" using b1(3) by (simp add: um_bearer_ok_def)
    then have "take (m1 - n) (drop n sdus) = take (m1 - n) (drop n ?all)" using b1(2) by simp
    moreover have "take (m - n) (drop n ?all) = take (m1 - n) (drop n ?all) @ take (m - m1) (drop m1 ?all)"
      by (rule take_drop_split [OF b1(2) r(2)])
    ultimately have "um_bearer_run cfg (call # calls) b = Some (acc, map Rx_new_sdu (take (m - n) (drop n ?all)), b')"
      using b1(1) r(1) by (simp only: um_bearer_run.simps option.case prod.case if_True option.map map_append)
    moreover have "bearer_sdus (call # calls) = bearer_sdus calls" by (simp add: Bearer_grant)
    ultimately show ?thesis using b1(2) r(2,3) by (intro exI [of _ acc] exI [of _ m] exI [of _ b']) simp
  qed
qed

section \<open>Properties\<close>



end
