(* ===== verification/Spec2Isabelle.thy ===== *)
theory Spec2Isabelle
  imports Rlc_Tm Rlc_Am Um_Bearer
begin

text \<open>
  Verification of the PDCP and RLC layers of the srsRAN Project (\<open>src/lib/pdcp\<close>, \<open>src/lib/rlc\<close>), with the
  security algorithms (\<open>src/lib/security\<close>, \<open>src/include/srsran/security\<close>), the bit fields
  (\<open>src/lib/support/bit_encoding.cpp\<close>) and the containers (\<open>src/include/srsran/adt\<close>) they are built on.

  \<^bold>\<open>The program.\<close>  A radio bearer has two layers.  PDCP numbers the SDUs of the upper layer with a COUNT,
  ciphers them and protects their integrity, and hands the PDUs to RLC; at the other side it infers the
  COUNT from the sequence number in the PDU, removes the protection, and delivers in order of COUNT,
  waiting for missing PDUs until t-Reordering expires.  PDCP keeps sent SDUs until a timer expires, RLC
  confirms delivery, or a status report of the peer arrives.  Below it, the bearer has a transmitting and
  a receiving RLC entity in one of three modes.  The transmitting entity takes SDUs from the upper layer
  into a queue and, for every grant of the MAC, hands out one PDU.  The receiving entity takes PDUs from
  the MAC and delivers SDUs.  Transparent mode (TM) passes SDUs through.  Unacknowledged mode (UM)
  segments and reassembles.  Acknowledged mode (AM) keeps sent SDUs in a window until the peer
  acknowledges them in status PDUs, and sends lost parts again; it notifies PDCP of what it sent and what
  was acknowledged.  Changes of the buffer state reach the MAC through tasks of an executor.

  \<^bold>\<open>Theories.\<close>
  \<^item> \<open>Prelude\<close>: the result type with the faults of the model, word lemmas, and the locale \<open>sn_space\<close> of
    sequence numbers modulo a power of two with a window of half that size.
  \<^item> \<open>Rlc_Config\<close> (\<open>rlc_config.h\<close>, \<open>rlc_am_pdu.h\<close>): modes, field lengths, field values, configurations;
    interprets \<open>sn_space\<close> for both families of SN lengths.
  \<^item> \<open>Ring_Buffer\<close>, \<open>Blocking_Queue\<close> (\<open>adt/ring_buffer.h\<close>, \<open>adt/blocking_queue.h\<close>) and \<open>Rlc_Sdu_Queue\<close>
    (\<open>rlc_sdu_queue.h\<close>): the queue of SDUs with its counters; the locale \<open>sdu_fifo\<close> is what the
    transmitting entities use of it.
  \<^item> \<open>Ordered_Map\<close> (the \<open>std::map\<close> of the UM receiver and of PDCP), \<open>Circular_Map\<close> (\<open>adt/circular_map.h\<close>,
    locale \<open>slot_store\<close>) and \<open>Rlc_Am_Window\<close> (\<open>rlc_am_window.h\<close>).
  \<^item> \<open>Rlc_Interfaces\<close> (\<open>rlc_tx.h\<close>, \<open>rlc_rx.h\<close>): notifications as values, deferred buffer state updates.
  \<^item> \<open>Rlc_Tm\<close> (\<open>rlc_tx_tm_entity\<close>, \<open>rlc_rx_tm_entity\<close>).
  \<^item> \<open>Rlc_Um_Pdu\<close> (\<open>rlc_um_pdu.h\<close>), \<open>Rlc_Tx_Um\<close>, \<open>Rlc_Rx_Um\<close> (the UM entities), \<open>Rlc_Um\<close> (both composed).
  \<^item> \<open>Rlc_Am_Pdu\<close>, \<open>Rlc_Am_Status\<close> (\<open>rlc_am_pdu.h\<close>, \<open>.cpp\<close>): AMD PDU headers and status PDUs.
  \<^item> \<open>Rlc_Rx_Am\<close> and \<open>Rlc_Rx_Am_Inv\<close> (\<open>rlc_rx_am_entity\<close>): the AM receiver and its invariant.
  \<^item> \<open>Rlc_Retx_Queue\<close> (\<open>rlc_retx_queue.h\<close>), \<open>Rlc_Tx_Am\<close> and \<open>Rlc_Tx_Am_Inv\<close> (\<open>rlc_tx_am_entity\<close>): the AM
    transmitter and its invariant.
  \<^item> \<open>Rlc_Am\<close> (\<open>rlc_am_entity.h\<close>, \<open>rlc_am_interconnect.h\<close>): the AM bearer as a state machine.
  \<^item> \<open>Bit_Encoding\<close> (\<open>bit_encoding.h\<close>, \<open>.cpp\<close>): the encoder and decoder of bit fields that status reports use.
  \<^item> \<open>Snow3g\<close>, \<open>Zuc\<close> (\<open>s3g.cpp\<close>, \<open>zuc.cpp\<close>) and \<open>Security\<close> (\<open>ciphering.h\<close>, \<open>integrity.h\<close>, \<open>security.h\<close>, \<open>.cpp\<close>):
    the ciphers, NEA1 to NEA3 and NIA1 to NIA3, and key derivation; the locale \<open>stream_cipher\<close> is what makes
    deciphering the inverse of ciphering.
  \<^item> \<open>Pdcp_Config\<close> (\<open>pdcp_config.h\<close>, \<open>pdcp_sn.h\<close>, \<open>pdcp_pdu.h\<close>, \<open>pdcp_entity_tx_rx_base.h\<close>): configurations, headers
    and the arithmetic of COUNTs.
  \<^item> \<open>Pdcp_Tx\<close>, \<open>Pdcp_Rx\<close> (\<open>pdcp_entity_tx\<close>, \<open>pdcp_entity_rx\<close>): the PDCP entities; \<open>Pdcp_Rx_Order\<close>: the receiver on
    the PDUs of a transmitter; \<open>Pdcp\<close> (\<open>pdcp_entity_impl.h\<close>, \<open>pdcp_interconnect.h\<close>): both joined.
  \<^item> \<open>Um_Bearer\<close>: PDCP over RLC UM from end to end.

  \<^bold>\<open>How code becomes definitions.\<close>  A class is a record of its members, a member function a function from
  arguments and state to outputs and state.  \<open>const\<close> members computed by a constructor are functions of
  the configuration.  A failed \<open>srsran_assert\<close>, an access out of bounds, a shift by the width of the
  operand or more, and a wait on a full or empty queue are the values \<open>Assertion_failed\<close>,
  \<open>Invalid_access\<close>, \<open>Undefined_shift\<close> and \<open>Blocked\<close> of the type \<open>fault\<close>.  Integers keep their width where
  they are SNs, counters, offsets or lengths in fields; the length of a byte buffer is a natural number.
  A byte buffer is a list of bytes, whatever its segments in memory; a reference into a container is the
  key it was looked up with.  Notifications are lists of events in the order sent.  A timer is its running
  flag, and its handler runs as a step after the flag is cleared.  A task handed to an executor is counted
  or queued in the state and runs as a step of its own; an argument says whether the executor accepts it.
  A mutex makes a function one step.  AES and HMAC-SHA-256 are functions of mbedTLS, which is not part of
  the sources: they are the argument \<open>crypto_lib\<close>, and where a theorem needs more of them, \<open>ctr_law\<close> and
  \<open>ecb_law\<close> state what mbedTLS documents (counter mode adds a key stream that does not depend on the
  input, a block is encrypted to a block).

  \<^bold>\<open>What is shown.\<close>  A bearer of PDCP over RLC UM delivers what was given to it, for every algorithm.
  PDCP: the COUNT is recovered from its SN within half the SN space; delivery is in strictly ascending
  order of COUNT, of original SDUs, each at most once, whatever the order of arrival, and without gaps
  unless t-Reordering expires; no COUNT is used twice under a key; delivery notifications release exactly
  the SDUs up to the one notified.  Bit fields are read back as packed, and the registers of ZUC follow
  the recurrence of its specification.  UM: segments delivered in order give the SDUs sent, in any order
  they give each SDU once it is complete; PDUs fit their grants; the reported buffer state suffices to
  send all; the receiver returns from every call.  AM: headers and status PDUs are read back as written;
  merged NACKs report what they were merged from; trimmed status PDUs acknowledge nothing that was not
  received; the receiver keeps its state variables ordered within the window and its segments disjoint;
  every PDU of the transmitter fits the grant and carries a contiguous part of an SDU of its window; a
  status report releases only acknowledged SDUs; the poll counters stay below their limits; the totals of
  the retransmission queue are those of its list; and no call of a bearer fails an assertion, if the peer
  reports on what was sent and SDUs fit the 16-bit offsets.  TM: SDUs are delivered as sent.  The SDU
  queue refines a first-in first-out list.  Further theorems show inputs on which the code departs from
  what it means to do; each is listed as a finding of the manifest.

  \<^bold>\<open>Bounds and fuel.\<close>  Loops over SNs end because each step brings the SN one closer to the end, which the
  termination proofs use as measure.  The loop of the UM timer handler has the modulus as fuel, the
  largest distance between two SNs, and is shown not to run out of it.  The segment loop of the UM
  receiver can repeat without end on some states; not returning is \<open>None\<close> there, and shown not to happen
  in states that are reached.  The loop of PDCP over the COUNTs to release is treated alike: it is shown
  to return for notifications within the window, and not to return for one that is not.  SDUs of PDCP are
  shorter than \<open>2 ^ 23\<close> bytes in the theorems, far above the 9000 bytes PDCP allows: up to there the
  single precision \<open>ceilf\<close> of NIA2 is exact and bit lengths fit 32 bits.

  \<^bold>\<open>Not modelled.\<close>  Logging, metrics and formatters; the memory of byte buffers (segments, pools,
  reference counts); floating-point rounding of the ring size, which is an argument; condition variables;
  iterators, copies and moves of containers; construction and wiring by factories other than that of the
  AM bearer and of the PDCP entity.  PDCP does not support header compression, and its metrics are left
  out.  Expiry of a timer is atomic: a handler queued by a timer that was stopped or restarted in between
  is not considered.  The other layers (SDAP, F1-U, MAC, PHY, the control plane and its generated codecs)
  are not modelled: the MAC is the arbitrary sequence of grants and PDUs in the theorems, and in the
  theorems on RLC alone PDCP is the arbitrary sequence of SDUs and discards.
\<close>

end
